(* ===== verification/Prelude.thy ===== *)
theory Prelude
  imports Main "HOL-Library.Word" "HOL-Library.AList"
begin

text \<open>
  Shared vocabulary of the development.

  \<^item> machine integers: \<open>u8\<close>, \<open>u16\<close>, \<open>u32\<close>, \<open>u64\<close> are words of the width the C++ code uses,
    so that every addition, shift and counter wraps as it does there;
  \<^item> failure: \<open>'a res\<close> is the result of code that can end the process.  \<open>Abort\<close> is a call of one
    of the \<open>*_assert_fail\<close> functions (which print their message and call \<open>std::abort\<close>);
    \<open>Undefined\<close> marks undefined behaviour of the C++ abstract machine (an out-of-range
    float-to-integer conversion, an out-of-range index).  \<open>rbind\<close> sequences such code;
  \<^item> little-endian byte order, with the round trips the wire formats rest on;
  \<^item> list lemmas on slices and indices that several components share.
\<close>

unbundle bit_operations_syntax

section \<open>Machine integers\<close>

type_synonym u8 = "8 word"
type_synonym u16 = "16 word"
type_synonym u32 = "32 word"
type_synonym u64 = "64 word"
type_synonym byte = "8 word"

text \<open>The development's rule collections.\<close>

named_theorems res_simps \<open>unfolding of sequenced fallible code\<close>
named_theorems byte_simps \<open>lengths and round trips of byte encodings\<close>
named_theorems frame_simps \<open>fields an operation leaves alone\<close>

section \<open>Fallible code\<close>

datatype fault = Abort string | Undefined string

type_synonym 'a res = "fault + 'a"

definition rbind :: "'a res \<Rightarrow> ('a \<Rightarrow> 'b res) \<Rightarrow> 'b res" where
  "rbind m f = (case m of Inl e \<Rightarrow> Inl e | Inr x \<Rightarrow> f x)"

definition rmap :: "('a \<Rightarrow> 'b) \<Rightarrow> 'a res \<Rightarrow> 'b res" where
  "rmap f m = rbind m (\<lambda>x. Inr (f x))"

lemma rbind_Inl [simp, res_simps]: "rbind (Inl e) f = Inl e"
  by (simp add: rbind_def)

lemma rbind_Inr [simp, res_simps]: "rbind (Inr x) f = f x"
  by (simp add: rbind_def)

lemma rbind_eq_Inr_iff [res_simps]: "rbind m f = Inr y \<longleftrightarrow> (\<exists>x. m = Inr x \<and> f x = Inr y)"
  by (cases m) simp_all

lemma rbind_eq_Inl_iff: "rbind m f = Inl e \<longleftrightarrow> m = Inl e \<or> (\<exists>x. m = Inr x \<and> f x = Inl e)"
  by (cases m) simp_all

lemma rbind_assoc: "rbind (rbind m f) g = rbind m (\<lambda>x. rbind (f x) g)"
  by (cases m) simp_all

lemma rmap_Inl [simp, res_simps]: "rmap f (Inl e) = Inl e"
  by (simp add: rmap_def)

lemma rmap_Inr [simp, res_simps]: "rmap f (Inr x) = Inr (f x)"
  by (simp add: rmap_def)

lemma rmap_eq_Inr_iff [res_simps]: "rmap f m = Inr y \<longleftrightarrow> (\<exists>x. m = Inr x \<and> f x = y)"
  by (cases m) simp_all

lemma rbind_cong [fundef_cong]:
  "m = m' \<Longrightarrow> (\<And>x. m' = Inr x \<Longrightarrow> f x = f' x) \<Longrightarrow> rbind m f = rbind m' f'"
  by (cases m') simp_all

text \<open>A fold that stops at the first fault, as a loop whose body can end the process does.\<close>

fun rfold :: "('a \<Rightarrow> 's \<Rightarrow> 's res) \<Rightarrow> 'a list \<Rightarrow> 's \<Rightarrow> 's res" where
  "rfold f [] s = Inr s"
| "rfold f (x # xs) s = rbind (f x s) (rfold f xs)"

lemma rfold_append: "rfold f (xs @ ys) s = rbind (rfold f xs s) (rfold f ys)"
proof (induction xs arbitrary: s)
  case (Cons x xs)
  then have "rfold f (xs @ ys) = (\<lambda>s. rbind (rfold f xs s) (rfold f ys))" by blast
  then show ?case by (simp add: rbind_assoc)
qed simp

text \<open>An invariant that each iteration keeps holds after the loop.\<close>

lemma rfold_invariant:
  assumes "rfold f xs s = Inr t" and "P s"
    and "\<And>x s t. x \<in> set xs \<Longrightarrow> P s \<Longrightarrow> f x s = Inr t \<Longrightarrow> P t"
  shows "P t"
  using assms
proof (induction xs arbitrary: s)
  case Nil
  then show ?case by simp
next
  case (Cons x xs)
  from Cons.prems(1) obtain s' where s': "f x s = Inr s'" "rfold f xs s' = Inr t"
    by (auto simp: rbind_eq_Inr_iff)
  have "P s'" using Cons.prems(2,3) s'(1) by auto
  with Cons.IH [OF s'(2)] Cons.prems(3) show ?case by auto
qed

section \<open>Little-endian byte order\<close>

text \<open>Byte \<open>i\<close> of a word, counted from the least significant end: \<open>(v >> (8 * i)) & 0xFF\<close>.\<close>

definition byte_at :: "nat \<Rightarrow> 'a::len word \<Rightarrow> byte" where
  "byte_at i v = ucast (drop_bit (8 * i) v AND 0xFF)"

lemma bit_byte_at:
  "bit (byte_at i (v :: 'a::len word)) n \<longleftrightarrow> n < 8 \<and> bit v (8 * i + n)"
proof -
  have mask: "(0xFF :: 'a word) = mask 8" by (simp add: mask_eq_exp_minus_1)
  show ?thesis
    unfolding byte_at_def mask
    by (auto simp: bit_simps dest: bit_imp_le_length)
qed

text \<open>The inverse: byte \<open>b\<close> shifted to position \<open>i\<close>.\<close>

definition byte_to :: "nat \<Rightarrow> byte \<Rightarrow> 'a::len word" where
  "byte_to i b = push_bit (8 * i) (ucast b)"

lemma bit_byte_to:
  "bit (byte_to i b :: 'a::len word) n \<longleftrightarrow> n < LENGTH('a) \<and> 8 * i \<le> n \<and> bit b (n - 8 * i)"
  unfolding byte_to_def by (auto simp: bit_simps)

section \<open>Integer division\<close>

lemma int_le_div_iff: "0 < b \<Longrightarrow> k \<le> a div b \<longleftrightarrow> k * b \<le> (a :: int)"
proof
  assume b: "0 < b" and "k \<le> a div b"
  then have "k * b \<le> a div b * b" by (simp add: mult_right_mono)
  also have "\<dots> \<le> a" using b pos_mod_sign [of b a] div_mult_mod_eq [of a b] by linarith
  finally show "k * b \<le> a" .
next
  assume b: "0 < b" and "k * b \<le> a"
  then have "k * b div b \<le> a div b" by (intro zdiv_mono1)
  with b show "k \<le> a div b" by simp
qed

lemma int_div_less_iff: "0 < b \<Longrightarrow> a div b < k \<longleftrightarrow> (a :: int) < k * b"
  using int_le_div_iff [of b k a] by auto

lemma mod_add_left_inj:
  assumes "i < N" "j < N" "(h + i) mod N = (h + j) mod (N :: nat)"
  shows "i = j"
proof -
  have aux: "i = j" if "i \<le> j" "j < N" "(h + i) mod N = (h + j) mod N" for i j
  proof -
    have "N dvd (h + j) - (h + i)" using that by (metis add_le_mono1 add.commute mod_eq_dvd_iff_nat)
    then have "N dvd j - i" by simp
    with that show ?thesis by (metis diff_is_0_eq diff_le_self dvd_imp_le le_antisym le_trans linorder_not_less neq0_conv)
  qed
  show ?thesis using aux [of i j] aux [of j i] assms by (cases "i \<le> j") auto
qed

section \<open>Lists\<close>

lemma take_drop_slice [simp]:
  "length xs = n \<Longrightarrow> take n (xs @ ys) = xs" "length xs = n \<Longrightarrow> drop n (xs @ ys) = ys"
  by simp_all

lemma nth_rotate_take_drop:
  assumes "h \<le> length xs" and "i < length xs"
  shows "(drop h xs @ take h xs) ! i = xs ! ((h + i) mod length xs)"
proof (cases "h + i < length xs")
  case True
  then have "i < length xs - h" by simp
  with True assms show ?thesis by (simp add: nth_append)
next
  case False
  then have "(h + i) mod length xs = h + i - length xs"
    using assms by (subst le_mod_geq) auto
  with False assms show ?thesis
    by (auto simp: nth_append min_def add.commute)
qed

lemma filter_list_update_other:
  "i < length xs \<Longrightarrow> \<not> P (xs ! i) \<Longrightarrow> \<not> P y \<Longrightarrow> filter P (xs[i := y]) = filter P xs"
proof (induction xs arbitrary: i)
  case (Cons x xs)
  then show ?case by (cases i) auto
qed simp

end
