(* ===== verification/Float32.thy ===== *)
theory Float32
  imports Prelude
begin

text \<open>
  The \<open>float\<close> of the C++ code: IEEE-754 binary32, round to nearest, ties to even.

  A float is its 32-bit pattern, so that \<open>memcpy\<close> between a float and its bits (the wire formats)
  is the identity.  Every finite binary32 value is an integer multiple of \<open>2\<^sup>-\<^sup>149\<close>; \<open>f32_int\<close> is that
  integer, and every operation is the exact integer (or rational, or square root) result followed
  by one rounding, \<open>round_mag\<close>.  Patterns of one sign are ordered as the values they stand for, so
  comparisons are comparisons of \<open>f32_key\<close>.

  An operation whose IEEE result is a NaN returns one fixed quiet NaN; no theorem depends on which.
  The lemmas show that rounding is exact on representable values and monotone, which is what the
  clock, ageing and window properties of the components use.
\<close>

type_synonym f32 = "32 word"

section \<open>Patterns\<close>

definition f32_neg :: "f32 \<Rightarrow> bool" where
  "f32_neg x \<longleftrightarrow> 2 ^ 31 \<le> uint x"

definition f32_mag :: "f32 \<Rightarrow> int" where
  "f32_mag x = uint x mod 2 ^ 31"

definition f32_mk :: "bool \<Rightarrow> int \<Rightarrow> f32" where
  "f32_mk neg b = word_of_int (b + (if neg then 2 ^ 31 else 0))"

abbreviation f32_inf_mag :: int where
  "f32_inf_mag \<equiv> 0x7F800000"

definition f32_isnan :: "f32 \<Rightarrow> bool" where
  "f32_isnan x \<longleftrightarrow> f32_inf_mag < f32_mag x"

definition f32_isinf :: "f32 \<Rightarrow> bool" where
  "f32_isinf x \<longleftrightarrow> f32_mag x = f32_inf_mag"

definition f32_isfinite :: "f32 \<Rightarrow> bool" where
  "f32_isfinite x \<longleftrightarrow> f32_mag x < f32_inf_mag"

definition f32_nan :: f32 where
  "f32_nan = 0x7FC00000"

definition f32_zero :: f32 where
  "f32_zero = 0"

definition f32_one :: f32 where
  "f32_one = 0x3F800000"

text \<open>The value of a magnitude pattern, in units of \<open>2\<^sup>-\<^sup>149\<close>: a subnormal or the first normal binade
  counts units directly; from there each increment of the exponent doubles the step.\<close>

definition units :: "int \<Rightarrow> int" where
  "units b = (if b < 2 ^ 23 then b else (2 ^ 23 + b mod 2 ^ 23) * 2 ^ nat (b div 2 ^ 23 - 1))"

definition f32_int :: "f32 \<Rightarrow> int" where
  "f32_int x = (if f32_neg x then - units (f32_mag x) else units (f32_mag x))"

definition f32_key :: "f32 \<Rightarrow> int" where
  "f32_key x = (if f32_neg x then - f32_mag x else f32_mag x)"

section \<open>Rounding\<close>

function nbits :: "int \<Rightarrow> nat" where
  "nbits n = (if n \<le> 0 then 0 else Suc (nbits (n div 2)))"
  by pat_completeness auto
termination
  by (relation "measure nat") auto

declare nbits.simps [simp del]

definition round_shift :: "int \<Rightarrow> int \<Rightarrow> nat" where
  "round_shift n d = nbits (n div d) - 24"

text \<open>The pattern of the value \<open>n / d\<close> (in units), before overflow is looked at.\<close>

definition round_raw :: "int \<Rightarrow> int \<Rightarrow> int" where
  "round_raw n d =
     (let s = round_shift n d; dd = d * 2 ^ s; m = n div dd; r = n mod dd
      in int s * 2 ^ 23 + (if dd < 2 * r \<or> (2 * r = dd \<and> odd m) then m + 1 else m))"

definition round_mag :: "int \<Rightarrow> int \<Rightarrow> int" where
  "round_mag n d = min (round_raw n d) f32_inf_mag"

definition f32_of_int :: "int \<Rightarrow> f32" where
  "f32_of_int i = f32_mk (i < 0) (round_mag \<bar>i\<bar> 1)"

section \<open>Operations\<close>

definition f32_minus :: "f32 \<Rightarrow> f32" where
  "f32_minus x = x XOR 0x80000000"

definition f32_abs :: "f32 \<Rightarrow> f32" where
  "f32_abs x = x AND 0x7FFFFFFF"

definition f32_add :: "f32 \<Rightarrow> f32 \<Rightarrow> f32" where
  "f32_add x y =
     (if f32_isnan x \<or> f32_isnan y then f32_nan
      else if f32_isinf x then (if f32_isinf y \<and> f32_neg x \<noteq> f32_neg y then f32_nan else x)
      else if f32_isinf y then y
      else let s = f32_int x + f32_int y
           in if s = 0 then f32_mk (f32_neg x \<and> f32_neg y) 0 else f32_of_int s)"

definition f32_sub :: "f32 \<Rightarrow> f32 \<Rightarrow> f32" where
  "f32_sub x y = f32_add x (f32_minus y)"

definition f32_mul :: "f32 \<Rightarrow> f32 \<Rightarrow> f32" where
  "f32_mul x y =
     (let neg = (f32_neg x \<noteq> f32_neg y) in
      if f32_isnan x \<or> f32_isnan y then f32_nan
      else if f32_isinf x then (if f32_mag y = 0 then f32_nan else f32_mk neg f32_inf_mag)
      else if f32_isinf y then (if f32_mag x = 0 then f32_nan else f32_mk neg f32_inf_mag)
      else f32_mk neg (round_mag (units (f32_mag x) * units (f32_mag y)) (2 ^ 149)))"

definition f32_div :: "f32 \<Rightarrow> f32 \<Rightarrow> f32" where
  "f32_div x y =
     (let neg = (f32_neg x \<noteq> f32_neg y) in
      if f32_isnan x \<or> f32_isnan y then f32_nan
      else if f32_isinf x then (if f32_isinf y then f32_nan else f32_mk neg f32_inf_mag)
      else if f32_isinf y then f32_mk neg 0
      else if f32_mag y = 0 then (if f32_mag x = 0 then f32_nan else f32_mk neg f32_inf_mag)
      else f32_mk neg (round_mag (units (f32_mag x) * 2 ^ 149) (units (f32_mag y))))"

text \<open>Integer square root by bisection of the bits, most significant first.\<close>

fun isqrt_from :: "nat \<Rightarrow> int \<Rightarrow> int \<Rightarrow> int" where
  "isqrt_from 0 n r = r"
| "isqrt_from (Suc k) n r =
     (let r' = r + 2 ^ k in isqrt_from k n (if r' * r' \<le> n then r' else r))"

definition isqrt :: "int \<Rightarrow> int" where
  "isqrt n = isqrt_from (Suc (nbits n div 2)) n 0"

text \<open>\<open>std::sqrt\<close>: the exact root lies strictly between \<open>r\<close> and \<open>r + 1\<close> units unless \<open>n\<close> is a square,
  and rounding boundaries are whole units there, so the half-way value \<open>r + 1/2\<close> rounds as it does.\<close>

definition f32_sqrt :: "f32 \<Rightarrow> f32" where
  "f32_sqrt x =
     (if f32_isnan x then f32_nan
      else if f32_mag x = 0 then x
      else if f32_neg x then f32_nan
      else if f32_isinf x then x
      else let n = units (f32_mag x) * 2 ^ 149; r = isqrt n
           in f32_mk False (round_mag (if r * r = n then 2 * r else 2 * r + 1) 2))"

definition f32_lt :: "f32 \<Rightarrow> f32 \<Rightarrow> bool" where
  "f32_lt x y \<longleftrightarrow> \<not> f32_isnan x \<and> \<not> f32_isnan y \<and> f32_key x < f32_key y"

definition f32_le :: "f32 \<Rightarrow> f32 \<Rightarrow> bool" where
  "f32_le x y \<longleftrightarrow> \<not> f32_isnan x \<and> \<not> f32_isnan y \<and> f32_key x \<le> f32_key y"

text \<open>\<open>std::clamp (v, lo, hi)\<close>: \<open>v < lo ? lo : hi < v ? hi : v\<close>.\<close>

definition f32_clamp :: "f32 \<Rightarrow> f32 \<Rightarrow> f32 \<Rightarrow> f32" where
  "f32_clamp v lo hi = (if f32_lt v lo then lo else if f32_lt hi v then hi else v)"

text \<open>\<open>static_cast<float>\<close> of an unsigned integer.\<close>

definition f32_of_nat :: "nat \<Rightarrow> f32" where
  "f32_of_nat n = f32_mk False (round_mag (int n * 2 ^ 149) 1)"

text \<open>\<open>std::floor\<close> and \<open>std::ceil\<close> followed by the conversion to a 32-bit integer.  The conversion of
  a NaN, an infinity or a value outside the range of the type is undefined behaviour.\<close>

definition f32_floor :: "f32 \<Rightarrow> int" where
  "f32_floor x = f32_int x div 2 ^ 149"

definition f32_ceil :: "f32 \<Rightarrow> int" where
  "f32_ceil x = - ((- f32_int x) div 2 ^ 149)"

definition in_i32 :: "int \<Rightarrow> bool" where
  "in_i32 i \<longleftrightarrow> - (2 ^ 31) \<le> i \<and> i < 2 ^ 31"

definition floor_to_i32 :: "f32 \<Rightarrow> int res" where
  "floor_to_i32 x =
     (if f32_isfinite x \<and> in_i32 (f32_floor x) then Inr (f32_floor x)
      else Inl (Undefined ''float to int32 conversion out of range''))"

definition ceil_to_i32 :: "f32 \<Rightarrow> int res" where
  "ceil_to_i32 x =
     (if f32_isfinite x \<and> in_i32 (f32_ceil x) then Inr (f32_ceil x)
      else Inl (Undefined ''float to int32 conversion out of range''))"

section \<open>Properties of rounding\<close>

lemma nbits_bounds: "0 < n \<Longrightarrow> 2 ^ (nbits n - 1) \<le> n \<and> n < 2 ^ nbits n \<and> 0 < nbits n"
proof (induction n rule: nbits.induct)
  case (1 n)
  show ?case
  proof (cases "n = 1")
    case True
    then show ?thesis by (simp add: nbits.simps)
  next
    case False
    with "1.prems" have half: "0 < n div 2" by simp
    with "1" have IH: "2 ^ (nbits (n div 2) - 1) \<le> n div 2" "n div 2 < 2 ^ nbits (n div 2)"
      "0 < nbits (n div 2)" by auto
    then have "2 * 2 ^ (nbits (n div 2) - 1) = (2 :: int) ^ nbits (n div 2)"
      by (metis Suc_pred' power_Suc)
    with IH have "2 ^ nbits (n div 2) \<le> n" "n < 2 * 2 ^ nbits (n div 2)" by linarith+
    with "1.prems" show ?thesis by (simp add: nbits.simps [of n])
  qed
qed

lemma units_small: "0 \<le> b \<Longrightarrow> b \<le> 2 ^ 24 \<Longrightarrow> units b = b"
proof -
  assume b: "0 \<le> b" "b \<le> 2 ^ 24"
  consider "b < 2 ^ 23" | "2 ^ 23 \<le> b" "b < 2 ^ 24" | "b = 2 ^ 24" using b by linarith
  then show ?thesis
  proof cases
    case 2
    then have "b div 2 ^ 23 = 1" by simp
    with 2 show ?thesis by (simp add: units_def minus_div_mult_eq_mod [symmetric])
  qed (auto simp: units_def)
qed

lemma units_normal:
  assumes "2 ^ 23 \<le> m" "m \<le> 2 ^ 24"
  shows "units (int s * 2 ^ 23 + m) = m * 2 ^ s"
proof (cases "m = 2 ^ 24")
  case True
  then have eq: "int s * 2 ^ 23 + m = (int s + 2) * 2 ^ 23" by simp
  have "units (int s * 2 ^ 23 + m) = 2 ^ 23 * 2 ^ nat (int s + 1)"
    unfolding eq units_def by simp
  then show ?thesis using True by (simp add: nat_add_distrib)
next
  case False
  with assms have m: "m div 2 ^ 23 = 1" "m mod 2 ^ 23 = m - 2 ^ 23"
    by (simp_all add: minus_div_mult_eq_mod [symmetric])
  then have "(int s * 2 ^ 23 + m) div 2 ^ 23 = int s + 1" "(int s * 2 ^ 23 + m) mod 2 ^ 23 = m - 2 ^ 23"
    by simp_all
  moreover have "\<not> int s * 2 ^ 23 + m < 2 ^ 23" using assms by simp
  ultimately show ?thesis unfolding units_def by simp
qed

text \<open>A pattern splits into a shift and a significand.\<close>

lemma pattern_split:
  assumes "2 ^ 23 \<le> b"
  obtains s m where "b = int s * 2 ^ 23 + m" "2 ^ 23 \<le> m" "m < 2 ^ 24"
proof
  have q: "1 \<le> b div 2 ^ 23" using assms by simp
  have "b div 2 ^ 23 * 2 ^ 23 + b mod 2 ^ 23 = b" by (rule div_mult_mod_eq)
  with q show "b = int (nat (b div 2 ^ 23 - 1)) * 2 ^ 23 + (2 ^ 23 + b mod 2 ^ 23)"
    by (simp add: algebra_simps)
qed simp_all

lemma units_step: "0 \<le> b \<Longrightarrow> units b < units (b + 1)"
proof (cases "b < 2 ^ 23")
  case True
  assume "0 \<le> b"
  with True show ?thesis by (simp add: units_small)
next
  case False
  then have "2 ^ 23 \<le> b" by simp
  then obtain s m where sm: "b = int s * 2 ^ 23 + m" "2 ^ 23 \<le> m" "m < 2 ^ 24"
    by (rule pattern_split)
  have "units b = m * 2 ^ s" using sm by (simp only: units_normal)
  moreover have "units (b + 1) = (m + 1) * 2 ^ s"
    using sm units_normal [of "m + 1" s] by (simp add: add.assoc)
  ultimately show ?thesis by simp
qed

lemma units_strict_mono: "0 \<le> a \<Longrightarrow> a < b \<Longrightarrow> units a < units b"
proof (induction "nat (b - a)" arbitrary: b)
  case (Suc k)
  show ?case
  proof (cases "b = a + 1")
    case True
    with Suc show ?thesis by (simp add: units_step)
  next
    case False
    with Suc.prems have lt: "a < b - 1" by simp
    have "k = nat (b - 1 - a)" using Suc.hyps(2) by linarith
    then have "units a < units (b - 1)" using Suc.prems(1) lt by (rule Suc.hyps(1))
    also have "\<dots> < units b" using units_step [of "b - 1"] Suc.prems lt by simp
    finally show ?thesis .
  qed
qed simp

lemma units_mono: "0 \<le> a \<Longrightarrow> a \<le> b \<Longrightarrow> units a \<le> units b"
  using units_strict_mono [of a b] by (cases "a = b") simp_all

lemma units_nonneg: "0 \<le> b \<Longrightarrow> 0 \<le> units b"
  using units_mono [of 0 b] by (simp add: units_def)

text \<open>The rounded pattern is the one nearest to \<open>n / d\<close>: twice the value lies between the sums of
  neighbouring patterns, and on a boundary the even pattern is chosen.\<close>

definition nearest :: "int \<Rightarrow> int \<Rightarrow> int \<Rightarrow> bool" where
  "nearest n d b \<longleftrightarrow> 0 \<le> b
     \<and> (2 * n < d * (units b + units (b + 1)) \<or> (2 * n = d * (units b + units (b + 1)) \<and> even b))
     \<and> (b = 0 \<or> d * (units (b - 1) + units b) < 2 * n \<or> (d * (units (b - 1) + units b) = 2 * n \<and> even b))"

lemma nearest_order:
  assumes "nearest n d b" "nearest n' d' b'" "0 < d" "0 < d'" "n * d' \<le> n' * d"
  shows "b \<le> b'"
proof (rule ccontr)
  assume "\<not> b \<le> b'"
  then have lt: "b' + 1 \<le> b" by simp
  have b0: "0 \<le> b'" "b \<noteq> 0" using assms(2) lt by (auto simp: nearest_def)
  let ?lo = "units (b - 1) + units b" and ?hi = "units b' + units (b' + 1)"
  have hi: "2 * n' \<le> d' * ?hi" "2 * n' = d' * ?hi \<Longrightarrow> even b'" using assms(2) by (auto simp: nearest_def)
  have lo: "d * ?lo \<le> 2 * n" "2 * n = d * ?lo \<Longrightarrow> even b" using assms(1) b0
    by (auto simp: nearest_def add.commute)
  have le: "?hi \<le> ?lo" using lt b0 by (intro add_mono units_mono) auto
  have "d * ?lo * d' \<le> 2 * n * d'" using lo assms(4) by (simp add: mult_right_mono)
  moreover have "2 * n' * d \<le> d' * ?hi * d" using hi assms(3) by (simp add: mult_right_mono)
  moreover have "d' * ?hi * d \<le> d' * ?lo * d" using le assms(3,4) by (simp add: mult_left_mono mult_right_mono)
  moreover have "2 * n * d' \<le> 2 * n' * d" using assms(5) by (simp add: mult.assoc)
  moreover have "d * ?lo * d' = d' * ?lo * d" by (simp only: mult.commute mult.left_commute mult.assoc)
  ultimately have eq1: "d * ?lo * d' = 2 * n * d'" and eq2: "2 * n' * d = d' * ?hi * d"
    and eq3: "d' * ?hi * d = d' * ?lo * d"
    by linarith+
  note eqs = eq1 eq2 eq3
  from eqs(1) assms(4) have "even b" using lo(2) by simp
  moreover from eqs(2) assms(3) have "even b'" using hi(2) by simp
  moreover have "b = b' + 1"
  proof (rule ccontr)
    assume "b \<noteq> b' + 1"
    with lt have "units (b' + 1) < units b" "units b' \<le> units (b - 1)"
      using b0 by (auto intro!: units_strict_mono units_mono)
    then have "?hi < ?lo" by simp
    with eqs(3) assms(3,4) show False by simp
  qed
  ultimately show False by simp
qed

lemma nearest_unique: "nearest n d b \<Longrightarrow> nearest n d b' \<Longrightarrow> 0 < d \<Longrightarrow> b = b'"
  using nearest_order [of n d b n d b'] nearest_order [of n d b' n d b] by auto

lemma units_pred_le: "0 < b \<Longrightarrow> units (b - 1) < units b"
  using units_step [of "b - 1"] by simp

text \<open>The significand of the quotient, at the shift that leaves 24 bits.\<close>

lemma round_significand:
  assumes "0 \<le> n" "0 < d"
  shows "n div (d * 2 ^ round_shift n d) < 2 ^ 24"
    and "round_shift n d \<noteq> 0 \<Longrightarrow> 2 ^ 23 \<le> n div (d * 2 ^ round_shift n d)"
proof -
  let ?q = "n div d" and ?s = "round_shift n d"
  have div: "n div (d * 2 ^ ?s) = ?q div 2 ^ ?s" using assms by (simp add: zdiv_zmult2_eq)
  have q0: "0 \<le> ?q" using assms by (simp add: pos_imp_zdiv_nonneg_iff)
  have lt: "?q < 2 ^ (24 + ?s)"
  proof (cases "?q = 0")
    case False
    with q0 have "?q < 2 ^ nbits ?q" using nbits_bounds by simp
    also have "\<dots> \<le> (2 :: int) ^ (24 + ?s)" by (rule power_increasing) (auto simp: round_shift_def)
    finally show ?thesis .
  qed simp
  then show "n div (d * 2 ^ ?s) < 2 ^ 24"
    unfolding div by (simp add: power_add int_div_less_iff mult.commute)
  assume s0: "?s \<noteq> 0"
  have "nbits 0 = 0" by (simp add: nbits.simps)
  then have "?q \<noteq> 0" using s0 by (auto simp: round_shift_def)
  with q0 have "2 ^ (nbits ?q - 1) \<le> ?q" using nbits_bounds by simp
  moreover have "nbits ?q - 1 = 23 + ?s" using s0 by (simp add: round_shift_def)
  ultimately show "2 ^ 23 \<le> n div (d * 2 ^ ?s)"
    unfolding div by (simp add: power_add int_le_div_iff)
qed

lemma round_raw_nearest:
  assumes "0 \<le> n" "0 < d"
  shows "nearest n d (round_raw n d)"
proof -
  define s where "s = round_shift n d"
  define dd where "dd = d * 2 ^ s"
  define m where "m = n div dd"
  define r where "r = n mod dd"
  define up where "up \<longleftrightarrow> dd < 2 * r \<or> (2 * r = dd \<and> odd m)"
  have dd0: "0 < dd" using assms by (simp add: dd_def)
  have n: "n = m * dd + r" by (simp add: m_def r_def)
  have r: "0 \<le> r" "r < dd" using dd0 by (simp_all add: r_def)
  have m0: "0 \<le> m" using assms dd0 by (simp add: m_def pos_imp_zdiv_nonneg_iff)
  have m24: "m < 2 ^ 24" using round_significand(1) [OF assms] by (simp add: m_def dd_def s_def)
  have m23: "s \<noteq> 0 \<Longrightarrow> 2 ^ 23 \<le> m" using round_significand(2) [OF assms] by (simp add: m_def dd_def s_def)
  let ?b = "int s * 2 ^ 23 + m"
  have val: "d * units (int s * 2 ^ 23 + k) = k * dd" if "m \<le> k" "k \<le> m + 1" for k
  proof (cases "s = 0")
    case True
    then show ?thesis using that m0 m24 by (simp add: units_small dd_def)
  next
    case False
    then show ?thesis using that m23 m24 units_normal [of k s] by (simp add: dd_def)
  qed
  have u0: "d * units ?b = m * dd" using val [of m] by simp
  have u1: "d * units (?b + 1) = (m + 1) * dd" using val [of "m + 1"] by (simp add: add.assoc)
  have b0: "0 \<le> ?b" using m0 by simp
  have evb: "even ?b \<longleftrightarrow> even m" by simp
  have raw: "round_raw n d = (if up then ?b + 1 else ?b)"
    by (simp add: round_raw_def Let_def up_def flip: s_def dd_def m_def r_def)
  show ?thesis
  proof (cases up)
    case True
    then have r2: "dd < 2 * r \<or> (2 * r = dd \<and> odd m)" by (simp add: up_def)
    have "d * units (?b + 1) < d * units (?b + 2)" using units_step [of "?b + 1"] b0 assms
      by (simp add: add.commute add.left_commute)
    with u1 r n dd0 have "2 * n < d * (units (?b + 1) + units (?b + 2))"
      by (simp add: algebra_simps)
    moreover have "d * (units ?b + units (?b + 1)) < 2 * n
        \<or> (d * (units ?b + units (?b + 1)) = 2 * n \<and> even (?b + 1))"
      using r2 u0 u1 n evb by (auto simp: algebra_simps)
    ultimately have "nearest n d (?b + 1)" using b0 unfolding nearest_def by (simp add: add.assoc)
    with True show ?thesis by (simp add: raw)
  next
    case False
    then have r2: "2 * r < dd \<or> (2 * r = dd \<and> even m)" by (auto simp: up_def)
    have "2 * n < d * (units ?b + units (?b + 1)) \<or> (2 * n = d * (units ?b + units (?b + 1)) \<and> even ?b)"
      using r2 u0 u1 n evb by (auto simp: algebra_simps)
    moreover have "?b = 0 \<or> d * (units (?b - 1) + units ?b) < 2 * n"
    proof (cases "?b = 0")
      case False
      then have "d * units (?b - 1) < d * units ?b" using units_pred_le [of ?b] b0 assms by simp
      with u0 r n show ?thesis by (simp add: algebra_simps)
    qed simp
    ultimately have "nearest n d ?b" using b0 unfolding nearest_def by blast
    with False show ?thesis by (simp add: raw)
  qed
qed

lemma round_raw_eqI: "nearest n d b \<Longrightarrow> 0 \<le> n \<Longrightarrow> 0 < d \<Longrightarrow> round_raw n d = b"
  using nearest_unique round_raw_nearest by blast

lemma round_mag_mono:
  assumes "0 \<le> n" "0 < d" "0 \<le> n'" "0 < d'" "n * d' \<le> n' * d"
  shows "round_mag n d \<le> round_mag n' d'"
  using nearest_order [OF round_raw_nearest round_raw_nearest, of n d n' d'] assms
  by (auto simp: round_mag_def)

lemma round_mag_bounds: "0 \<le> n \<Longrightarrow> 0 < d \<Longrightarrow> 0 \<le> round_mag n d \<and> round_mag n d \<le> f32_inf_mag"
  using round_raw_nearest [of n d] by (auto simp: round_mag_def nearest_def)

lemma nearest_units: "0 \<le> b \<Longrightarrow> nearest (units b) 1 b"
  using units_step [of b] units_pred_le [of b] by (auto simp: nearest_def)

text \<open>Rounding is exact on representable values.\<close>

lemma round_mag_units: "0 \<le> b \<Longrightarrow> b \<le> f32_inf_mag \<Longrightarrow> round_mag (units b) 1 = b"
  using round_raw_eqI [OF nearest_units, of b] units_nonneg [of b] by (simp add: round_mag_def)

section \<open>Properties of the operations\<close>

lemma f32_mag_bounds [simp]: "0 \<le> f32_mag x" "f32_mag x < 2 ^ 31"
  by (simp_all add: f32_mag_def)

lemma uint_bound_32: "uint (x :: f32) < 2 ^ 32"
  using uint_bounded [of x] by simp

lemma f32_uint_split: "uint x = f32_mag x + (if f32_neg x then 2 ^ 31 else 0)"
proof (cases "2 ^ 31 \<le> uint x")
  case True
  then have "uint x mod 2 ^ 31 = (uint x - 2 ^ 31) mod 2 ^ 31" by (simp add: mod_diff_eq)
  also have "\<dots> = uint x - 2 ^ 31" using True uint_bound_32 [of x] by (intro mod_pos_pos_trivial) auto
  finally show ?thesis using True by (simp add: f32_mag_def f32_neg_def)
next
  case False
  then show ?thesis by (simp add: f32_mag_def f32_neg_def)
qed

lemma uint_f32_mk: "0 \<le> b \<Longrightarrow> b < 2 ^ 31 \<Longrightarrow> uint (f32_mk neg b) = b + (if neg then 2 ^ 31 else 0)"
  unfolding f32_mk_def by (simp only: uint_word_of_int) auto

lemma f32_mk_sel [simp]:
  assumes "0 \<le> b" "b < 2 ^ 31"
  shows "f32_mag (f32_mk neg b) = b" "f32_neg (f32_mk neg b) = neg"
  using assms by (auto simp: f32_mag_def f32_neg_def uint_f32_mk)

lemma f32_mk_surj: "f32_mk (f32_neg x) (f32_mag x) = x"
  by (rule word_uint_eqI) (simp only: uint_f32_mk f32_mag_bounds f32_uint_split [of x])

lemma f32_class: "f32_isnan x \<or> f32_isinf x \<or> f32_isfinite x"
  by (auto simp: f32_isnan_def f32_isinf_def f32_isfinite_def)

lemma f32_finite_not_nan [simp]: "f32_isfinite x \<Longrightarrow> \<not> f32_isnan x" "f32_isfinite x \<Longrightarrow> \<not> f32_isinf x"
  by (auto simp: f32_isnan_def f32_isinf_def f32_isfinite_def)

text \<open>Comparisons are a total preorder on the patterns that are not NaN.\<close>

lemma f32_lt_irrefl [simp]: "\<not> f32_lt x x"
  by (simp add: f32_lt_def)

lemma f32_le_refl: "f32_le x x \<longleftrightarrow> \<not> f32_isnan x"
  by (simp add: f32_le_def)

lemma f32_lt_trans: "f32_lt x y \<Longrightarrow> f32_lt y z \<Longrightarrow> f32_lt x z"
  by (simp add: f32_lt_def)

lemma f32_le_trans: "f32_le x y \<Longrightarrow> f32_le y z \<Longrightarrow> f32_le x z"
  by (simp add: f32_le_def)

lemma f32_not_lt: "\<not> f32_isnan x \<Longrightarrow> \<not> f32_isnan y \<Longrightarrow> \<not> f32_lt x y \<longleftrightarrow> f32_le y x"
  by (auto simp: f32_lt_def f32_le_def)

lemma f32_lt_imp_le: "f32_lt x y \<Longrightarrow> f32_le x y"
  by (simp add: f32_lt_def f32_le_def)

lemma f32_lt_le_trans: "f32_lt x y \<Longrightarrow> f32_le y z \<Longrightarrow> f32_lt x z"
  by (simp add: f32_lt_def f32_le_def)

lemma f32_le_lt_trans: "f32_le x y \<Longrightarrow> f32_lt y z \<Longrightarrow> f32_lt x z"
  by (simp add: f32_lt_def f32_le_def)

lemma f32_zero_facts [simp]:
  "f32_key f32_zero = 0" "\<not> f32_isnan f32_zero" "f32_isfinite f32_zero"
  by (simp_all add: f32_key_def f32_isnan_def f32_isfinite_def f32_zero_def f32_mag_def f32_neg_def)

lemma f32_clamp_bounds:
  assumes "\<not> f32_isnan v" "f32_le lo hi"
  shows "f32_le lo (f32_clamp v lo hi) \<and> f32_le (f32_clamp v lo hi) hi"
  using assms f32_not_lt [of v lo] f32_not_lt [of hi v] f32_le_refl
  by (auto simp: f32_clamp_def f32_le_def)

text \<open>The value of a finite float as a function of its key, and rounding as a function into keys.\<close>

definition signed_units :: "int \<Rightarrow> int" where
  "signed_units k = (if k < 0 then - units (- k) else units k)"

definition round_key :: "int \<Rightarrow> int" where
  "round_key i = (if i < 0 then - round_mag (- i) 1 else round_mag i 1)"

lemma f32_int_key: "f32_int x = signed_units (f32_key x)"
proof (cases "f32_mag x = 0")
  case True
  then show ?thesis by (simp add: f32_int_def f32_key_def signed_units_def units_def)
next
  case False
  then have "0 < f32_mag x" using f32_mag_bounds(1) [of x] by linarith
  then show ?thesis by (simp add: f32_int_def f32_key_def signed_units_def)
qed

lemma round_key_mono:
  assumes "i \<le> j"
  shows "round_key i \<le> round_key j"
proof -
  consider "0 \<le> i" | "i < 0" "0 \<le> j" | "j < 0" by linarith
  then show ?thesis
  proof cases
    case 2
    then have "0 \<le> round_mag (- i) 1" "0 \<le> round_mag j 1" by (simp_all add: round_mag_bounds)
    with 2 show ?thesis by (simp add: round_key_def)
  qed (use assms in \<open>auto simp: round_key_def intro!: round_mag_mono\<close>)
qed

lemma round_key_signed_units: "\<bar>k\<bar> \<le> f32_inf_mag \<Longrightarrow> round_key (signed_units k) = k"
proof (cases "k < 0")
  case True
  then have "0 < units (- k)" using units_strict_mono [of 0 "- k"] by (simp add: units_def)
  moreover assume "\<bar>k\<bar> \<le> f32_inf_mag"
  ultimately show ?thesis using True by (simp add: signed_units_def round_key_def round_mag_units)
next
  case False
  then have "0 \<le> units k" by (simp add: units_nonneg)
  moreover assume "\<bar>k\<bar> \<le> f32_inf_mag"
  ultimately show ?thesis using False by (simp add: signed_units_def round_key_def round_mag_units)
qed

lemma round_mag_small: "0 \<le> n \<Longrightarrow> 0 < d \<Longrightarrow> round_mag n d < 2 ^ 31"
  using round_mag_bounds [of n d] by simp

lemma f32_mk_round [simp]:
  assumes "0 \<le> n" "0 < d"
  shows "f32_mag (f32_mk neg (round_mag n d)) = round_mag n d"
    "f32_neg (f32_mk neg (round_mag n d)) = neg"
    "\<not> f32_isnan (f32_mk neg (round_mag n d))"
  using assms round_mag_bounds [of n d] round_mag_small [of n d] by (simp_all add: f32_isnan_def)

lemma f32_key_of_int: "f32_key (f32_of_int i) = round_key i"
  by (simp add: f32_of_int_def f32_key_def round_key_def abs_if)

lemma f32_add_finite:
  assumes "f32_isfinite x" "f32_isfinite y"
  shows "f32_key (f32_add x y) = round_key (f32_int x + f32_int y)" "\<not> f32_isnan (f32_add x y)"
proof -
  have "round_mag 0 1 = 0" using round_mag_units [of 0] by (simp add: units_def)
  then show "f32_key (f32_add x y) = round_key (f32_int x + f32_int y)"
    using assms by (auto simp: f32_add_def Let_def f32_key_of_int round_key_def f32_key_def [of "f32_mk _ 0"])
  show "\<not> f32_isnan (f32_add x y)"
    using assms by (auto simp: f32_add_def Let_def f32_of_int_def) (simp add: f32_isnan_def)
qed

lemma f32_key_finite: "f32_isfinite x \<Longrightarrow> \<bar>f32_key x\<bar> < f32_inf_mag"
  by (auto simp: f32_key_def f32_isfinite_def)

text \<open>Adding a non-negative float never moves below the other summand.\<close>

lemma f32_add_nonneg:
  assumes "f32_isfinite x" "f32_isfinite y" "f32_le f32_zero y"
  shows "f32_le x (f32_add x y)"
proof -
  have "0 \<le> f32_key y" using assms(3) by (simp add: f32_le_def)
  then have "0 \<le> f32_int y" by (simp add: f32_int_key signed_units_def units_nonneg)
  then have "round_key (f32_int x) \<le> round_key (f32_int x + f32_int y)" by (intro round_key_mono) simp
  moreover have "round_key (f32_int x) = f32_key x"
    using f32_key_finite [OF assms(1)] by (simp add: f32_int_key round_key_signed_units)
  ultimately show ?thesis using assms f32_add_finite [of x y] by (simp add: f32_le_def)
qed


lemma f32_add_mono:
  assumes "f32_isfinite x" "f32_isfinite y" "f32_isfinite z" "f32_le x y"
  shows "f32_le (f32_add z x) (f32_add z y)"
proof -
  have "signed_units (f32_key x) \<le> signed_units (f32_key y)"
    using assms(4) units_mono [of "f32_key x" "f32_key y"] units_mono [of "- f32_key y" "- f32_key x"]
      units_nonneg [of "- f32_key x"] units_nonneg [of "f32_key y"]
    by (auto simp: signed_units_def f32_le_def)
  then have "round_key (f32_int z + f32_int x) \<le> round_key (f32_int z + f32_int y)"
    by (intro round_key_mono) (simp add: f32_int_key)
  then show ?thesis using assms f32_add_finite [of z x] f32_add_finite [of z y] by (simp add: f32_le_def)
qed

text \<open>Sign changes on the pattern.\<close>

lemma f32_neg_bit: "f32_neg x \<longleftrightarrow> bit x 31"
proof -
  have "bit (uint x) 31 \<longleftrightarrow> bit x 31" by (simp add: bit_uint_iff)
  moreover have "bit (uint x) 31 \<longleftrightarrow> odd (uint x div 2 ^ 31)" by (rule bit_iff_odd)
  moreover have "uint x div 2 ^ 31 = (if f32_neg x then 1 else 0)"
    using uint_bound_32 [of x] int_le_div_iff [of "2 ^ 31" 1 "uint x"] int_div_less_iff [of "2 ^ 31" "uint x" 2]
    by (auto simp: f32_neg_def div_pos_pos_trivial)
  ultimately show ?thesis by (auto split: if_splits)
qed

lemma f32_mag_bits: "f32_mag x = uint (take_bit 31 x)"
  unfolding f32_mag_def by (simp only: unsigned_take_bit_eq take_bit_eq_mod [where 'a = int])

lemma f32_minus_sel [simp]: "f32_mag (f32_minus x) = f32_mag x" "f32_neg (f32_minus x) \<longleftrightarrow> \<not> f32_neg x"
proof -
  have "take_bit 31 (0x80000000 :: f32) = 0" "bit (0x80000000 :: f32) 31" by code_simp+
  then show "f32_mag (f32_minus x) = f32_mag x" "f32_neg (f32_minus x) \<longleftrightarrow> \<not> f32_neg x"
    by (simp_all add: f32_mag_bits f32_neg_bit f32_minus_def take_bit_xor bit_xor_iff)
qed

lemma f32_abs_sel [simp]: "f32_mag (f32_abs x) = f32_mag x" "\<not> f32_neg (f32_abs x)"
proof -
  have "(0x7FFFFFFF :: f32) = mask 31" by code_simp
  then have "f32_abs x = take_bit 31 x" by (simp only: f32_abs_def take_bit_eq_mask)
  then show "f32_mag (f32_abs x) = f32_mag x" "\<not> f32_neg (f32_abs x)"
    by (simp_all add: f32_mag_bits f32_neg_bit bit_take_bit_iff)
qed

lemma f32_minus_class [simp]:
  "f32_isnan (f32_minus x) \<longleftrightarrow> f32_isnan x" "f32_isfinite (f32_minus x) \<longleftrightarrow> f32_isfinite x"
  "f32_isinf (f32_minus x) \<longleftrightarrow> f32_isinf x" "f32_key (f32_minus x) = - f32_key x"
  by (simp_all add: f32_isnan_def f32_isfinite_def f32_isinf_def f32_key_def)

lemma f32_abs_class [simp]: "f32_isnan (f32_abs x) \<longleftrightarrow> f32_isnan x" "f32_key (f32_abs x) = \<bar>f32_key x\<bar>"
  by (simp_all add: f32_isnan_def f32_key_def)

lemma f32_nan_isnan [simp]: "f32_isnan f32_nan" "\<not> f32_isfinite f32_nan"
  by code_simp+

lemma f32_nan_absorbs [simp]:
  "f32_isnan x \<or> f32_isnan y \<Longrightarrow> f32_isnan (f32_add x y)" "f32_isnan x \<or> f32_isnan y \<Longrightarrow> f32_isnan (f32_mul x y)"
  "f32_isnan x \<or> f32_isnan y \<Longrightarrow> f32_isnan (f32_div x y)" "f32_isnan x \<or> f32_isnan y \<Longrightarrow> f32_isnan (f32_sub x y)"
  by (auto simp: f32_add_def f32_mul_def f32_div_def f32_sub_def Let_def)

section \<open>Non-negative values\<close>

abbreviation f32_nonneg :: "f32 \<Rightarrow> bool" where
  "f32_nonneg \<equiv> f32_le f32_zero"

lemma f32_nonneg_key: "f32_nonneg x \<longleftrightarrow> \<not> f32_isnan x \<and> 0 \<le> f32_key x"
  by (simp add: f32_le_def)

lemma f32_nonneg_mk: "0 \<le> b \<Longrightarrow> b \<le> f32_inf_mag \<Longrightarrow> f32_nonneg (f32_mk False b)"
  by (simp add: f32_nonneg_key f32_key_def f32_isnan_def)

lemma f32_zero_mag: "f32_neg x \<Longrightarrow> f32_nonneg x \<Longrightarrow> f32_mag x = 0"
  using f32_mag_bounds(1) [of x] by (simp add: f32_nonneg_key f32_key_def)

lemma f32_nonneg_zero_mk: "f32_nonneg (f32_mk neg 0)"
  by (simp add: f32_nonneg_key f32_key_def f32_isnan_def)

lemma f32_sub_nonneg:
  assumes "f32_isfinite x" "f32_isfinite y" "f32_le y x"
  shows "f32_nonneg (f32_sub x y)"
proof -
  have "f32_int (f32_minus y) = - f32_int y" by (simp add: f32_int_def)
  moreover have "signed_units (f32_key y) \<le> signed_units (f32_key x)"
    using assms(3) units_mono [of "f32_key y" "f32_key x"] units_mono [of "- f32_key x" "- f32_key y"]
      units_nonneg [of "- f32_key y"] units_nonneg [of "f32_key x"]
    by (auto simp: signed_units_def f32_le_def)
  ultimately have "0 \<le> round_key (f32_int x + f32_int (f32_minus y))"
    using round_mag_bounds [of "f32_int x - f32_int y" 1] by (simp add: round_key_def f32_int_key)
  then show ?thesis using assms f32_add_finite [of x "f32_minus y"] by (simp add: f32_sub_def f32_nonneg_key)
qed

lemma f32_add_nonneg_nonneg:
  assumes "f32_nonneg x" "f32_nonneg y"
  shows "f32_nonneg (f32_add x y)"
proof (cases "f32_isfinite x \<and> f32_isfinite y")
  case True
  then have "f32_le x (f32_add x y)" using assms by (intro f32_add_nonneg) simp_all
  then show ?thesis using assms f32_le_trans by blast
next
  case False
  have pos: "\<not> f32_neg z" if "f32_nonneg z" "f32_isinf z" for z
    using that f32_zero_mag [of z] by (auto simp: f32_isinf_def)
  show ?thesis using False assms pos [OF assms(1)] pos [OF assms(2)] f32_class [of x] f32_class [of y]
    by (auto simp: f32_add_def Let_def f32_nonneg_key)
qed

lemma f32_mul_nonneg:
  assumes "f32_nonneg x" "f32_nonneg y" "f32_isfinite x" "0 < f32_key x"
  shows "f32_nonneg (f32_mul x y)"
proof -
  have x: "\<not> f32_neg x" "\<not> f32_isnan x" "\<not> f32_isinf x" "f32_mag x \<noteq> 0"
    using assms f32_mag_bounds(1) [of x] by (auto simp: f32_key_def simp del: f32_mag_bounds(1) split: if_splits)
  have r: "0 \<le> round_mag (units (f32_mag x) * units (f32_mag y)) (2 ^ 149)"
    "round_mag (units (f32_mag x) * units (f32_mag y)) (2 ^ 149) \<le> f32_inf_mag"
    using round_mag_bounds [of "units (f32_mag x) * units (f32_mag y)" "2 ^ 149"] by (simp_all add: units_nonneg)
  have z: "round_mag (units (f32_mag x) * units 0) (2 ^ 149) = 0"
    by (simp add: units_def round_mag_def round_raw_def round_shift_def nbits.simps)
  show ?thesis
  proof (cases "f32_neg y")
    case True
    with f32_zero_mag assms(2) have "f32_mag y = 0" by blast
    with True x z assms(2) show ?thesis
      by (simp add: f32_mul_def f32_nonneg_key f32_isinf_def) (simp add: f32_key_def f32_isnan_def)
  next
    case False
    with x r assms(2) show ?thesis
      by (auto simp: f32_mul_def f32_nonneg_mk) (simp add: f32_nonneg_key)
  qed
qed


lemma f32_of_nat_bounds:
  assumes "0 < n" "n < 2 ^ 32"
  shows "f32_isfinite (f32_of_nat n)" "\<not> f32_neg (f32_of_nat n)" "0 < f32_mag (f32_of_nat n)"
proof -
  let ?r = "round_mag (int n * 2 ^ 149) 1"
  have b: "units 0x4F800000 = 2 ^ 32 * 2 ^ 149" "units 0x3F800000 = 1 * 2 ^ 149" by code_simp+
  have "?r \<le> round_mag (2 ^ 32 * 2 ^ 149) 1" using assms(2) by (intro round_mag_mono) simp_all
  then have hi: "?r \<le> 0x4F800000" using round_mag_units [of "0x4F800000"] by (simp only: b(1) [symmetric])
  have "round_mag (1 * 2 ^ 149) 1 \<le> ?r" using assms(1) by (intro round_mag_mono) simp_all
  then have lo: "0x3F800000 \<le> ?r" using round_mag_units [of "0x3F800000"] by (simp only: b(2) [symmetric])
  show "f32_isfinite (f32_of_nat n)" "\<not> f32_neg (f32_of_nat n)" "0 < f32_mag (f32_of_nat n)"
    using hi lo by (simp_all add: f32_of_nat_def f32_isfinite_def)
qed

lemma f32_div_nonneg:
  assumes "f32_nonneg x" "f32_isfinite y" "\<not> f32_neg y" "0 < f32_mag y"
  shows "f32_nonneg (f32_div x y)"
proof -
  have u: "0 < units (f32_mag y)" using units_strict_mono [of 0 "f32_mag y"] assms(4) by (simp add: units_def)
  have r: "0 \<le> round_mag (units (f32_mag x) * 2 ^ 149) (units (f32_mag y))"
    "round_mag (units (f32_mag x) * 2 ^ 149) (units (f32_mag y)) \<le> f32_inf_mag"
    using round_mag_bounds [of "units (f32_mag x) * 2 ^ 149" "units (f32_mag y)"] u by (simp_all add: units_nonneg)
  have z: "round_mag 0 (units (f32_mag y)) = 0" using u by (simp add: round_mag_def round_raw_def round_shift_def nbits.simps)
  show ?thesis
  proof (cases "f32_neg x")
    case True
    with f32_zero_mag assms(1) have m: "f32_mag x = 0" by blast
    then have "units (f32_mag x) = 0" by (simp add: units_def)
    with m True assms z show ?thesis by (simp add: f32_div_def f32_isinf_def f32_isnan_def f32_isfinite_def f32_nonneg_zero_mk)
  next
    case False
    with r assms show ?thesis by (auto simp: f32_div_def f32_nonneg_mk) (simp_all add: f32_nonneg_key)
  qed
qed


section \<open>Progress of sums\<close>

text \<open>The distance of a magnitude pattern to the next one, in units.\<close>

definition f32_gap :: "int \<Rightarrow> int" where
  "f32_gap b = 2 ^ nat (b div 2 ^ 23 - 1)"

lemma units_gap:
  assumes "0 \<le> b"
  shows "units (b + 1) = units b + f32_gap b"
proof (cases "b < 2 ^ 23")
  case True
  then show ?thesis using assms by (simp add: units_small f32_gap_def)
next
  case False
  then have "2 ^ 23 \<le> b" by simp
  then obtain s m where sm: "b = int s * 2 ^ 23 + m" "2 ^ 23 \<le> m" "m < 2 ^ 24" by (rule pattern_split)
  have "m div 2 ^ 23 = 1" using sm(2,3) by simp
  then have "b div 2 ^ 23 - 1 = int s" using sm(1) by simp
  then have "f32_gap b = 2 ^ s" by (simp add: f32_gap_def)
  moreover have "units b = m * 2 ^ s" "units (b + 1) = (m + 1) * 2 ^ s"
    using sm units_normal [of m s] units_normal [of "m + 1" s] by (simp_all add: add.assoc)
  ultimately show ?thesis by (simp add: algebra_simps)
qed

lemma f32_gap_mono: "a \<le> b \<Longrightarrow> f32_gap a \<le> f32_gap b"
  by (auto simp: f32_gap_def intro!: power_increasing nat_mono zdiv_mono1)

lemma f32_gap_pos: "0 < f32_gap b"
  by (simp add: f32_gap_def)

text \<open>A sum of non-negative floats that stays below \<open>c\<close> gains at least half of the summand, if the summand is
  at least the gap at \<open>c\<close>.\<close>

lemma f32_add_gain:
  assumes "f32_isfinite x" "f32_nonneg x" "f32_isfinite y" "f32_gap (f32_key c) \<le> f32_int y"
    and c: "f32_isfinite c" "f32_lt (f32_add x y) c"
  shows "f32_isfinite (f32_add x y)" "f32_nonneg (f32_add x y)" "2 * f32_int x + f32_int y \<le> 2 * f32_int (f32_add x y)"
proof -
  let ?z = "f32_add x y"
  have y: "0 < f32_int y" using assms(4) f32_gap_pos [of "f32_key c"] by linarith
  have x: "0 \<le> f32_int x" using assms(2) by (simp add: f32_int_key f32_nonneg_key signed_units_def units_nonneg)
  have k: "f32_key ?z = round_mag (f32_int x + f32_int y) 1"
    using f32_add_finite [OF assms(1,3)] x y by (simp add: round_key_def)
  then have pos: "0 \<le> f32_key ?z" using round_mag_bounds [of "f32_int x + f32_int y" 1] x y by simp
  have lt: "f32_key ?z < f32_key c" using c(2) by (simp add: f32_lt_def)
  have inf: "f32_key ?z < f32_inf_mag" using lt f32_key_finite [OF c(1)] by simp
  show nn: "f32_nonneg ?z" using pos f32_add_finite [OF assms(1,3)] by (simp add: f32_nonneg_key)
  have "f32_mag ?z = \<bar>f32_key ?z\<bar>" by (simp add: f32_key_def)
  then show "f32_isfinite ?z" using pos inf by (simp add: f32_isfinite_def)
  have "round_raw (f32_int x + f32_int y) 1 = f32_key ?z" using k inf by (simp add: round_mag_def)
  then have "nearest (f32_int x + f32_int y) 1 (f32_key ?z)" using round_raw_nearest [of "f32_int x + f32_int y" 1] x y by simp
  then have "2 * (f32_int x + f32_int y) \<le> units (f32_key ?z) + units (f32_key ?z + 1)" by (auto simp: nearest_def)
  then have "2 * (f32_int x + f32_int y) \<le> 2 * units (f32_key ?z) + f32_gap (f32_key ?z)" using units_gap [OF pos] by simp
  moreover have "f32_gap (f32_key ?z) \<le> f32_int y" using f32_gap_mono [of "f32_key ?z" "f32_key c"] lt assms(4) by simp
  moreover have "f32_int ?z = units (f32_key ?z)" using pos by (simp add: f32_int_key signed_units_def)
  ultimately show "2 * f32_int x + f32_int y \<le> 2 * f32_int ?z" by simp
qed

text \<open>A difference that stays positive loses at least half of the subtrahend, if that is at least the gap at \<open>x\<close>.\<close>

lemma f32_sub_loss:
  assumes "f32_isfinite x" "f32_isfinite y" "f32_nonneg x" "f32_nonneg y" "f32_gap (f32_key x) \<le> f32_int y"
    and pos: "f32_lt f32_zero (f32_sub x y)"
  shows "f32_isfinite (f32_sub x y)" "f32_nonneg (f32_sub x y)" "f32_key (f32_sub x y) \<le> f32_key x"
    "2 * f32_int (f32_sub x y) + f32_int y \<le> 2 * f32_int x"
proof -
  let ?z = "f32_sub x y" and ?d = "f32_int x - f32_int y"
  have k: "f32_key ?z = round_key ?d"
    using f32_add_finite(1) [of x "f32_minus y"] assms(1,2) by (simp add: f32_sub_def f32_int_def [of "f32_minus y"] f32_int_def [of y])
  have zk: "0 < f32_key ?z" using pos by (simp add: f32_lt_def)
  then have d: "0 \<le> ?d" "f32_key ?z = round_mag ?d 1"
    using k round_mag_bounds [of "- ?d" 1] by (auto simp: round_key_def split: if_splits)
  have xk: "0 \<le> f32_key x" "f32_key x < f32_inf_mag" and xi: "f32_int x = units (f32_key x)"
    using assms(1,3) f32_key_finite [OF assms(1)] by (simp_all add: f32_nonneg_key f32_int_key signed_units_def)
  have y: "0 \<le> f32_int y" using assms(5) f32_gap_pos [of "f32_key x"] by linarith
  have n: "nearest ?d 1 (round_raw ?d 1)" by (rule round_raw_nearest) (use d in simp_all)
  have "nearest (units (f32_key x)) 1 (f32_key x)" by (rule nearest_units [OF xk(1)])
  then have le: "round_raw ?d 1 \<le> f32_key x" using nearest_order [OF n] xi y by simp
  then have raw: "round_raw ?d 1 = f32_key ?z" using d(2) xk(2) by (simp add: round_mag_def)
  show kle: "f32_key ?z \<le> f32_key x" using le raw by simp
  show nn: "f32_nonneg ?z" using zk pos by (simp add: f32_nonneg_key f32_lt_def)
  have "f32_mag ?z = \<bar>f32_key ?z\<bar>" by (simp add: f32_key_def)
  then show "f32_isfinite ?z" using zk kle xk(2) by (simp add: f32_isfinite_def)
  have zi: "f32_int ?z = units (f32_key ?z)" using zk by (simp add: f32_int_key signed_units_def)
  have "units (f32_key ?z - 1) + units (f32_key ?z) \<le> 2 * ?d" using n raw zk by (auto simp: nearest_def)
  moreover have "units (f32_key ?z) = units (f32_key ?z - 1) + f32_gap (f32_key ?z - 1)"
    using units_gap [of "f32_key ?z - 1"] zk by simp
  moreover have "f32_gap (f32_key ?z - 1) \<le> f32_gap (f32_key x)" by (rule f32_gap_mono) (use kle in simp)
  ultimately show "2 * f32_int ?z + f32_int y \<le> 2 * f32_int x" unfolding zi using assms(5) by simp
qed

end
