(* ===== verification/Byte_Order.thy ===== *)
theory Byte_Order
  imports Float32
begin

text \<open>
  The little-endian byte helpers of the wire and trace formats: \<open>put_u16\<close> to \<open>get_f32\<close> of
  src/comms/udp_wire.cpp, \<open>put_u64_le\<close> of src/core/binary_trace_sink.cpp, \<open>load_le32\<close> and
  \<open>store_le32\<close> of src/identity/chacha20.cpp and \<open>read_u32_le\<close> of
  src/behaviour/builtin_action_handlers.cpp.  A writer returns the bytes it stores at its pointer;
  a reader takes the bytes at its pointer.  The lemmas are the round trips in both directions.
\<close>

definition put_u16 :: "u16 \<Rightarrow> byte list" where
  "put_u16 v = [byte_at 0 v, byte_at 1 v]"

definition put_u32 :: "u32 \<Rightarrow> byte list" where
  "put_u32 v = [byte_at 0 v, byte_at 1 v, byte_at 2 v, byte_at 3 v]"

definition put_f32 :: "f32 \<Rightarrow> byte list" where
  "put_f32 v = put_u32 v"

definition get_u16 :: "byte list \<Rightarrow> u16" where
  "get_u16 p = byte_to 0 (p ! 0) OR byte_to 1 (p ! 1)"

definition get_u32 :: "byte list \<Rightarrow> u32" where
  "get_u32 p = byte_to 0 (p ! 0) OR byte_to 1 (p ! 1) OR byte_to 2 (p ! 2) OR byte_to 3 (p ! 3)"

definition get_f32 :: "byte list \<Rightarrow> f32" where
  "get_f32 p = get_u32 p"

text \<open>The loop \<open>for i < 8: p[i] = (v >> (i * 8)) & 0xFF\<close>.\<close>

definition put_u64_le :: "u64 \<Rightarrow> byte list" where
  "put_u64_le v = map (\<lambda>i. byte_at i v) [0..<8]"

definition get_u64_le :: "byte list \<Rightarrow> u64" where
  "get_u64_le p = foldr (\<lambda>i acc. byte_to i (p ! i) OR acc) [0..<8] 0"

definition load_le32 :: "byte list \<Rightarrow> u32" where
  "load_le32 p = byte_to 0 (p ! 0) OR byte_to 1 (p ! 1) OR byte_to 2 (p ! 2) OR byte_to 3 (p ! 3)"

definition store_le32 :: "u32 \<Rightarrow> byte list" where
  "store_le32 v = [ucast v, ucast (drop_bit 8 v), ucast (drop_bit 16 v), ucast (drop_bit 24 v)]"

definition read_u32_le :: "byte list \<Rightarrow> u32" where
  "read_u32_le p = byte_to 0 (p ! 0) OR byte_to 1 (p ! 1) OR byte_to 2 (p ! 2) OR byte_to 3 (p ! 3)"

definition read_f32_le :: "byte list \<Rightarrow> f32" where
  "read_f32_le p = read_u32_le p"

lemma length_put [simp, byte_simps]:
  "length (put_u16 a) = 2" "length (put_u32 b) = 4" "length (put_f32 c) = 4" "length (put_u64_le d) = 8"
  "length (store_le32 b) = 4"
  by (simp_all add: put_u16_def put_u32_def put_f32_def put_u64_le_def store_le32_def)

lemma get_put_u16 [simp, byte_simps]: "get_u16 (put_u16 v @ xs) = v"
proof (rule bit_word_eqI)
  fix n assume "n < LENGTH(16)"
  then show "bit (get_u16 (put_u16 v @ xs)) n = bit v n"
    by (cases "n < 8") (auto simp: get_u16_def put_u16_def bit_or_iff bit_byte_to bit_byte_at dest: bit_imp_le_length)
qed

lemma bytes4_join:
  fixes v :: u32
  shows "byte_to 0 (byte_at 0 v) OR byte_to 1 (byte_at 1 v) OR byte_to 2 (byte_at 2 v) OR byte_to 3 (byte_at 3 v) = v"
  (is "?w = v")
proof (rule bit_word_eqI)
  fix n assume n: "n < LENGTH(32)"
  consider "n < 8" | "8 \<le> n" "n < 16" | "16 \<le> n" "n < 24" | "24 \<le> n" by linarith
  then show "bit ?w n = bit v n"
    using n by cases (auto simp: bit_or_iff bit_byte_to bit_byte_at)
qed

lemma get_put_u32 [simp, byte_simps]: "get_u32 (put_u32 v @ xs) = v"
  using bytes4_join [of v] by (simp add: get_u32_def put_u32_def numeral_2_eq_2 numeral_3_eq_3)

lemma get_put_f32 [simp, byte_simps]: "get_f32 (put_f32 v @ xs) = v"
  by (simp add: get_f32_def put_f32_def)

lemma store_le32_put: "store_le32 v = put_u32 v"
proof -
  have "ucast (drop_bit k v AND 0xFF) = (ucast (drop_bit k v) :: byte)" for k
  proof -
    have mask: "(0xFF :: u32) = mask 8" by (simp add: mask_eq_exp_minus_1)
    show ?thesis unfolding mask by (rule bit_word_eqI) (auto simp: bit_simps)
  qed
  from this [of 0] this [of 8] this [of 16] this [of 24] show ?thesis
    by (simp add: store_le32_def put_u32_def byte_at_def)
qed

lemma load_le32_get: "load_le32 p = get_u32 p"
  by (simp add: load_le32_def get_u32_def)

lemma read_u32_le_get: "read_u32_le p = get_u32 p"
  by (simp add: read_u32_le_def get_u32_def)

text \<open>Reading and writing back gives the bytes again.\<close>

lemma byte_at_or: "byte_at i (a OR b) = byte_at i a OR byte_at i b"
  by (rule bit_word_eqI) (auto simp: bit_byte_at bit_or_iff)

lemma byte_at_byte_to:
  "8 * i + 8 \<le> LENGTH('a) \<Longrightarrow> byte_at i (byte_to j b :: 'a::len word) = (if i = j then b else 0)"
proof (rule bit_word_eqI)
  fix n assume "8 * i + 8 \<le> LENGTH('a)" "n < LENGTH(8)"
  then show "bit (byte_at i (byte_to j b :: 'a word)) n = bit (if i = j then b else 0) n"
    by (cases "j < i") (auto simp: bit_byte_at bit_byte_to dest: bit_imp_le_length)
qed

lemma put_get_u16: "put_u16 (get_u16 [a, b]) = [a, b]"
  by (simp add: put_u16_def get_u16_def byte_at_or byte_at_byte_to)

lemma put_get_u32: "put_u32 (get_u32 [a, b, c, d]) = [a, b, c, d]"
  by (simp add: put_u32_def get_u32_def byte_at_or byte_at_byte_to numeral_2_eq_2 numeral_3_eq_3)

lemma put_u16_inj: "put_u16 a = put_u16 b \<longleftrightarrow> a = b"
  by (metis append_Nil2 get_put_u16)

lemma put_u32_inj: "put_u32 a = put_u32 b \<longleftrightarrow> a = b"
  by (metis append_Nil2 get_put_u32)

lemma bit_foldr_or:
  "bit (foldr (\<lambda>i acc. f i OR acc) is (0 :: 'a::len word)) n \<longleftrightarrow> (\<exists>i \<in> set is. bit (f i) n)"
  by (induction "is") (auto simp: bit_or_iff)

lemma get_put_u64 [byte_simps]: "get_u64_le (put_u64_le v @ xs) = v"
proof (rule bit_word_eqI)
  have eq: "get_u64_le (put_u64_le v @ xs) = foldr (\<lambda>i acc. byte_to i (byte_at i v) OR acc) [0..<8] 0"
    unfolding get_u64_le_def put_u64_le_def by (rule foldr_cong) (auto simp: nth_append)
  fix n assume n: "n < LENGTH(64)"
  then have dm: "n div 8 \<in> set [0..<8]" "8 * (n div 8) \<le> n" "n - 8 * (n div 8) < 8"
    "8 * (n div 8) + (n - 8 * (n div 8)) = n" by auto
  then have "bit v n \<Longrightarrow> bit (byte_to (n div 8) (byte_at (n div 8) v) :: u64) n"
    using n by (simp only: bit_byte_to bit_byte_at)
  moreover have "bit (byte_to i (byte_at i v) :: u64) n \<Longrightarrow> bit v n" for i
    by (auto simp: bit_byte_to bit_byte_at)
  ultimately show "bit (get_u64_le (put_u64_le v @ xs)) n = bit v n"
    unfolding eq bit_foldr_or using dm(1) by blast
qed

end
