(* ===== verification/Chacha20.thy ===== *)
theory Chacha20
  imports Byte_Order
begin

text \<open>
  The random number generator of the identity layer (src/identity/chacha20.cpp): the ChaCha20 block
  function and the class \<open>ChaCha20Csprng\<close> with its cached block.  The results: a quarter-round, and
  with it the twenty rounds on the working state, can be inverted, so no two inputs collide before
  the final addition; and any sequence of \<open>fill\<close> calls hands out consecutive pieces of one keystream,
  whatever the sizes of the requests.
\<close>

section \<open>The block function\<close>

definition CHACHA_CONST :: "u32 list" where
  "CHACHA_CONST = [0x61707865, 0x3320646e, 0x79622d32, 0x6b206574]"

definition rotl32 :: "u32 \<Rightarrow> nat \<Rightarrow> u32" where
  "rotl32 x n = push_bit n x OR drop_bit (32 - n) x"

definition quarter_round :: "u32 \<times> u32 \<times> u32 \<times> u32 \<Rightarrow> u32 \<times> u32 \<times> u32 \<times> u32" where
  "quarter_round q =
     (let (a, b, c, d) = q;
          a = a + b; d = d XOR a; d = rotl32 d 16;
          c = c + d; b = b XOR c; b = rotl32 b 12;
          a = a + b; d = d XOR a; d = rotl32 d 8;
          c = c + d; b = b XOR c; b = rotl32 b 7
      in (a, b, c, d))"

text \<open>The call \<open>quarter_round(w[i], w[j], w[k], w[l])\<close> updates the four words in place.\<close>

definition quarter_round_at :: "nat \<Rightarrow> nat \<Rightarrow> nat \<Rightarrow> nat \<Rightarrow> u32 list \<Rightarrow> u32 list" where
  "quarter_round_at i j k l w =
     (case quarter_round (w ! i, w ! j, w ! k, w ! l) of (a, b, c, d) \<Rightarrow> w[i := a, j := b, k := c, l := d])"

definition double_round :: "u32 list \<Rightarrow> u32 list" where
  "double_round w =
     (let w = quarter_round_at 0 4 8 12 w; w = quarter_round_at 1 5 9 13 w;
          w = quarter_round_at 2 6 10 14 w; w = quarter_round_at 3 7 11 15 w;
          w = quarter_round_at 0 5 10 15 w; w = quarter_round_at 1 6 11 12 w;
          w = quarter_round_at 2 7 8 13 w
      in quarter_round_at 3 4 9 14 w)"

definition chacha20_state :: "byte list \<Rightarrow> u32 \<Rightarrow> byte list \<Rightarrow> u32 list" where
  "chacha20_state key counter nonce =
     CHACHA_CONST @ map (\<lambda>i. load_le32 (drop (i * 4) key)) [0..<8]
     @ [counter, load_le32 nonce, load_le32 (drop 4 nonce), load_le32 (drop 8 nonce)]"

definition chacha20_block :: "byte list \<Rightarrow> u32 \<Rightarrow> byte list \<Rightarrow> byte list" where
  "chacha20_block key counter nonce =
     (let s = chacha20_state key counter nonce;
          w = (double_round ^^ 10) s
      in concat (map (\<lambda>i. store_le32 (w ! i + s ! i)) [0..<16]))"

section \<open>The generator\<close>

record csprng =
  cs_key :: "byte list"
  cs_nonce :: "byte list"
  cs_counter :: u32
  cs_block :: "byte list"
  cs_block_offset :: nat

definition csprng_init :: "byte list \<Rightarrow> byte list \<Rightarrow> csprng" where
  "csprng_init key nonce =
     \<lparr>cs_key = take 32 key, cs_nonce = take 12 nonce, cs_counter = 0, cs_block = replicate 64 0, cs_block_offset = 64\<rparr>"

text \<open>The default constructor: \<open>rd k\<close> is the k-th value of \<open>std::random_device\<close>.\<close>

definition csprng_seed :: "(nat \<Rightarrow> u32) \<Rightarrow> csprng" where
  "csprng_seed rd =
     csprng_init (map (\<lambda>k. ucast (rd k AND 0xFF)) [0..<32]) (map (\<lambda>k. ucast (rd (32 + k) AND 0xFF)) [0..<12])"

definition csprng_refill :: "csprng \<Rightarrow> csprng" where
  "csprng_refill s =
     (if 64 \<le> cs_block_offset s
      then s\<lparr>cs_block := chacha20_block (cs_key s) (cs_counter s) (cs_nonce s),
             cs_counter := cs_counter s + 1, cs_block_offset := 0\<rparr>
      else s)"

lemma csprng_refill_offset: "cs_block_offset (csprng_refill s) < 64"
  by (simp add: csprng_refill_def)

function csprng_fill :: "nat \<Rightarrow> csprng \<Rightarrow> byte list \<times> csprng" where
  "csprng_fill n s =
     (if n = 0 then ([], s)
      else
        let s1 = csprng_refill s;
            k = min n (64 - cs_block_offset s1);
            out = take k (drop (cs_block_offset s1) (cs_block s1));
            (rest, s2) = csprng_fill (n - k) (s1\<lparr>cs_block_offset := cs_block_offset s1 + k\<rparr>)
        in (out @ rest, s2))"
  by pat_completeness auto

termination
  by (relation "measure fst") (use csprng_refill_offset in \<open>auto simp: not_less\<close>)

declare csprng_fill.simps [simp del]

text \<open>A sequence of requests, as the callers of \<open>randombytes\<close> on one thread make them.\<close>

fun csprng_fills :: "nat list \<Rightarrow> csprng \<Rightarrow> byte list list \<times> csprng" where
  "csprng_fills [] s = ([], s)"
| "csprng_fills (n # ns) s =
     (let (out, s1) = csprng_fill n s; (outs, s2) = csprng_fills ns s1 in (out # outs, s2))"

section \<open>The rounds are invertible\<close>

definition rotr32 :: "u32 \<Rightarrow> nat \<Rightarrow> u32" where
  "rotr32 x n = rotl32 x (32 - n)"

lemma rotr_rotl: "0 < n \<Longrightarrow> n < 32 \<Longrightarrow> rotr32 (rotl32 x n) n = x"
  by (rule bit_word_eqI) (auto simp: rotr32_def rotl32_def bit_simps dest: bit_imp_le_length)

definition quarter_round_inv :: "u32 \<times> u32 \<times> u32 \<times> u32 \<Rightarrow> u32 \<times> u32 \<times> u32 \<times> u32" where
  "quarter_round_inv q =
     (let (a, b, c, d) = q;
          b = rotr32 b 7; b = b XOR c; c = c - d; d = rotr32 d 8; d = d XOR a; a = a - b;
          b = rotr32 b 12; b = b XOR c; c = c - d; d = rotr32 d 16; d = d XOR a; a = a - b
      in (a, b, c, d))"

lemma quarter_round_inv: "quarter_round_inv (quarter_round q) = q"
  by (cases q) (simp add: quarter_round_inv_def quarter_round_def Let_def rotr_rotl xor.assoc)

lemma quarter_round_at_length [simp]: "length (quarter_round_at i j k l w) = length w"
  by (simp add: quarter_round_at_def split: prod.split)

lemma quarter_round_at_inj:
  assumes "distinct [i, j, k, l]" "\<forall>x \<in> {i, j, k, l}. x < length v" "length v = length w"
    and eq: "quarter_round_at i j k l v = quarter_round_at i j k l w"
  shows "v = w"
proof (rule nth_equalityI)
  fix n assume "n < length v"
  obtain a b c d where v: "quarter_round (v ! i, v ! j, v ! k, v ! l) = (a, b, c, d)" by (cases rule: prod_cases4)
  obtain a' b' c' d' where w: "quarter_round (w ! i, w ! j, w ! k, w ! l) = (a', b', c', d')" by (cases rule: prod_cases4)
  have e: "v[i := a, j := b, k := c, l := d] ! m = w[i := a', j := b', k := c', l := d'] ! m" for m
    using eq v w by (simp add: quarter_round_at_def)
  have "(a, b, c, d) = (a', b', c', d')"
    using e [of i] e [of j] e [of k] e [of l] assms(1-3) by (simp add: nth_list_update)
  then have "quarter_round (v ! i, v ! j, v ! k, v ! l) = quarter_round (w ! i, w ! j, w ! k, w ! l)"
    using v w by simp
  then have "(v ! i, v ! j, v ! k, v ! l) = (w ! i, w ! j, w ! k, w ! l)" by (metis quarter_round_inv)
  then show "v ! n = w ! n"
    using e [of n] assms(3) by (cases "n \<in> {i, j, k, l}") (auto simp: nth_list_update)
qed (rule assms(3))

lemma double_round_length [simp]: "length (double_round w) = length w"
  by (simp add: double_round_def Let_def)

lemma double_round_inj: "length v = 16 \<Longrightarrow> length w = 16 \<Longrightarrow> double_round v = double_round w \<Longrightarrow> v = w"
  unfolding double_round_def Let_def by (drule quarter_round_at_inj [rotated -1], simp, simp, simp)+ assumption

lemma rounds_length [simp]: "length ((double_round ^^ n) w) = length w"
  by (induction n) simp_all

lemma rounds_inj: "length v = 16 \<Longrightarrow> length w = 16 \<Longrightarrow> (double_round ^^ n) v = (double_round ^^ n) w \<Longrightarrow> v = w"
  by (induction n) (auto dest: double_round_inj [rotated 2])

lemma chacha20_state_length [simp]: "length (chacha20_state key counter nonce) = 16"
  by (simp add: chacha20_state_def CHACHA_CONST_def)

lemma chacha20_block_length [simp]: "length (chacha20_block key counter nonce) = 64"
  by (simp add: chacha20_block_def Let_def length_concat o_def sum_list_triv)

lemma chacha20_state_counter: "chacha20_state key counter nonce ! 12 = counter"
  by (simp add: chacha20_state_def CHACHA_CONST_def nth_append)

text \<open>
  The twenty rounds of the block function lose nothing: if the working states of two blocks
  of one generator agree after the rounds, the blocks have the same counter.  Equal keystream
  blocks at two counters can therefore only come from the final addition of the input.
\<close>

theorem chacha20_rounds_separate_counters:
  "(double_round ^^ n) (chacha20_state key c1 nonce) = (double_round ^^ n) (chacha20_state key c2 nonce)
   \<longleftrightarrow> c1 = c2"
  by (metis chacha20_state_counter chacha20_state_length rounds_inj)

section \<open>The generator hands out one keystream\<close>

definition keystream :: "byte list \<Rightarrow> byte list \<Rightarrow> nat \<Rightarrow> byte" where
  "keystream key nonce p = chacha20_block key (of_nat (p div 64)) nonce ! (p mod 64)"

text \<open>\<open>csprng_at s p\<close>: the generator has handed out \<open>p\<close> bytes.\<close>

definition csprng_at :: "csprng \<Rightarrow> nat \<Rightarrow> bool" where
  "csprng_at s p \<longleftrightarrow>
     cs_block_offset s \<le> 64 \<and> p mod 64 = cs_block_offset s mod 64
     \<and> cs_counter s = (if cs_block_offset s < 64 then of_nat (p div 64) + 1 else of_nat (p div 64))
     \<and> (cs_block_offset s < 64 \<longrightarrow> cs_block s = chacha20_block (cs_key s) (of_nat (p div 64)) (cs_nonce s))"

lemma csprng_at_init: "csprng_at (csprng_init key nonce) 0"
  by (simp add: csprng_at_def csprng_init_def)

lemma csprng_at_refill: "csprng_at s p \<Longrightarrow> csprng_at (csprng_refill s) p"
  by (auto simp: csprng_at_def csprng_refill_def)

lemma csprng_refill_fixed [simp]:
  "cs_key (csprng_refill s) = cs_key s" "cs_nonce (csprng_refill s) = cs_nonce s"
  by (simp_all add: csprng_refill_def)

lemma mod_div_add_within: "p mod 64 + i < 64 \<Longrightarrow> (p + i) mod 64 = p mod 64 + i \<and> (p + i) div 64 = p div 64" for p i :: nat
  using mod_less [of "p mod 64 + i" 64] div_add1_eq [of p i 64] mod_add_left_eq [of p 64 i] by simp

lemma mod_div_add_to: "p mod 64 + k = 64 \<Longrightarrow> (p + k) mod 64 = 0 \<and> (p + k) div 64 = p div 64 + 1" for p k :: nat
proof -
  assume "p mod 64 + k = 64"
  then have "64 * (p div 64) + p mod 64 + k = 64 * (p div 64 + 1)" by (simp only: add.assoc distrib_left mult_1_right)
  then have "p + k = 64 * (p div 64 + 1)" by (simp only: mult_div_mod_eq)
  then show ?thesis by simp
qed

lemma csprng_at_step:
  assumes "csprng_at s p" "cs_block_offset s < 64" "k \<le> 64 - cs_block_offset s"
  shows "csprng_at (s\<lparr>cs_block_offset := cs_block_offset s + k\<rparr>) (p + k)"
    and "take k (drop (cs_block_offset s) (cs_block s)) = map (keystream (cs_key s) (cs_nonce s)) [p..<p + k]"
proof -
  from assms have off: "p mod 64 = cs_block_offset s" by (simp add: csprng_at_def)
  have dm: "(p + i) mod 64 = cs_block_offset s + i \<and> (p + i) div 64 = p div 64" if "cs_block_offset s + i < 64" for i
    using that unfolding off [symmetric] by (rule mod_div_add_within)
  have last: "(p + k) mod 64 = 0 \<and> (p + k) div 64 = p div 64 + 1" if "cs_block_offset s + k = 64"
    using that unfolding off [symmetric] by (rule mod_div_add_to)
  show "csprng_at (s\<lparr>cs_block_offset := cs_block_offset s + k\<rparr>) (p + k)"
  proof (cases "cs_block_offset s + k < 64")
    case True
    with dm [of k] assms show ?thesis by (simp add: csprng_at_def)
  next
    case False
    with assms have "cs_block_offset s + k = 64" by linarith
    with last assms show ?thesis by (simp add: csprng_at_def)
  qed
  have "cs_block s = chacha20_block (cs_key s) (of_nat (p div 64)) (cs_nonce s)"
    using assms by (simp add: csprng_at_def)
  then show "take k (drop (cs_block_offset s) (cs_block s)) = map (keystream (cs_key s) (cs_nonce s)) [p..<p + k]"
    using assms(3) dm by (intro nth_equalityI) (auto simp: keystream_def)
qed

lemma csprng_fill_stream:
  assumes "csprng_at s p"
  obtains s' where "csprng_fill n s = (map (keystream (cs_key s) (cs_nonce s)) [p..<p + n], s')"
    "csprng_at s' (p + n)" "cs_key s' = cs_key s" "cs_nonce s' = cs_nonce s"
  using assms
proof (induction n s arbitrary: p thesis rule: csprng_fill.induct)
  case (1 n s)
  show ?case
  proof (cases "n = 0")
    case True
    with 1 show ?thesis by (simp add: csprng_fill.simps)
  next
    case False
    define s1 where "s1 = csprng_refill s"
    define k where "k = min n (64 - cs_block_offset s1)"
    have off: "cs_block_offset s1 < 64" by (simp add: s1_def csprng_refill_offset)
    have at: "csprng_at s1 p" unfolding s1_def by (rule csprng_at_refill) (rule 1)
    note step = csprng_at_step [OF at off, of k]
    obtain s' where s': "csprng_fill (n - k) (s1\<lparr>cs_block_offset := cs_block_offset s1 + k\<rparr>) =
        (map (keystream (cs_key s) (cs_nonce s)) [p + k..<p + k + (n - k)], s')"
      "csprng_at s' (p + k + (n - k))" "cs_key s' = cs_key s" "cs_nonce s' = cs_nonce s"
      using 1(1) [OF False s1_def k_def refl, of "p + k"] step(1)
      by (auto simp: k_def s1_def split: if_splits)
    have "k \<le> n" by (simp add: k_def)
    then have "[p..<p + n] = [p..<p + k] @ [p + k..<p + n]"
      using upt_add_eq_append [of p "p + k" "n - k"] by simp
    moreover have "cs_key s1 = cs_key s" "cs_nonce s1 = cs_nonce s" by (simp_all add: s1_def)
    moreover have "k \<le> 64 - cs_block_offset s1" by (simp add: k_def)
    ultimately have "csprng_fill n s = (map (keystream (cs_key s) (cs_nonce s)) [p..<p + n], s')"
      unfolding csprng_fill.simps [of n s] s1_def [symmetric] Let_def k_def [symmetric]
      using False s' step(2) \<open>k \<le> n\<close> by simp
    with s' \<open>k \<le> n\<close> show ?thesis by (intro 1(2) [of s']) simp_all
  qed
qed

lemma csprng_fills_stream:
  assumes "csprng_at s p"
  shows "concat (fst (csprng_fills ns s)) = map (keystream (cs_key s) (cs_nonce s)) [p..<p + sum_list ns]
    \<and> map length (fst (csprng_fills ns s)) = ns"
  using assms
proof (induction ns arbitrary: s p)
  case (Cons n ns)
  obtain s' where s': "csprng_fill n s = (map (keystream (cs_key s) (cs_nonce s)) [p..<p + n], s')"
    "csprng_at s' (p + n)" "cs_key s' = cs_key s" "cs_nonce s' = cs_nonce s"
    using Cons.prems by (rule csprng_fill_stream)
  have "[p..<p + (n + sum_list ns)] = [p..<p + n] @ [p + n..<p + n + sum_list ns]"
    using upt_add_eq_append [of p "p + n" "sum_list ns"] by (simp add: add.assoc)
  with Cons.IH [OF s'(2)] s' show ?case by (simp add: split_beta Let_def)
qed simp

text \<open>
  The output of a seeded generator does not depend on how the requests are cut: the results
  of any sequence of \<open>fill\<close> calls have the requested lengths, and concatenated they are the first
  bytes of the keystream made of the blocks with counters 0, 1, 2, and so on.  No keystream byte is
  handed out twice and none is skipped, also where a request straddles a block boundary.
\<close>

theorem csprng_requests_consecutive:
  "map length (fst (csprng_fills ns (csprng_init key nonce))) = ns
   \<and> concat (fst (csprng_fills ns (csprng_init key nonce))) =
       map (keystream (take 32 key) (take 12 nonce)) [0..<sum_list ns]"
  using csprng_fills_stream [OF csprng_at_init, of ns key nonce] by (simp add: csprng_init_def)

text \<open>The test vector of RFC 8439, section 2.1.1.\<close>

lemma quarter_round_rfc_vector:
  "quarter_round (0x11111111, 0x01020304, 0x9b8d6f43, 0x01234567) = (0xea2a92f4, 0xcb1cf8ce, 0x4581472e, 0x5881c4bb)"
  by code_simp

end
