(* ===== verification/Identity_Ids.thy ===== *)
theory Identity_Ids
  imports Byte_Order "HOL-Library.List_Lexorder"
begin

text \<open>
  Identities: \<open>UUID\<close> (include/mith/identity/uuid.h, src/identity/uuid.cpp), \<open>HierarchicalID\<close>
  (include/mith/identity/hierarchical_id.h, src/identity/hierarchical_id.cpp) and the payload of an
  identity certificate (src/identity/identity_rotation.cpp).

  A UUID is its byte array; \<open>uuid_wf\<close> says that there are 16.  Both identity types are linear orders
  in the library's sense, shown equal to the comparison loops of the source.  The main results are
  the round trips of the two string forms, the version and variant bits of a generated UUID, and
  that a certificate payload determines the three things it binds.
\<close>

section \<open>UUID\<close>

datatype uuid = UUID (uuid_bytes: "byte list")

definition uuid_wf :: "uuid \<Rightarrow> bool" where
  "uuid_wf u \<longleftrightarrow> length (uuid_bytes u) = 16"

definition uuid_nil :: uuid where
  "uuid_nil = UUID (replicate 16 0)"

definition is_nil :: "uuid \<Rightarrow> bool" where
  "is_nil u \<longleftrightarrow> (\<forall>b \<in> set (uuid_bytes u). b = 0)"

definition uuid_version :: "uuid \<Rightarrow> u8" where
  "uuid_version u = drop_bit 4 (uuid_bytes u ! 6 AND 0xF0)"

fun bytes_less :: "byte list \<Rightarrow> byte list \<Rightarrow> bool" where
  "bytes_less (a # as) (b # bs) = (if a \<noteq> b then a < b else bytes_less as bs)"
| "bytes_less _ _ = False"

definition uuid_less :: "uuid \<Rightarrow> uuid \<Rightarrow> bool" where
  "uuid_less a b = bytes_less (uuid_bytes a) (uuid_bytes b)"

definition hex_char :: "byte \<Rightarrow> char" where
  "hex_char nibble =
     (if nibble < 10 then char_of (48 + uint nibble) else char_of (97 + (uint nibble - 10)))"

definition hex_value :: "char \<Rightarrow> int" where
  "hex_value c =
     (let k = of_char c in
      if 48 \<le> k \<and> k \<le> 57 then k - 48
      else if 97 \<le> k \<and> k \<le> 102 then k - 97 + 10
      else if 65 \<le> k \<and> k \<le> 70 then k - 65 + 10
      else - 1)"

definition uuid_offsets :: "nat list" where
  "uuid_offsets = [0, 2, 4, 6, 9, 11, 14, 16, 19, 21, 24, 26, 28, 30, 32, 34]"

definition write_byte :: "nat \<Rightarrow> byte \<Rightarrow> string \<Rightarrow> string" where
  "write_byte out_idx b s = (s[out_idx := hex_char (drop_bit 4 b)])[out_idx + 1 := hex_char (b AND 0x0F)]"

definition uuid_to_string :: "uuid \<Rightarrow> string" where
  "uuid_to_string u =
     (let s = fold (\<lambda>i s. write_byte (uuid_offsets ! i) (uuid_bytes u ! i) s) [0..<16]
                (replicate 36 (CHR 0x00))
      in s[8 := CHR ''-'', 13 := CHR ''-'', 18 := CHR ''-'', 23 := CHR ''-''])"

text \<open>The parsing loop: byte \<open>i\<close> from the two characters at \<open>offsets[i]\<close>, or failure.\<close>

fun parse_hex_bytes :: "string \<Rightarrow> nat list \<Rightarrow> byte list option" where
  "parse_hex_bytes s [] = Some []"
| "parse_hex_bytes s (off # offs) =
     (let hi = hex_value (s ! off); lo = hex_value (s ! (off + 1)) in
      if hi < 0 \<or> lo < 0 then None
      else map_option (\<lambda>bs. word_of_int (push_bit 4 hi OR lo) # bs) (parse_hex_bytes s offs))"

definition uuid_from_string :: "string \<Rightarrow> uuid option" where
  "uuid_from_string s =
     (if length s \<noteq> 36 then None
      else if s ! 8 \<noteq> CHR ''-'' \<or> s ! 13 \<noteq> CHR ''-'' \<or> s ! 18 \<noteq> CHR ''-'' \<or> s ! 23 \<noteq> CHR ''-'' then None
      else map_option UUID (parse_hex_bytes s uuid_offsets))"

text \<open>\<open>UUID::generate\<close>: the entropy source is a parameter, \<open>rd k\<close> the value of the k-th call of
  \<open>std::random_device\<close> (an \<open>unsigned int\<close>, copied to memory little-endian).\<close>

definition uuid_generate :: "(nat \<Rightarrow> u32) \<Rightarrow> uuid" where
  "uuid_generate rd =
     (let b = take 16 (concat (map (\<lambda>k. put_u32 (rd k)) [0..<4])) in
      UUID (b[6 := (b ! 6 AND 0x0F) OR 0x40, 8 := (b ! 8 AND 0x3F) OR 0x80]))"

definition hash_mix :: "u64 \<Rightarrow> u64 \<Rightarrow> u64" where
  "hash_mix result chunk = result XOR (chunk + 0x9e3779b97f4a7c15 + push_bit 6 result + drop_bit 2 result)"

definition uuid_hash :: "uuid \<Rightarrow> u64" where
  "uuid_hash u = fold (\<lambda>i result. hash_mix result (get_u64_le (drop i (uuid_bytes u)))) [0, 8] 0"

section \<open>HierarchicalID\<close>

datatype hid = HID (hid_swarm: u16) (hid_unit: uuid)

definition hid_wf :: "hid \<Rightarrow> bool" where
  "hid_wf h \<longleftrightarrow> uuid_wf (hid_unit h)"

definition hid_default :: hid where
  "hid_default = HID 0 uuid_nil"

definition hid_less :: "hid \<Rightarrow> hid \<Rightarrow> bool" where
  "hid_less a b =
     (if hid_swarm a \<noteq> hid_swarm b then hid_swarm a < hid_swarm b
      else uuid_less (hid_unit a) (hid_unit b))"

definition hid_generate :: "u16 \<Rightarrow> (nat \<Rightarrow> u32) \<Rightarrow> hid" where
  "hid_generate swarm rd = HID swarm (uuid_generate rd)"

definition hid_to_string :: "hid \<Rightarrow> string" where
  "hid_to_string h =
     (let sid = hid_swarm h in
      [hex_char (ucast (drop_bit 12 sid AND 0xF)), hex_char (ucast (drop_bit 8 sid AND 0xF)),
       hex_char (ucast (drop_bit 4 sid AND 0xF)), hex_char (ucast (sid AND 0xF)), CHR '':'']
      @ uuid_to_string (hid_unit h))"

fun parse_swarm :: "string \<Rightarrow> u16 \<Rightarrow> u16 option" where
  "parse_swarm [] sid = Some sid"
| "parse_swarm (c # cs) sid =
     (let v = hex_value c in
      if v < 0 then None else parse_swarm cs (push_bit 4 sid OR word_of_int v))"

definition hid_from_string :: "string \<Rightarrow> hid option" where
  "hid_from_string s =
     (if length s \<noteq> 41 then None
      else if s ! 4 \<noteq> CHR '':'' then None
      else case parse_swarm (take 4 s) 0 of
        None \<Rightarrow> None
      | Some sid \<Rightarrow>
          (case uuid_from_string (drop 5 s) of
             None \<Rightarrow> None
           | Some u \<Rightarrow> Some (HID sid u)))"

definition hid_hash :: "hid \<Rightarrow> u64" where
  "hid_hash h =
     (let uuid_hash = uuid_hash (hid_unit h); swarm_hash = ucast (hid_swarm h)
      in uuid_hash XOR (swarm_hash + 0x9e3779b97f4a7c15 + push_bit 6 uuid_hash + drop_bit 2 uuid_hash))"

section \<open>Certificate payload\<close>

definition IDENTITY_CERT_PAYLOAD_LEN :: nat where
  "IDENTITY_CERT_PAYLOAD_LEN = 2 + 16 + 2 + 16 + 32"

definition serialise_cert_payload :: "hid \<Rightarrow> hid \<Rightarrow> byte list \<Rightarrow> byte list" where
  "serialise_cert_payload prev_id new_id new_key =
     [byte_at 0 (hid_swarm prev_id), byte_at 1 (hid_swarm prev_id)]
     @ take 16 (uuid_bytes (hid_unit prev_id))
     @ [byte_at 0 (hid_swarm new_id), byte_at 1 (hid_swarm new_id)]
     @ take 16 (uuid_bytes (hid_unit new_id))
     @ take 32 new_key"

section \<open>Linear orders\<close>

lemma bytes_less_lex: "length as = length bs \<Longrightarrow> bytes_less as bs \<longleftrightarrow> as < bs"
  by (induction as bs rule: bytes_less.induct) (auto simp: Cons_less_Cons)

instantiation uuid :: linorder
begin

definition less_uuid :: "uuid \<Rightarrow> uuid \<Rightarrow> bool" where
  "less_uuid a b \<longleftrightarrow> uuid_bytes a < uuid_bytes b"

definition less_eq_uuid :: "uuid \<Rightarrow> uuid \<Rightarrow> bool" where
  "less_eq_uuid a b \<longleftrightarrow> uuid_bytes a \<le> uuid_bytes b"

instance
  by standard (auto simp: less_uuid_def less_eq_uuid_def uuid.expand)

end

instantiation hid :: linorder
begin

definition less_hid :: "hid \<Rightarrow> hid \<Rightarrow> bool" where
  "less_hid a b \<longleftrightarrow> hid_swarm a < hid_swarm b \<or> (hid_swarm a = hid_swarm b \<and> hid_unit a < hid_unit b)"

definition less_eq_hid :: "hid \<Rightarrow> hid \<Rightarrow> bool" where
  "less_eq_hid a b \<longleftrightarrow> hid_swarm a < hid_swarm b \<or> (hid_swarm a = hid_swarm b \<and> hid_unit a \<le> hid_unit b)"

instance
  by standard (auto simp: less_hid_def less_eq_hid_def hid.expand)

end

lemma hid_less_iff: "hid_wf a \<Longrightarrow> hid_wf b \<Longrightarrow> hid_less a b \<longleftrightarrow> a < b"
  by (auto simp: hid_less_def uuid_less_def less_hid_def less_uuid_def hid_wf_def uuid_wf_def bytes_less_lex)

section \<open>Hexadecimal digits\<close>

lemma uint_byte_less: "uint (b :: byte) < 256" "0 \<le> uint b"
  using uint_bounded [of b] by simp_all

lemma hex_value_hex_char:
  assumes "uint n < 16"
  shows "hex_value (hex_char n) = uint n"
proof -
  have "n < 10 \<longleftrightarrow> uint n < 10" by (simp add: word_less_def)
  with assms uint_byte_less(2) [of n] show ?thesis
    by (auto simp: hex_value_def hex_char_def Let_def)
qed

lemma nibble_hi: "uint (drop_bit 4 (b :: byte)) < 16"
proof -
  have "uint (drop_bit 4 b) = uint b div 2 ^ 4" by (simp only: drop_bit_eq_div uint_div)  (simp add: uint_div)
  then show ?thesis using uint_byte_less(1) [of b] by simp
qed

lemma nibble_lo: "uint (b AND 0x0F :: byte) = uint b mod 16"
proof -
  have "uint (b AND 0x0F) = uint b AND mask 4" by (simp add: unsigned_and_eq mask_eq_exp_minus_1)
  then show ?thesis by (simp add: take_bit_eq_mod flip: take_bit_eq_mask)
qed

lemma nibbles_join: "word_of_int (push_bit 4 (uint (drop_bit 4 b)) OR uint (b AND 0x0F)) = (b :: byte)"
proof (rule bit_word_eqI)
  have m: "(0x0F :: byte) = mask 4" by (simp add: mask_eq_exp_minus_1)
  fix n assume "n < LENGTH(8)"
  then show "bit (word_of_int (push_bit 4 (uint (drop_bit 4 b)) OR uint (b AND 0x0F)) :: byte) n = bit b n"
    unfolding m by (auto simp: bit_simps)
qed

lemma hex_digits_byte [simp]:
  "hex_value (hex_char (drop_bit 4 b)) = uint (drop_bit 4 b)" "hex_value (hex_char (b AND 0x0F)) = uint (b AND 0x0F)"
  by (rule hex_value_hex_char, rule nibble_hi) (rule hex_value_hex_char, simp add: nibble_lo)

section \<open>Round trips of the string forms\<close>

lemma length16_explicit:
  assumes "length bs = 16"
  obtains b0 b1 b2 b3 b4 b5 b6 b7 b8 b9 b10 b11 b12 b13 b14 b15
  where "bs = [b0, b1, b2, b3, b4, b5, b6, b7, b8, b9, b10, b11, b12, b13, b14, b15]"
  using assms by (auto simp: numeral_eq_Suc length_Suc_conv)

lemma uuid_to_string_explicit:
  "uuid_to_string (UUID [b0, b1, b2, b3, b4, b5, b6, b7, b8, b9, b10, b11, b12, b13, b14, b15]) =
    (let h = (\<lambda>b. [hex_char (drop_bit 4 b), hex_char (b AND 0x0F)]) in
     h b0 @ h b1 @ h b2 @ h b3 @ ''-'' @ h b4 @ h b5 @ ''-'' @ h b6 @ h b7 @ ''-'' @ h b8 @ h b9 @ ''-''
       @ h b10 @ h b11 @ h b12 @ h b13 @ h b14 @ h b15)"
  by (simp add: uuid_to_string_def uuid_offsets_def write_byte_def upt_rec numeral_eq_Suc)

lemma length_uuid_to_string [simp]: "length (uuid_to_string u) = 36"
proof -
  have "length (fold (\<lambda>i s. write_byte (f i) (g i) s) is s) = length s" for f g s and "is" :: "nat list"
    by (induction "is" arbitrary: s) (simp_all add: write_byte_def)
  then show ?thesis by (simp add: uuid_to_string_def Let_def)
qed

lemma uuid_from_to: "uuid_wf u \<Longrightarrow> uuid_from_string (uuid_to_string u) = Some u"
proof -
  assume "uuid_wf u"
  then have "length (uuid_bytes u) = 16" by (simp add: uuid_wf_def)
  then obtain b0 b1 b2 b3 b4 b5 b6 b7 b8 b9 b10 b11 b12 b13 b14 b15 where
    "uuid_bytes u = [b0, b1, b2, b3, b4, b5, b6, b7, b8, b9, b10, b11, b12, b13, b14, b15]"
    by (rule length16_explicit)
  then have u: "u = UUID [b0, b1, b2, b3, b4, b5, b6, b7, b8, b9, b10, b11, b12, b13, b14, b15]"
    by (cases u) simp
  have nn: "\<not> uint (w :: byte) < 0" for w by simp
  show ?thesis
    unfolding uuid_from_string_def length_uuid_to_string unfolding u uuid_to_string_explicit uuid_offsets_def
    by (simp add: Let_def nn nibbles_join)
qed

text \<open>The lower-case form of a character: what the canonical form of a parsed string uses.\<close>

definition lower :: "char \<Rightarrow> char" where
  "lower c = (let k = of_char c :: int in if 65 \<le> k \<and> k \<le> 90 then char_of (k + 32) else c)"

lemma hex_char_word:
  assumes "0 \<le> k" "k < 16"
  shows "hex_char (word_of_int k) = (if k < 10 then char_of (48 + k) else char_of (87 + k))"
proof -
  have "uint (word_of_int k :: byte) = k" using assms by (simp add: uint_word_of_int)
  then show ?thesis by (simp add: hex_char_def word_less_def)
qed

lemma hex_value_range: "hex_value c < 16"
  by (auto simp: hex_value_def Let_def)

lemma hex_char_hex_value:
  assumes "0 \<le> hex_value c"
  shows "hex_char (word_of_int (hex_value c)) = lower c"
proof -
  let ?k = "of_char c :: int"
  consider "48 \<le> ?k" "?k \<le> 57" | "97 \<le> ?k" "?k \<le> 102" | "65 \<le> ?k" "?k \<le> 70"
    using assms by (auto simp: hex_value_def Let_def split: if_splits)
  then have "(if hex_value c < 10 then char_of (48 + hex_value c) else char_of (87 + hex_value c)) = lower c"
    by cases (auto simp: hex_value_def lower_def Let_def)
  with hex_char_word [OF assms hex_value_range] show ?thesis by simp
qed

lemma int_nibble_bit:
  fixes x :: int
  assumes "bit x n" "0 \<le> x" "x < 16"
  shows "n < 4"
proof (rule ccontr)
  assume "\<not> n < 4"
  then have "x < 2 ^ n" using assms power_increasing [of 4 n "2 :: int"] by simp
  with assms show False by (simp add: bit_iff_odd)
qed

lemma nibbles_split:
  assumes "0 \<le> hi" "hi < 16" "0 \<le> lo" "lo < 16"
  shows "drop_bit 4 (word_of_int (push_bit 4 hi OR lo) :: byte) = word_of_int hi"
    "(word_of_int (push_bit 4 hi OR lo) :: byte) AND 0x0F = word_of_int lo"
proof -
  note hi = int_nibble_bit [OF _ assms(1,2)] and lo = int_nibble_bit [OF _ assms(3,4)]
  have m: "(0x0F :: byte) = mask 4" by (simp add: mask_eq_exp_minus_1)
  show "drop_bit 4 (word_of_int (push_bit 4 hi OR lo) :: byte) = word_of_int hi"
    by (rule bit_word_eqI) (auto simp: bit_simps dest: hi lo)
  show "(word_of_int (push_bit 4 hi OR lo) :: byte) AND 0x0F = word_of_int lo"
    unfolding m by (rule bit_word_eqI) (auto simp: bit_simps dest: hi lo)
qed

lemma parse_hex_bytes_Cons:
  assumes "parse_hex_bytes s (off # offs) = Some bs"
  obtains b bs' where "bs = b # bs'" "parse_hex_bytes s offs = Some bs'"
    "hex_char (drop_bit 4 b) = lower (s ! off)" "hex_char (b AND 0x0F) = lower (s ! (off + 1))"
proof -
  let ?hi = "hex_value (s ! off)" and ?lo = "hex_value (s ! (off + 1))"
  from assms obtain bs' where "bs = word_of_int (push_bit 4 ?hi OR ?lo) # bs'" "parse_hex_bytes s offs = Some bs'"
    and nn: "0 \<le> ?hi" "0 \<le> ?lo"
    by (auto simp: Let_def not_less split: if_splits)
  moreover note split = nibbles_split [OF nn(1) hex_value_range nn(2) hex_value_range]
  have "hex_char (drop_bit 4 (word_of_int (push_bit 4 ?hi OR ?lo) :: byte)) = lower (s ! off)"
    "hex_char ((word_of_int (push_bit 4 ?hi OR ?lo) :: byte) AND 0x0F) = lower (s ! (off + 1))"
    unfolding split by (rule hex_char_hex_value, rule nn)+
  ultimately show ?thesis by (intro that)
qed

lemma parse_hex_bytes_length: "parse_hex_bytes s offs = Some bs \<Longrightarrow> length bs = length offs"
  by (induction offs arbitrary: bs) (auto elim!: parse_hex_bytes_Cons simp del: parse_hex_bytes.simps(2))

lemma lower_dash [simp]: "lower CHR ''-'' = CHR ''-''" "lower CHR '':'' = CHR '':''"
  by (simp_all add: lower_def)

lemma parse_hex_bytes_nth:
  "parse_hex_bytes s offs = Some bs \<Longrightarrow> i < length offs \<Longrightarrow>
     hex_char (drop_bit 4 (bs ! i)) = lower (s ! (offs ! i)) \<and> hex_char (bs ! i AND 0x0F) = lower (s ! (offs ! i + 1))"
proof (induction offs arbitrary: bs i)
  case (Cons off offs)
  from Cons.prems(1) obtain b bs' where "bs = b # bs'" "parse_hex_bytes s offs = Some bs'"
    "hex_char (drop_bit 4 b) = lower (s ! off)" "hex_char (b AND 0x0F) = lower (s ! (off + 1))"
    by (rule parse_hex_bytes_Cons)
  with Cons.IH [of bs'] Cons.prems(2) show ?case by (cases i) simp_all
qed simp

lemma list36:
  "length s = 36 \<Longrightarrow> s = [s ! 0, s ! 1, s ! 2, s ! 3, s ! 4, s ! 5, s ! 6, s ! 7, s ! 8, s ! 9, s ! 10, s ! 11,
    s ! 12, s ! 13, s ! 14, s ! 15, s ! 16, s ! 17, s ! 18, s ! 19, s ! 20, s ! 21, s ! 22, s ! 23, s ! 24,
    s ! 25, s ! 26, s ! 27, s ! 28, s ! 29, s ! 30, s ! 31, s ! 32, s ! 33, s ! 34, s ! 35]"
proof -
  assume "length s = 36"
  then have "map (\<lambda>i. s ! i) [0..<36] = s" using map_nth [of s] by simp
  moreover have "[0..<36] = [0, 1, 2, 3, 4, 5, 6, 7, 8, 9, 10, 11, 12, 13, 14, 15, 16, 17, 18, 19, 20, 21, 22, 23,
      24, 25, 26, 27, 28, 29, 30, 31, 32, 33, 34, 35 :: nat]" by (simp add: upt_rec)
  ultimately have "map (\<lambda>i. s ! i) [0, 1, 2, 3, 4, 5, 6, 7, 8, 9, 10, 11, 12, 13, 14, 15, 16, 17, 18, 19, 20, 21,
      22, 23, 24, 25, 26, 27, 28, 29, 30, 31, 32, 33, 34, 35] = s" by (simp only:)
  from this [symmetric] show ?thesis unfolding list.map .
qed

lemma uuid_from_string_canonical:
  assumes "uuid_from_string s = Some u"
  shows "uuid_wf u" "uuid_to_string u = map lower s"
proof -
  from assms obtain bs where u: "u = UUID bs" and bs: "parse_hex_bytes s uuid_offsets = Some bs"
    and len: "length s = 36" and dash: "s ! 8 = CHR ''-''" "s ! 13 = CHR ''-''" "s ! 18 = CHR ''-''" "s ! 23 = CHR ''-''"
    by (auto simp: uuid_from_string_def split: if_splits)
  have len16: "length bs = 16" using parse_hex_bytes_length [OF bs] by (simp add: uuid_offsets_def)
  then show "uuid_wf u" by (simp add: u uuid_wf_def)
  note H = parse_hex_bytes_nth [OF bs]
  obtain b0 b1 b2 b3 b4 b5 b6 b7 b8 b9 b10 b11 b12 b13 b14 b15 where
    e: "bs = [b0, b1, b2, b3, b4, b5, b6, b7, b8, b9, b10, b11, b12, b13, b14, b15]"
    using len16 by (rule length16_explicit)
  note hex = H [of 0] H [of 1] H [of 2] H [of 3] H [of 4] H [of 5] H [of 6] H [of 7] H [of 8] H [of 9] H [of 10]
    H [of 11] H [of 12] H [of 13] H [of 14] H [of 15]
  have "uuid_to_string (UUID bs) = map lower
      [s ! 0, s ! 1, s ! 2, s ! 3, s ! 4, s ! 5, s ! 6, s ! 7, s ! 8, s ! 9, s ! 10, s ! 11,
       s ! 12, s ! 13, s ! 14, s ! 15, s ! 16, s ! 17, s ! 18, s ! 19, s ! 20, s ! 21, s ! 22, s ! 23, s ! 24,
       s ! 25, s ! 26, s ! 27, s ! 28, s ! 29, s ! 30, s ! 31, s ! 32, s ! 33, s ! 34, s ! 35]"
    unfolding e uuid_to_string_explicit using hex [unfolded e] by (simp add: uuid_offsets_def dash)
  with list36 [OF len] show "uuid_to_string u = map lower s" unfolding u by metis
qed

section \<open>Round trips of hierarchical identifiers\<close>

lemma swarm_nibble:
  fixes sid :: u16
  shows "hex_value (hex_char (ucast (sid AND 0xF))) = uint (sid AND 0xF)"
    "word_of_int (uint (sid AND 0xF)) = sid AND 0xF"
proof -
  have "uint (sid AND 0xF) = uint sid AND mask 4" by (simp add: unsigned_and_eq mask_eq_exp_minus_1)
  then have lt: "uint (sid AND 0xF) < 16" "0 \<le> uint (sid AND 0xF)"
    by (simp_all add: take_bit_eq_mod flip: take_bit_eq_mask)
  then have "uint (ucast (sid AND 0xF) :: byte) = uint (sid AND 0xF)"
    by (simp add: unsigned_ucast_eq take_bit_int_eq_self)
  then show "hex_value (hex_char (ucast (sid AND 0xF))) = uint (sid AND 0xF)"
    using hex_value_hex_char [of "ucast (sid AND 0xF)"] lt by simp
qed simp

lemma swarm_join:
  fixes sid :: u16
  shows "push_bit 4 (push_bit 4 (push_bit 4 (drop_bit 12 sid AND 0xF) OR (drop_bit 8 sid AND 0xF))
      OR (drop_bit 4 sid AND 0xF)) OR (sid AND 0xF) = sid"
  (is "?w = sid")
proof (rule bit_word_eqI)
  have m: "(0xF :: u16) = mask 4" by (simp add: mask_eq_exp_minus_1)
  fix n assume n: "n < LENGTH(16)"
  consider "n < 4" | "4 \<le> n" "n < 8" | "8 \<le> n" "n < 12" | "12 \<le> n" by linarith
  then show "bit ?w n = bit sid n"
    unfolding m using n by cases (auto simp: bit_simps)
qed

lemma parse_swarm_hex:
  "parse_swarm [hex_char (ucast (drop_bit 12 sid AND 0xF)), hex_char (ucast (drop_bit 8 sid AND 0xF)),
     hex_char (ucast (drop_bit 4 sid AND 0xF)), hex_char (ucast (sid AND 0xF))] 0 = Some sid"
  using swarm_join [of sid] by (simp add: swarm_nibble Let_def)

lemma hid_from_to: "hid_wf h \<Longrightarrow> hid_from_string (hid_to_string h) = Some h"
  using uuid_from_to [of "hid_unit h"] parse_swarm_hex [of "hid_swarm h"]
  by (simp add: hid_from_string_def hid_to_string_def Let_def hid_wf_def)

lemma put_hid_swarm: "[byte_at 0 (s :: u16), byte_at 1 s] = put_u16 s"
  by (simp add: put_u16_def)



lemma hex_value_lower: "hex_value (lower c) = hex_value c"
  by (auto simp: hex_value_def lower_def Let_def)

lemma lower_eq_sep: "lower c = CHR ''-'' \<longleftrightarrow> c = CHR ''-''" "lower c = CHR '':'' \<longleftrightarrow> c = CHR '':''"
proof -
  have "c = char_of (of_char c :: int)" by simp
  moreover have "(65 :: int) \<le> of_char c \<Longrightarrow> (of_char c :: int) \<le> 90 \<Longrightarrow> of_char (lower c) = (of_char c :: int) + 32"
    by (simp add: lower_def Let_def)
  ultimately show "lower c = CHR ''-'' \<longleftrightarrow> c = CHR ''-''" "lower c = CHR '':'' \<longleftrightarrow> c = CHR '':''"
    by (auto simp: lower_def Let_def split: if_splits dest!: arg_cong [where f = "of_char :: char \<Rightarrow> int"])
qed

lemma parse_hex_bytes_lower:
  "(\<And>off. off \<in> set offs \<Longrightarrow> off + 1 < length s) \<Longrightarrow> parse_hex_bytes (map lower s) offs = parse_hex_bytes s offs"
  by (induction offs) (simp_all add: hex_value_lower Let_def less_imp_le_nat Suc_le_eq Suc_lessD)

lemma uuid_from_string_lower: "uuid_from_string (map lower s) = uuid_from_string s"
proof (cases "length s = 36")
  case True
  then have "\<forall>off \<in> set uuid_offsets. off + 1 < length s" by (simp add: uuid_offsets_def)
  with parse_hex_bytes_lower [of uuid_offsets s] True show ?thesis
    by (simp add: uuid_from_string_def lower_eq_sep)
qed (simp add: uuid_from_string_def)

lemma parse_swarm_lower: "parse_swarm (map lower s) sid = parse_swarm s sid"
  by (induction s arbitrary: sid) (simp_all add: hex_value_lower Let_def)

lemma hid_from_string_lower: "hid_from_string (map lower s) = hid_from_string s"
  by (simp add: hid_from_string_def lower_eq_sep parse_swarm_lower take_map drop_map uuid_from_string_lower
      split: option.split)

lemma parse_swarm_Cons:
  assumes "parse_swarm (c # cs) sid = Some r"
  shows "parse_swarm cs (push_bit 4 sid OR word_of_int (hex_value c)) = Some r" "0 \<le> hex_value c"
  using assms by (simp_all add: Let_def split: if_splits)

lemma parse_swarm_digits:
  assumes "parse_swarm [c0, c1, c2, c3] 0 = Some sid"
  shows "hex_char (ucast (drop_bit 12 sid AND 0xF)) = lower c0" "hex_char (ucast (drop_bit 8 sid AND 0xF)) = lower c1"
    "hex_char (ucast (drop_bit 4 sid AND 0xF)) = lower c2" "hex_char (ucast (sid AND 0xF)) = lower c3"
proof -
  let ?w = "\<lambda>c. word_of_int (hex_value c) :: u16"
  from assms have nn: "0 \<le> hex_value c0" "0 \<le> hex_value c1" "0 \<le> hex_value c2" "0 \<le> hex_value c3"
    and sid: "sid = push_bit 4 (push_bit 4 (push_bit 4 (?w c0) OR ?w c1) OR ?w c2) OR ?w c3"
    by (auto simp: Let_def split: if_splits)
  have m: "(0xF :: u16) = mask 4" by (simp add: mask_eq_exp_minus_1)
  have b: "\<not> bit (hex_value c) n" if "0 \<le> hex_value c" "4 \<le> n" for c n
    using int_nibble_bit [OF _ that(1) hex_value_range, of n] that(2) by linarith
  note nn' = nn [THEN b] and lt = int_nibble_bit [OF _ nn(1) hex_value_range] int_nibble_bit [OF _ nn(2) hex_value_range]
    int_nibble_bit [OF _ nn(3) hex_value_range] int_nibble_bit [OF _ nn(4) hex_value_range]
  have d: "drop_bit 12 sid AND 0xF = ?w c0" "drop_bit 8 sid AND 0xF = ?w c1" "drop_bit 4 sid AND 0xF = ?w c2"
    "sid AND 0xF = ?w c3"
    unfolding sid m by (rule bit_word_eqI; auto simp: bit_simps nn' dest: lt)+
  have u: "ucast (?w c) = (word_of_int (hex_value c) :: byte)" if "0 \<le> hex_value c" for c
    using that hex_value_range [of c] by (simp add: unsigned_of_int take_bit_int_eq_self)
  show "hex_char (ucast (drop_bit 12 sid AND 0xF)) = lower c0" "hex_char (ucast (drop_bit 8 sid AND 0xF)) = lower c1"
    "hex_char (ucast (drop_bit 4 sid AND 0xF)) = lower c2" "hex_char (ucast (sid AND 0xF)) = lower c3"
    unfolding d using nn by (simp_all add: u hex_char_hex_value)
qed


lemma hid_from_string_canonical:
  assumes "hid_from_string s = Some h"
  shows "hid_wf h" "hid_to_string h = map lower s"
proof -
  from assms obtain sid u where h: "h = HID sid u" and sid: "parse_swarm (take 4 s) 0 = Some sid"
    and u: "uuid_from_string (drop 5 s) = Some u" and len: "length s = 41" and colon: "s ! 4 = CHR '':''"
    by (auto simp: hid_from_string_def split: if_splits option.splits)
  show "hid_wf h" using uuid_from_string_canonical(1) [OF u] by (simp add: h hid_wf_def)
  obtain c0 c1 c2 c3 c4 r where s: "s = c0 # c1 # c2 # c3 # c4 # r"
    using len by (auto simp: numeral_eq_Suc length_Suc_conv)
  show "hid_to_string h = map lower s"
    using parse_swarm_digits [of c0 c1 c2 c3 sid] sid uuid_from_string_canonical(2) [OF u] colon
    by (simp add: h s hid_to_string_def Let_def)
qed

text \<open>
  Parsing a hierarchical identifier is the exact inverse of printing it, up to the case of the
  hexadecimal digits: a string parses to \<open>h\<close> if and only if \<open>h\<close> has a 16-byte UUID and the string,
  lower-cased, is the printed form of \<open>h\<close>.  So every printed identifier is read back, nothing else
  is accepted, and two strings of one identifier differ in case only.
\<close>

theorem hid_string_roundtrip:
  "hid_from_string s = Some h \<longleftrightarrow> hid_wf h \<and> map lower s = hid_to_string h"
proof
  assume "hid_wf h \<and> map lower s = hid_to_string h"
  then show "hid_from_string s = Some h" using hid_from_to [of h] hid_from_string_lower [of s] by simp
qed (simp add: hid_from_string_canonical)

section \<open>Generation and certificates\<close>

text \<open>
  Claim C40.  Whatever the entropy source delivers, a generated UUID has 16 bytes, version number 4 and
  the RFC 4122 variant, and it is not the nil UUID that the code uses for \<open>no identity\<close>.
\<close>

theorem uuid_generate_v4:
  "uuid_wf (uuid_generate rd) \<and> uuid_version (uuid_generate rd) = 4
   \<and> uuid_bytes (uuid_generate rd) ! 8 AND 0xC0 = 0x80 \<and> \<not> is_nil (uuid_generate rd)"
proof -
  obtain b0 b1 b2 b3 b4 b5 b6 b7 b8 b9 b10 b11 b12 b13 b14 b15 :: byte where
    e: "uuid_generate rd = UUID [b0, b1, b2, b3, b4, b5, (b6 AND 0x0F) OR 0x40, b7, (b8 AND 0x3F) OR 0x80,
      b9, b10, b11, b12, b13, b14, b15]"
    by (simp add: uuid_generate_def put_u32_def upt_rec numeral_eq_Suc Let_def)
  have v: "drop_bit 4 (((b6 AND 0x0F) OR 0x40) AND 0xF0) = 4" "((b8 AND 0x3F) OR 0x80) AND 0xC0 = 0x80"
    by (simp_all add: bit.conj_disj_distrib2 and.assoc)
  then show ?thesis
    by (auto simp: e uuid_wf_def uuid_version_def is_nil_def)
qed

lemma hid_generate_wf [simp]: "hid_wf (hid_generate swarm rd)"
  by (simp add: hid_generate_def hid_wf_def uuid_generate_def uuid_wf_def put_u32_def upt_rec numeral_eq_Suc Let_def)

lemma length_serialise_cert_payload:
  "hid_wf a \<Longrightarrow> hid_wf b \<Longrightarrow> length k = 32 \<Longrightarrow> length (serialise_cert_payload a b k) = IDENTITY_CERT_PAYLOAD_LEN"
  by (simp add: serialise_cert_payload_def IDENTITY_CERT_PAYLOAD_LEN_def hid_wf_def uuid_wf_def)

lemma serialise_cert_payload_inj:
  assumes "hid_wf a" "hid_wf b" "length k = 32" "hid_wf a'" "hid_wf b'" "length k' = 32"
    and "serialise_cert_payload a b k = serialise_cert_payload a' b' k'"
  shows "a = a' \<and> b = b' \<and> k = k'"
  using assms unfolding serialise_cert_payload_def put_hid_swarm
  by (auto simp: hid_wf_def uuid_wf_def put_u16_inj hid.expand uuid.expand)

end
