(* ===== verification/Ordered_Map.thy ===== *)
theory Ordered_Map
  imports Prelude
begin

text \<open>
  \<open>std::map\<close> as the code uses it: the entries in key order, which is also the order of iteration.
  \<open>om_set\<close> is \<open>m[k] = v\<close>, \<open>om_emplace\<close> is \<open>emplace\<close> (an existing entry stays), \<open>om_erase\<close> is
  \<open>erase\<close>; look-ups are the library's \<open>map_of\<close>.  The lemmas reduce every operation to the partial
  function \<open>map_of\<close> and to the set of entries, and keep the order.
\<close>

type_synonym ('k, 'v) omap = "('k \<times> 'v) list"

definition om_wf :: "('k::linorder, 'v) omap \<Rightarrow> bool" where
  "om_wf m \<longleftrightarrow> sorted_wrt (<) (map fst m)"

fun om_set :: "'k::linorder \<Rightarrow> 'v \<Rightarrow> ('k, 'v) omap \<Rightarrow> ('k, 'v) omap" where
  "om_set k v [] = [(k, v)]"
| "om_set k v ((k', v') # m) =
     (if k < k' then (k, v) # (k', v') # m
      else if k = k' then (k, v) # m
      else (k', v') # om_set k v m)"

definition om_emplace :: "'k::linorder \<Rightarrow> 'v \<Rightarrow> ('k, 'v) omap \<Rightarrow> ('k, 'v) omap" where
  "om_emplace k v m = (case map_of m k of None \<Rightarrow> om_set k v m | Some _ \<Rightarrow> m)"

definition om_erase :: "'k \<Rightarrow> ('k, 'v) omap \<Rightarrow> ('k, 'v) omap" where
  "om_erase k m = filter (\<lambda>e. fst e \<noteq> k) m"

lemma om_wf_Nil [simp]: "om_wf []"
  by (simp add: om_wf_def)

lemma map_of_om_set [simp]: "map_of (om_set k v m) = (map_of m)(k \<mapsto> v)"
  by (induction m rule: om_set.induct) (auto simp: fun_eq_iff)

lemma fst_set_om_set: "fst ` set (om_set k v m) = insert k (fst ` set m)"
  by (induction k v m rule: om_set.induct) auto

lemma om_wf_distinct: "om_wf m \<Longrightarrow> distinct (map fst m)"
  unfolding om_wf_def by (simp add: strict_sorted_iff)

lemma om_wf_set [simp]: "om_wf m \<Longrightarrow> om_wf (om_set k v m)"
proof (induction k v m rule: om_set.induct)
  case (2 k v k' v' m)
  have keys: "fst ` set (om_set k v m) = insert k (fst ` set m)" by (rule fst_set_om_set)
  show ?case
  proof (cases k k' rule: linorder_cases)
    case greater
    with 2 have "om_wf (om_set k v m)" by (simp add: om_wf_def)
    moreover have "\<forall>x \<in> fst ` set (om_set k v m). k' < x"
      using 2(2) greater unfolding keys by (auto simp: om_wf_def)
    ultimately show ?thesis using greater by (auto simp: om_wf_def)
  qed (use 2(2) in \<open>auto simp: om_wf_def\<close>)
qed (simp add: om_wf_def)

lemma om_wf_emplace [simp]: "om_wf m \<Longrightarrow> om_wf (om_emplace k v m)"
  by (simp add: om_emplace_def split: option.split)

lemma om_wf_filter [simp]: "om_wf m \<Longrightarrow> om_wf (filter P m)"
  by (induction m) (auto simp: om_wf_def)

lemma om_wf_erase [simp]: "om_wf m \<Longrightarrow> om_wf (om_erase k m)"
  by (simp add: om_erase_def)

lemma map_of_om_erase [simp]: "map_of (om_erase k m) = (map_of m)(k := None)"
  by (induction m) (auto simp: om_erase_def fun_eq_iff)

lemma map_of_om_emplace:
  "map_of (om_emplace k v m) = (case map_of m k of None \<Rightarrow> (map_of m)(k \<mapsto> v) | Some _ \<Rightarrow> map_of m)"
  by (simp add: om_emplace_def split: option.split)

lemma map_of_filter_wf:
  "om_wf m \<Longrightarrow> map_of (filter P m) k = (case map_of m k of None \<Rightarrow> None | Some v \<Rightarrow> if P (k, v) then Some v else None)"
proof (induction m)
  case (Cons e m)
  then have *: "om_wf m" "fst e \<notin> fst ` set m" by (auto simp: om_wf_def)
  then have "map_of m (fst e) = None" by (simp add: map_of_eq_None_iff)
  with Cons.IH [OF *(1)] show ?case by (cases e) auto
qed simp

lemma om_wf_in_set: "om_wf m \<Longrightarrow> (k, v) \<in> set m \<longleftrightarrow> map_of m k = Some v"
  by (simp add: om_wf_distinct)

lemma set_om_set: "om_wf m \<Longrightarrow> set (om_set k v m) = {e \<in> set m. fst e \<noteq> k} \<union> {(k, v)}"
proof -
  assume wf: "om_wf m"
  have "(a, b) \<in> set (om_set k v m) \<longleftrightarrow> (a, b) \<in> {e \<in> set m. fst e \<noteq> k} \<union> {(k, v)}" for a b
    using wf om_wf_in_set [OF wf] om_wf_in_set [OF om_wf_set [OF wf]] by auto
  then show ?thesis by auto
qed

end
