(* ===== verification/Identity_Auth.thy ===== *)
theory Identity_Auth
  imports Identity_Ids Ordered_Map
begin

text \<open>
  Keys, signatures and the two stores that bind an identity to a key: \<open>sign_payload\<close>,
  \<open>verify_signature\<close> and \<open>Ed25519IdentityVerifier\<close> (src/identity/ed25519.cpp), the verifier interface
  (include/mith/identity/identity_auth.h) and \<open>PeerKeyRegistry\<close> (src/comms/peer_key_registry.cpp).

  TweetNaCl is vendored third-party code and a parameter: \<open>crypto_sign sk m\<close> is the signed-message
  buffer it writes and \<open>crypto_sign_open sm pk\<close> its return code.  The hypothesis the code relies on is
  \<open>nacl_correct\<close>: a message signed with the private half of a key pair is accepted under the public
  half and starts with 64 bytes of signature followed by the message.

  The locale \<open>key_store\<close> is the contract of a trust-on-first-use store: what a look-up returns after a
  pin, on each of its three branches.  Its lemmas say that a binding, once made, survives any sequence
  of pins.  It is interpreted on the peer table of the verifier and on the peer key registry.
\<close>

section \<open>Keys and signatures\<close>

type_synonym identity_key = "byte list"
type_synonym private_key = "byte list"

abbreviation PUBLIC_KEY_LEN :: nat where "PUBLIC_KEY_LEN \<equiv> 32"
abbreviation SIGNATURE_LEN :: nat where "SIGNATURE_LEN \<equiv> 64"

type_synonym nacl_sign = "private_key \<Rightarrow> byte list \<Rightarrow> byte list"
type_synonym nacl_open = "byte list \<Rightarrow> identity_key \<Rightarrow> int"

definition nacl_correct :: "nacl_sign \<Rightarrow> nacl_open \<Rightarrow> private_key \<Rightarrow> identity_key \<Rightarrow> bool" where
  "nacl_correct crypto_sign crypto_sign_open sk pk \<longleftrightarrow>
     (\<forall>m. crypto_sign_open (crypto_sign sk m) pk = 0
          \<and> length (crypto_sign sk m) = SIGNATURE_LEN + length m
          \<and> drop SIGNATURE_LEN (crypto_sign sk m) = m)"

definition sign_payload :: "nacl_sign \<Rightarrow> private_key \<Rightarrow> byte list \<Rightarrow> byte list" where
  "sign_payload crypto_sign sk payload = take SIGNATURE_LEN (crypto_sign sk payload)"

text \<open>A buffer argument is a pointer, \<open>None\<close> for the null pointer, and a size.\<close>

definition verify_signature ::
  "nacl_open \<Rightarrow> identity_key \<Rightarrow> byte list option \<Rightarrow> nat \<Rightarrow> byte list option \<Rightarrow> nat \<Rightarrow> bool" where
  "verify_signature crypto_sign_open pk payload payload_size signature signature_size =
     (if signature_size \<noteq> SIGNATURE_LEN then False
      else if 0 < payload_size \<and> payload = None then False
      else case signature of
        None \<Rightarrow> False
      | Some sig \<Rightarrow>
          let sm = take SIGNATURE_LEN sig
                   @ (if 0 < payload_size then take payload_size (the payload) else [])
          in crypto_sign_open sm pk = 0)"

section \<open>Verifiers\<close>

definition noop_verify :: "hid \<Rightarrow> byte list option \<Rightarrow> nat \<Rightarrow> byte list option \<Rightarrow> nat \<Rightarrow> bool" where
  "noop_verify claimed payload payload_size signature signature_size = True"

type_synonym peer_table = "(hid \<times> identity_key) list"

text \<open>The linear scan over \<open>peers_\<close>: the first entry with the identity decides.\<close>

fun peer_scan :: "peer_table \<Rightarrow> hid \<Rightarrow> identity_key option" where
  "peer_scan [] h = None"
| "peer_scan ((h', k) # ps) h = (if h' = h then Some k else peer_scan ps h)"

definition ed25519_verify ::
  "nacl_open \<Rightarrow> peer_table \<Rightarrow> hid \<Rightarrow> byte list option \<Rightarrow> nat \<Rightarrow> byte list option \<Rightarrow> nat \<Rightarrow> bool" where
  "ed25519_verify crypto_sign_open peers claimed payload payload_size signature signature_size =
     (case peer_scan peers claimed of
        Some key \<Rightarrow> verify_signature crypto_sign_open key payload payload_size signature signature_size
      | None \<Rightarrow> False)"

definition add_peer :: "hid \<Rightarrow> identity_key \<Rightarrow> peer_table \<Rightarrow> bool \<times> peer_table" where
  "add_peer h key peers =
     (case peer_scan peers h of
        Some k \<Rightarrow> (k = key, peers)
      | None \<Rightarrow> (True, peers @ [(h, key)]))"

definition known_peer_count :: "peer_table \<Rightarrow> nat" where
  "known_peer_count peers = length peers"

section \<open>The peer key registry\<close>

type_synonym key_registry = "(hid, identity_key) omap"

definition pk_find :: "key_registry \<Rightarrow> hid \<Rightarrow> identity_key option" where
  "pk_find keys h = map_of keys h"

text \<open>\<open>memcmp\<close> compares the 32 bytes of the two keys.\<close>

definition try_pin :: "hid \<Rightarrow> identity_key \<Rightarrow> key_registry \<Rightarrow> bool \<times> key_registry" where
  "try_pin h key keys =
     (case map_of keys h of
        None \<Rightarrow> (True, om_emplace h key keys)
      | Some k \<Rightarrow> (take PUBLIC_KEY_LEN k = take PUBLIC_KEY_LEN key, keys))"

definition pk_size :: "key_registry \<Rightarrow> nat" where
  "pk_size keys = length keys"

definition pk_clear :: "key_registry \<Rightarrow> key_registry" where
  "pk_clear keys = []"

section \<open>Trust on first use\<close>

locale key_store =
  fixes pin :: "hid \<Rightarrow> identity_key \<Rightarrow> 's \<Rightarrow> bool \<times> 's"
    and find :: "'s \<Rightarrow> hid \<Rightarrow> identity_key option"
    and count :: "'s \<Rightarrow> nat"
    and inv :: "'s \<Rightarrow> bool"
  assumes pin_inv: "inv s \<Longrightarrow> length key = PUBLIC_KEY_LEN \<Longrightarrow> inv (snd (pin h key s))"
    and pin_new: "inv s \<Longrightarrow> length key = PUBLIC_KEY_LEN \<Longrightarrow> find s h = None \<Longrightarrow>
        fst (pin h key s) \<and> find (snd (pin h key s)) = (find s)(h \<mapsto> key)
        \<and> count (snd (pin h key s)) = Suc (count s)"
    and pin_known: "inv s \<Longrightarrow> length key = PUBLIC_KEY_LEN \<Longrightarrow> find s h = Some k \<Longrightarrow>
        pin h key s = (k = key, s)"
begin

definition pin_all :: "(hid \<times> identity_key) list \<Rightarrow> 's \<Rightarrow> 's" where
  "pin_all ps s = fold (\<lambda>(h, k) s. snd (pin h k s)) ps s"

lemma find_pin:
  assumes "inv s" "length key = PUBLIC_KEY_LEN"
  shows "find (snd (pin h key s)) = (case find s h of None \<Rightarrow> (find s)(h \<mapsto> key) | Some _ \<Rightarrow> find s)"
  using assms by (cases "find s h") (simp_all add: pin_new pin_known)

lemma pin_accepts_iff:
  assumes "inv s" "length key = PUBLIC_KEY_LEN"
  shows "fst (pin h key s) \<longleftrightarrow> find (snd (pin h key s)) h = Some key"
  using assms by (cases "find s h") (auto simp: pin_new pin_known)

lemma binding_stable:
  assumes "inv s" "\<forall>(h, k) \<in> set ps. length k = PUBLIC_KEY_LEN" "find s h = Some key"
  shows "inv (pin_all ps s) \<and> find (pin_all ps s) h = Some key"
  using assms
proof (induction ps arbitrary: s)
  case (Cons p ps)
  obtain h' k' where p: "p = (h', k')" by (cases p)
  with Cons.prems have "inv (snd (pin h' k' s))" "find (snd (pin h' k' s)) h = Some key"
    by (auto simp: pin_inv find_pin split: option.split)
  with Cons.IH [of "snd (pin h' k' s)"] Cons.prems p show ?case by (simp add: pin_all_def)
qed (simp add: pin_all_def)

lemma first_binding_wins:
  assumes "inv s" "\<forall>(h, k) \<in> set ps. length k = PUBLIC_KEY_LEN"
  shows "inv (pin_all ps s) \<and>
    find (pin_all ps s) h = (case find s h of Some k \<Rightarrow> Some k | None \<Rightarrow> map_of ps h)"
  using assms
proof (induction ps arbitrary: s)
  case (Cons p ps)
  obtain h' k' where p: "p = (h', k')" by (cases p)
  with Cons.prems have "inv (snd (pin h' k' s))" by (simp add: pin_inv)
  with Cons.IH [of "snd (pin h' k' s)"] Cons.prems p show ?case
    by (auto simp: pin_all_def find_pin split: option.split)
qed (simp add: pin_all_def split: option.split)

end

lemma peer_scan_append: "peer_scan (ps @ qs) h = (case peer_scan ps h of None \<Rightarrow> peer_scan qs h | Some k \<Rightarrow> Some k)"
  by (induction ps) auto

interpretation peer_table: key_store add_peer peer_scan known_peer_count "\<lambda>_. True"
  by unfold_locales (auto simp: add_peer_def peer_scan_append known_peer_count_def fun_eq_iff split: option.split)

definition key_registry_inv :: "key_registry \<Rightarrow> bool" where
  "key_registry_inv keys \<longleftrightarrow> om_wf keys \<and> (\<forall>(h, k) \<in> set keys. length k = PUBLIC_KEY_LEN)"

lemma length_om_set_new: "map_of m k = None \<Longrightarrow> length (om_set k v m) = Suc (length m)"
  by (induction k v m rule: om_set.induct) (auto split: if_splits)

lemma key_registry_inv_pin:
  "key_registry_inv s \<Longrightarrow> length key = PUBLIC_KEY_LEN \<Longrightarrow> key_registry_inv (snd (try_pin h key s))"
  by (auto simp: key_registry_inv_def try_pin_def om_emplace_def set_om_set split: option.split)

lemma key_registry_inv_find: "key_registry_inv s \<Longrightarrow> map_of s h = Some k \<Longrightarrow> length k = PUBLIC_KEY_LEN"
  by (auto simp: key_registry_inv_def dest: map_of_SomeD)

interpretation key_registry: key_store try_pin pk_find pk_size key_registry_inv
  by unfold_locales
    (rule key_registry_inv_pin,
     auto simp: try_pin_def om_emplace_def pk_find_def pk_size_def length_om_set_new fun_eq_iff
       dest: key_registry_inv_find split: option.split)

section \<open>Results\<close>

text \<open>
  Trust on first use: start from an empty registry and pin any sequence of identities and
  keys.  Afterwards the registry holds, for every identity, exactly the key of the first pin of that
  identity, so no later beacon or handshake replaces a key.
\<close>

theorem registry_keeps_first_key:
  assumes "\<forall>(h, k) \<in> set ps. length k = PUBLIC_KEY_LEN"
  shows "pk_find (fold (\<lambda>(h, k) s. snd (try_pin h k s)) ps []) h = map_of ps h"
  using key_registry.first_binding_wins [of "[]" ps h] assms
  by (simp add: key_registry.pin_all_def key_registry_inv_def pk_find_def)

theorem registry_keeps_first_key_witness:
  "pk_find (fold (\<lambda>(h, k) s. snd (try_pin h k s))
      [(HID 1 uuid_nil, replicate 32 7), (HID 1 uuid_nil, replicate 32 9), (HID 0 uuid_nil, replicate 32 3)] []) (HID 1 uuid_nil)
   = Some (replicate 32 7)"
  using registry_keeps_first_key [of "[(HID 1 uuid_nil, replicate 32 7), (HID 1 uuid_nil, replicate 32 9),
      (HID 0 uuid_nil, replicate 32 3)]" "HID 1 uuid_nil"] by simp

lemma verify_signature_size:
  "signature_size \<noteq> SIGNATURE_LEN \<Longrightarrow> \<not> verify_signature op pk payload n signature signature_size"
  "0 < n \<Longrightarrow> \<not> verify_signature op pk None n signature signature_size"
  "\<not> verify_signature op pk payload n None signature_size"
  by (simp_all add: verify_signature_def)

lemma verify_sign_payload:
  assumes "nacl_correct crypto_sign crypto_sign_open sk pk"
  shows "length (sign_payload crypto_sign sk m) = SIGNATURE_LEN"
    and "verify_signature crypto_sign_open pk (Some m) (length m) (Some (sign_payload crypto_sign sk m)) SIGNATURE_LEN"
proof -
  from assms have *: "crypto_sign_open (crypto_sign sk m) pk = 0" "length (crypto_sign sk m) = SIGNATURE_LEN + length m"
    "drop SIGNATURE_LEN (crypto_sign sk m) = m" by (simp_all add: nacl_correct_def)
  then have "take SIGNATURE_LEN (crypto_sign sk m) @ m = crypto_sign sk m"
    using append_take_drop_id [of SIGNATURE_LEN "crypto_sign sk m"] by simp
  with * show "length (sign_payload crypto_sign sk m) = SIGNATURE_LEN"
    "verify_signature crypto_sign_open pk (Some m) (length m) (Some (sign_payload crypto_sign sk m)) SIGNATURE_LEN"
    by (auto simp: sign_payload_def verify_signature_def Let_def)
qed

text \<open>
  A detached signature made by \<open>sign_payload\<close> has 64 bytes, and the verifier accepts it for the
  identity under which the key was registered, whatever is registered afterwards, also another key
  for the same identity; this rests on the correctness of the signature library for that key pair.
  Before its registration the identity is rejected with every payload and signature.
\<close>

theorem verifier_accepts_registered_peer:
  assumes "nacl_correct crypto_sign crypto_sign_open sk pk" "peer_scan peers h = None" "length pk = PUBLIC_KEY_LEN"
    and "\<forall>(h', k) \<in> set later. length k = PUBLIC_KEY_LEN"
  shows "length (sign_payload crypto_sign sk m) = SIGNATURE_LEN
    \<and> ed25519_verify crypto_sign_open (fold (\<lambda>(h, k) s. snd (add_peer h k s)) later (snd (add_peer h pk peers))) h
         (Some m) (length m) (Some (sign_payload crypto_sign sk m)) SIGNATURE_LEN
    \<and> \<not> ed25519_verify crypto_sign_open peers h p n s sn"
proof -
  have "peer_scan (snd (add_peer h pk peers)) h = Some pk"
    using assms(2) by (simp add: add_peer_def peer_scan_append)
  with assms(4) have "peer_scan (fold (\<lambda>(h, k) s. snd (add_peer h k s)) later (snd (add_peer h pk peers))) h = Some pk"
    using peer_table.binding_stable [of later] by (simp add: peer_table.pin_all_def)
  with verify_sign_payload [OF assms(1)] assms(2) show ?thesis by (simp add: ed25519_verify_def)
qed

theorem verifier_accepts_registered_peer_witness:
  "ed25519_verify (\<lambda>sm pk. if take 64 sm = replicate 64 (hd pk) then 0 else -1)
     (fold (\<lambda>(h, k) s. snd (add_peer h k s)) [(hid_default, replicate 32 6)] (snd (add_peer hid_default (replicate 32 5) [])))
     hid_default (Some [1, 2]) (length [1, 2 :: byte]) (Some (replicate 64 5)) SIGNATURE_LEN"
  using verifier_accepts_registered_peer [of "\<lambda>sk m. replicate 64 (hd sk) @ m"
      "\<lambda>sm pk. if take 64 sm = replicate 64 (hd pk) then 0 else -1" "replicate 64 5" "replicate 32 5"
      "[]" hid_default "[(hid_default, replicate 32 6)]" "[1, 2]" None 0 None 0]
  by (simp add: nacl_correct_def sign_payload_def)

end
