(* ===== verification/Bounded_Queue.thy ===== *)
theory Bounded_Queue
  imports Prelude
begin

text \<open>
  \<open>BoundedQueue<T, N, Policy>\<close> (include/mith/core/bounded_queue.h): the ring buffer behind the action
  queue and the inbound message buffer.

  The template parameters \<open>N\<close> and \<open>Policy\<close> are arguments of the operations.  \<open>bq_list\<close> abstracts a
  ring to the list of its items, oldest first, and \<open>bq_inv\<close> is the relation of the three indices.
  The interface the clients rely on is stated as locales: \<open>fifo\<close> (what \<open>pop\<close> returns),
  \<open>bounded_fifo\<close> (a \<open>push\<close> with room left), and one extension per overflow policy.  The ring is
  shown to be an instance for every capacity, and interpreted at the two capacities in use.
\<close>

section \<open>The ring buffer\<close>

datatype overflow_policy = DropOldest | DropNewest | FaultTrigger

record 'a bqueue =
  bq_buffer :: "'a list"
  bq_head :: nat
  bq_tail :: nat
  bq_size :: nat
  bq_dropped_count :: u32
  bq_overflow_events :: u32

definition bq_new :: "nat \<Rightarrow> 'a \<Rightarrow> 'a bqueue" where
  "bq_new N d = \<lparr>bq_buffer = replicate N d, bq_head = 0, bq_tail = 0, bq_size = 0,
     bq_dropped_count = 0, bq_overflow_events = 0\<rparr>"

definition next_index :: "nat \<Rightarrow> nat \<Rightarrow> nat" where
  "next_index N i = (i + 1) mod N"

definition bq_push :: "nat \<Rightarrow> overflow_policy \<Rightarrow> 'a \<Rightarrow> 'a bqueue \<Rightarrow> bool \<times> 'a bqueue" where
  "bq_push N policy item q =
     (if bq_size q = N then
        let q' = q\<lparr>bq_overflow_events := bq_overflow_events q + 1,
                   bq_dropped_count := bq_dropped_count q + 1\<rparr>
        in if policy = DropOldest then
             (True, q'\<lparr>bq_buffer := (bq_buffer q)[bq_tail q := item],
                       bq_tail := next_index N (bq_tail q),
                       bq_head := next_index N (bq_head q)\<rparr>)
           else (False, q')
      else
        (True, q\<lparr>bq_buffer := (bq_buffer q)[bq_tail q := item],
                 bq_tail := next_index N (bq_tail q),
                 bq_size := bq_size q + 1\<rparr>))"

definition bq_pop :: "nat \<Rightarrow> 'a bqueue \<Rightarrow> 'a option \<times> 'a bqueue" where
  "bq_pop N q =
     (if bq_size q = 0 then (None, q)
      else (Some (bq_buffer q ! bq_head q),
            q\<lparr>bq_head := next_index N (bq_head q), bq_size := bq_size q - 1\<rparr>))"

definition bq_empty :: "'a bqueue \<Rightarrow> bool" where
  "bq_empty q \<longleftrightarrow> bq_size q = 0"

definition bq_full :: "nat \<Rightarrow> 'a bqueue \<Rightarrow> bool" where
  "bq_full N q \<longleftrightarrow> bq_size q = N"

text \<open>The client's loop \<open>while (auto popped = q.pop()) { ... }\<close>, with the items it sees.\<close>

fun drain_loop :: "('q \<Rightarrow> 'a option \<times> 'q) \<Rightarrow> nat \<Rightarrow> 'q \<Rightarrow> ('a list \<times> 'q) option" where
  "drain_loop pop 0 q = None"
| "drain_loop pop (Suc fuel) q =
     (case pop q of
        (None, q') \<Rightarrow> Some ([], q')
      | (Some x, q') \<Rightarrow> map_option (\<lambda>(xs, q''). (x # xs, q'')) (drain_loop pop fuel q'))"

text \<open>A client's loop of pushes that ignores the results.\<close>

definition push_all :: "('a \<Rightarrow> 'q \<Rightarrow> bool \<times> 'q) \<Rightarrow> 'a list \<Rightarrow> 'q \<Rightarrow> 'q" where
  "push_all push xs q = fold (\<lambda>x q. snd (push x q)) xs q"

section \<open>The interface\<close>

locale fifo =
  fixes lst :: "'q \<Rightarrow> 'a list"
    and inv :: "'q \<Rightarrow> bool"
    and pop :: "'q \<Rightarrow> 'a option \<times> 'q"
  assumes pop_Nil: "inv q \<Longrightarrow> lst q = [] \<Longrightarrow> pop q = (None, q)"
    and pop_Cons: "inv q \<Longrightarrow> lst q = x # xs \<Longrightarrow> \<exists>q'. pop q = (Some x, q') \<and> lst q' = xs \<and> inv q'"
begin

lemma drain_loop_all:
  "inv q \<Longrightarrow> length (lst q) < fuel \<Longrightarrow>
     \<exists>q'. drain_loop pop fuel q = Some (lst q, q') \<and> lst q' = [] \<and> inv q'"
proof (induction fuel arbitrary: q)
  case (Suc fuel)
  show ?case
  proof (cases "lst q")
    case Nil
    with Suc.prems pop_Nil show ?thesis by simp
  next
    case (Cons x xs)
    with Suc.prems pop_Cons obtain q1 where q1: "pop q = (Some x, q1)" "lst q1 = xs" "inv q1"
      by blast
    with Suc.prems Cons Suc.IH [of q1] obtain q2
      where "drain_loop pop fuel q1 = Some (xs, q2)" "lst q2 = []" "inv q2" by auto
    with q1 Cons show ?thesis by auto
  qed
qed simp

end

locale bounded_fifo = fifo lst inv pop
  for lst :: "'q \<Rightarrow> 'a list" and inv pop +
  fixes push :: "'a \<Rightarrow> 'q \<Rightarrow> bool \<times> 'q"
    and cap :: nat
  assumes cap_pos: "0 < cap"
    and bounded: "inv q \<Longrightarrow> length (lst q) \<le> cap"
    and push_room: "inv q \<Longrightarrow> length (lst q) < cap \<Longrightarrow>
          \<exists>q'. push x q = (True, q') \<and> lst q' = lst q @ [x] \<and> inv q'"

locale drop_oldest_fifo = bounded_fifo +
  assumes push_full: "inv q \<Longrightarrow> length (lst q) = cap \<Longrightarrow>
          \<exists>q'. push x q = (True, q') \<and> lst q' = tl (lst q) @ [x] \<and> inv q'"
begin

lemma push_step:
  assumes "inv q"
  shows "inv (snd (push x q))"
    and "lst (snd (push x q)) = drop (length (lst q) + 1 - cap) (lst q @ [x])"
proof -
  consider "length (lst q) < cap" | "length (lst q) = cap" using bounded [OF assms] by linarith
  then have "inv (snd (push x q)) \<and>
      lst (snd (push x q)) = drop (length (lst q) + 1 - cap) (lst q @ [x])"
  proof cases
    case 1
    then show ?thesis using push_room [OF assms, of x] by auto
  next
    case 2
    with cap_pos obtain y ys where "lst q = y # ys" by (cases "lst q") auto
    with 2 show ?thesis using push_full [OF assms 2, of x] by auto
  qed
  then show "inv (snd (push x q))" "lst (snd (push x q)) = drop (length (lst q) + 1 - cap) (lst q @ [x])"
    by blast+
qed

text \<open>Whatever is pushed, the newest \<open>cap\<close> items are kept, in order.\<close>

lemma push_all_keeps_newest:
  "inv q \<Longrightarrow> inv (push_all push xs q) \<and>
     lst (push_all push xs q) = drop (length (lst q) + length xs - cap) (lst q @ xs)"
proof (induction xs arbitrary: q)
  case Nil
  then show ?case using bounded [of q] by (simp add: push_all_def)
next
  case (Cons x xs)
  let ?q = "snd (push x q)"
  have step: "inv ?q" "lst ?q = drop (length (lst q) + 1 - cap) (lst q @ [x])"
    using push_step [OF Cons.prems] by blast+
  have "push_all push (x # xs) q = push_all push xs ?q" by (simp add: push_all_def)
  moreover have "drop (length (lst ?q) + length xs - cap) (lst ?q @ xs) =
      drop (length (lst q) + length (x # xs) - cap) (lst q @ x # xs)"
    using step(2) bounded [OF Cons.prems] cap_pos
    by (cases "length (lst q) = cap") (auto simp: drop_append Suc_diff_le)
  ultimately show ?case using Cons.IH [OF step(1)] by simp
qed

end

locale drop_newest_fifo = bounded_fifo +
  assumes push_full: "inv q \<Longrightarrow> length (lst q) = cap \<Longrightarrow>
          \<exists>q'. push x q = (False, q') \<and> lst q' = lst q \<and> inv q'"
begin

lemma push_step:
  assumes "inv q"
  shows "inv (snd (push x q))" and "lst (snd (push x q)) = take cap (lst q @ [x])"
proof -
  consider "length (lst q) < cap" | "length (lst q) = cap" using bounded [OF assms] by linarith
  then have "inv (snd (push x q)) \<and> lst (snd (push x q)) = take cap (lst q @ [x])"
  proof cases
    case 1
    then show ?thesis using push_room [OF assms, of x] by auto
  next
    case 2
    then show ?thesis using push_full [OF assms 2, of x] by auto
  qed
  then show "inv (snd (push x q))" "lst (snd (push x q)) = take cap (lst q @ [x])" by blast+
qed

text \<open>The oldest \<open>cap\<close> items are kept: what was queued is never lost to a later push.\<close>

lemma push_all_keeps_oldest:
  "inv q \<Longrightarrow> inv (push_all push xs q) \<and> lst (push_all push xs q) = take cap (lst q @ xs)"
proof (induction xs arbitrary: q)
  case Nil
  then show ?case using bounded [of q] by (simp add: push_all_def)
next
  case (Cons x xs)
  let ?q = "snd (push x q)"
  have step: "inv ?q" "lst ?q = take cap (lst q @ [x])" using push_step [OF Cons.prems] by blast+
  have "push_all push (x # xs) q = push_all push xs ?q" by (simp add: push_all_def)
  moreover have "take cap (lst ?q @ xs) = take cap (lst q @ x # xs)"
    using step(2) by (cases "length (lst q) < cap") auto
  ultimately show ?case using Cons.IH [OF step(1)] by simp
qed

end

section \<open>The ring implements the interface\<close>

definition bq_inv :: "nat \<Rightarrow> 'a bqueue \<Rightarrow> bool" where
  "bq_inv N q \<longleftrightarrow> 0 < N \<and> length (bq_buffer q) = N \<and> bq_head q < N \<and> bq_size q \<le> N
     \<and> bq_tail q = (bq_head q + bq_size q) mod N
     \<and> bq_dropped_count q = bq_overflow_events q"

definition bq_list :: "nat \<Rightarrow> 'a bqueue \<Rightarrow> 'a list" where
  "bq_list N q = map (\<lambda>i. bq_buffer q ! ((bq_head q + i) mod N)) [0..<bq_size q]"

lemma length_bq_list [simp]: "length (bq_list N q) = bq_size q"
  by (simp add: bq_list_def)

lemma bq_list_Nil_iff [simp]: "bq_list N q = [] \<longleftrightarrow> bq_size q = 0"
  by (simp add: bq_list_def)

lemma bq_new_inv: "0 < N \<Longrightarrow> bq_inv N (bq_new N d)"
  by (simp add: bq_inv_def bq_new_def)

lemma bq_new_list: "bq_list N (bq_new N d) = []"
  by (simp add: bq_new_def)

lemma next_index_add: "i < N \<Longrightarrow> (next_index N i + k) mod N = (i + Suc k) mod N"
  by (simp add: next_index_def mod_add_left_eq)

lemma next_index_less: "0 < N \<Longrightarrow> next_index N i < N"
  by (simp add: next_index_def)

text \<open>Writing at the tail of a ring that is not full extends the list.\<close>

lemma bq_list_append:
  assumes "bq_inv N q" "bq_size q < N"
  shows "map (\<lambda>i. (bq_buffer q)[bq_tail q := x] ! ((bq_head q + i) mod N)) [0..<Suc (bq_size q)]
     = bq_list N q @ [x]"
proof -
  have inj: "(bq_head q + i) mod N \<noteq> bq_tail q" if "i < bq_size q" for i
    using that assms mod_add_left_inj [of i N "bq_size q" "bq_head q"] by (auto simp: bq_inv_def)
  have keep: "(bq_buffer q)[bq_tail q := x] ! ((bq_head q + i) mod N) = bq_buffer q ! ((bq_head q + i) mod N)"
    if "i < bq_size q" for i
    using inj [OF that] by (metis nth_list_update_neq)
  have last: "(bq_buffer q)[bq_tail q := x] ! ((bq_head q + bq_size q) mod N) = x"
    using assms(1) by (auto simp: bq_inv_def)
  show ?thesis by (simp add: bq_list_def last) (simp add: keep)
qed

lemma bq_pop_Some:
  assumes "bq_inv N q" "bq_list N q = x # xs"
  shows "\<exists>q'. bq_pop N q = (Some x, q') \<and> bq_list N q' = xs \<and> bq_inv N q'"
proof -
  from assms(2) have sz: "bq_size q \<noteq> 0" by (metis bq_list_Nil_iff list.distinct(1))
  let ?q = "q\<lparr>bq_head := next_index N (bq_head q), bq_size := bq_size q - 1\<rparr>"
  have split: "[0..<bq_size q] = 0 # map Suc [0..<bq_size q - 1]"
    using sz by (cases "bq_size q") (simp_all add: upt_conv_Cons map_Suc_upt del: upt_Suc)
  have hd: "bq_head q < N" using assms(1) by (simp add: bq_inv_def)
  have "bq_list N q = bq_buffer q ! bq_head q # bq_list N ?q"
    unfolding bq_list_def split using hd by (simp add: next_index_add)
  moreover have "bq_inv N ?q"
    using assms(1) sz next_index_add [OF hd, of "bq_size q - 1"] by (auto simp: bq_inv_def next_index_less)
  ultimately show ?thesis using sz assms(2) by (auto simp: bq_pop_def)
qed

lemma bq_push_room:
  assumes "bq_inv N q" "bq_size q < N"
  shows "\<exists>q'. bq_push N p x q = (True, q') \<and> bq_list N q' = bq_list N q @ [x] \<and> bq_inv N q'"
proof -
  let ?q = "q\<lparr>bq_buffer := (bq_buffer q)[bq_tail q := x], bq_tail := next_index N (bq_tail q),
      bq_size := bq_size q + 1\<rparr>"
  have "bq_push N p x q = (True, ?q)" using assms by (simp add: bq_push_def)
  moreover have "bq_list N ?q = bq_list N q @ [x]" using bq_list_append [OF assms] by (simp add: bq_list_def)
  moreover have "bq_inv N ?q"
    using assms by (auto simp: bq_inv_def next_index_def mod_Suc_eq)
  ultimately show ?thesis by blast
qed

lemma bq_push_full_oldest:
  assumes "bq_inv N q" "bq_size q = N"
  shows "\<exists>q'. bq_push N DropOldest x q = (True, q') \<and> bq_list N q' = tl (bq_list N q) @ [x] \<and> bq_inv N q'"
proof -
  from assms have N: "0 < N" and hd: "bq_head q < N" and tl: "bq_tail q = bq_head q"
    and len: "length (bq_buffer q) = N" by (simp_all add: bq_inv_def)
  let ?q = "q\<lparr>bq_overflow_events := bq_overflow_events q + 1, bq_dropped_count := bq_dropped_count q + 1,
      bq_buffer := (bq_buffer q)[bq_tail q := x], bq_tail := next_index N (bq_tail q),
      bq_head := next_index N (bq_head q)\<rparr>"
  have push: "bq_push N DropOldest x q = (True, ?q)" using assms by (simp add: bq_push_def)
  obtain y ys where "bq_list N q = y # ys" using assms N by (metis bq_list_Nil_iff list.exhaust neq0_conv)
  then obtain q1 where pop: "bq_pop N q = (Some y, q1)" "bq_list N q1 = ys" "bq_inv N q1"
    using bq_pop_Some [OF assms(1)] by blast
  have q1: "q1 = q\<lparr>bq_head := next_index N (bq_head q), bq_size := N - 1\<rparr>"
    using pop(1) assms(2) N by (auto simp: bq_pop_def split: if_splits)
  then have "bq_size q1 < N" using N by simp
  from bq_list_append [OF pop(3) this, of x] have "bq_list N ?q = ys @ [x]"
    using pop(2) q1 N assms(2) by (simp add: bq_list_def)
  moreover have "bq_inv N ?q" using assms N tl by (auto simp: bq_inv_def next_index_def)
  ultimately show ?thesis using push \<open>bq_list N q = y # ys\<close> by auto
qed

lemma bq_push_full_newest:
  assumes "bq_inv N q" "bq_size q = N" "p \<noteq> DropOldest"
  shows "\<exists>q'. bq_push N p x q = (False, q') \<and> bq_list N q' = bq_list N q \<and> bq_inv N q'"
  using assms by (simp add: bq_push_def bq_inv_def bq_list_def)

lemma bq_bounded_fifo: "0 < N \<Longrightarrow> bounded_fifo (bq_list N) (bq_inv N) (bq_pop N) (bq_push N p) N"
proof unfold_locales
  fix q :: "'a bqueue"
  show "bq_inv N q \<Longrightarrow> bq_list N q = [] \<Longrightarrow> bq_pop N q = (None, q)" by (simp add: bq_pop_def)
  show "bq_inv N q \<Longrightarrow> length (bq_list N q) \<le> N" by (simp add: bq_inv_def)
qed (auto intro: bq_pop_Some bq_push_room)

lemma bq_drop_oldest_fifo:
  "0 < N \<Longrightarrow> drop_oldest_fifo (bq_list N) (bq_inv N) (bq_pop N) (bq_push N DropOldest) N"
  by (intro drop_oldest_fifo.intro bq_bounded_fifo drop_oldest_fifo_axioms.intro)
    (auto intro: bq_push_full_oldest)

lemma bq_drop_newest_fifo:
  "0 < N \<Longrightarrow> p \<noteq> DropOldest \<Longrightarrow> drop_newest_fifo (bq_list N) (bq_inv N) (bq_pop N) (bq_push N p) N"
  by (intro drop_newest_fifo.intro bq_bounded_fifo drop_newest_fifo_axioms.intro)
    (auto intro: bq_push_full_newest)

text \<open>The two queues of the runtime: \<open>ActionQueueComponent::queue\<close> holds 8 actions and drops the
  newest, \<open>CommBufferComponent::queue\<close> holds 16 messages and drops the oldest.\<close>

interpretation action_queue: drop_newest_fifo "bq_list 8" "bq_inv 8" "bq_pop 8" "bq_push 8 DropNewest" 8
  by (rule bq_drop_newest_fifo) simp_all

interpretation comm_buffer: drop_oldest_fifo "bq_list 16" "bq_inv 16" "bq_pop 16" "bq_push 16 DropOldest" 16
  by (rule bq_drop_oldest_fifo) simp

section \<open>Bursts and counters\<close>

lemma bq_push_size_count:
  assumes "bq_size q \<le> N"
  shows "bq_size (snd (bq_push N p x q)) = min N (Suc (bq_size q))"
    and "bq_dropped_count (snd (bq_push N p x q)) = bq_dropped_count q + of_nat (Suc (bq_size q) - N)"
  using assms by (simp_all add: bq_push_def Let_def)

lemma push_all_dropped:
  "bq_size q \<le> N \<Longrightarrow>
     bq_dropped_count (push_all (bq_push N p) xs q) = bq_dropped_count q + of_nat (bq_size q + length xs - N)"
proof (induction xs arbitrary: q)
  case (Cons x xs)
  let ?q = "snd (bq_push N p x q)"
  have "Suc (bq_size q) - N + (min N (Suc (bq_size q)) + length xs - N) = bq_size q + length (x # xs) - N"
    using Cons.prems by (simp add: min_def)
  then have "of_nat (Suc (bq_size q) - N) + of_nat (min N (Suc (bq_size q)) + length xs - N)
      = (of_nat (bq_size q + length (x # xs) - N) :: u32)" by (metis of_nat_add)
  with Cons.IH [of ?q] bq_push_size_count [OF Cons.prems, of p x] show ?case
    by (simp add: push_all_def add.assoc)
qed (simp add: push_all_def)

text \<open>
  Claim C33.  A burst through a bounded queue of any capacity: push any sequence of items into a new queue
  and then pop until it is empty.  The consumer receives, in the order of arrival, the newest \<open>N\<close>
  items under \<open>DropOldest\<close> and the oldest \<open>N\<close> items under the other policies; the queue is empty
  afterwards, and \<open>dropped_count\<close> has counted exactly the lost items, modulo \<open>2^32\<close>.  The loop of pops
  ends within \<open>N + 1\<close> calls.
\<close>

theorem bounded_queue_burst:
  assumes "0 < N"
  shows "\<exists>q'. drain_loop (bq_pop N) (Suc N) (push_all (bq_push N p) xs (bq_new N d)) =
      Some (if p = DropOldest then drop (length xs - N) xs else take N xs, q')
    \<and> bq_empty q'
    \<and> bq_dropped_count (push_all (bq_push N p) xs (bq_new N d)) = of_nat (length xs - N)"
proof -
  let ?q = "push_all (bq_push N p) xs (bq_new N d)"
  let ?r = "if p = DropOldest then drop (length xs - N) xs else take N xs"
  note new = bq_new_inv [OF assms, of d] bq_new_list [of N d]
  have q: "bq_inv N ?q \<and> bq_list N ?q = ?r"
    using drop_oldest_fifo.push_all_keeps_newest [OF bq_drop_oldest_fifo [OF assms] new(1), of xs]
      drop_newest_fifo.push_all_keeps_oldest [OF bq_drop_newest_fifo [OF assms] new(1), of p xs] new(2)
    by auto
  then have "length (bq_list N ?q) < Suc N" by (auto simp: less_Suc_eq_le bq_inv_def)
  from fifo.drain_loop_all [OF bounded_fifo.axioms(1) [OF bq_bounded_fifo [OF assms]] conjunct1 [OF q] this]
  show ?thesis using q push_all_dropped [of "bq_new N d" N p xs]
    by (auto simp: bq_empty_def) (simp_all add: bq_new_def)
qed

theorem bounded_queue_burst_witness:
  "\<exists>q'. drain_loop (bq_pop 2) (Suc 2) (push_all (bq_push 2 DropOldest) [5, 6, 7 :: nat] (bq_new 2 0)) = Some ([6, 7], q')"
  using bounded_queue_burst [of 2 DropOldest "[5, 6, 7 :: nat]" 0] by auto

end
