(* ===== verification/Components.thy ===== *)
theory Components
  imports Identity_Auth Bounded_Queue
begin

text \<open>
  The data the systems exchange: the built-in components (include/mith/core/builtin_components.h),
  actions (include/mith/behaviour/action.h, action_type.h), messages (include/mith/comms/message.h),
  beacons (include/mith/comms/state_vector.h) and the self snapshot
  (include/mith/core/entity_snapshot.h).  Single-field components are their field.
\<close>

section \<open>Kinematic components\<close>

record position =
  pos_x :: f32
  pos_y :: f32
  pos_z :: f32

record velocity =
  vel_x :: f32
  vel_y :: f32
  vel_z :: f32

record orientation =
  quat_w :: f32
  quat_x :: f32
  quat_y :: f32
  quat_z :: f32

definition position_default :: position where
  "position_default = \<lparr>pos_x = f32_zero, pos_y = f32_zero, pos_z = f32_zero\<rparr>"

definition velocity_default :: velocity where
  "velocity_default = \<lparr>vel_x = f32_zero, vel_y = f32_zero, vel_z = f32_zero\<rparr>"

definition orientation_default :: orientation where
  "orientation_default = \<lparr>quat_w = f32_one, quat_x = f32_zero, quat_y = f32_zero, quat_z = f32_zero\<rparr>"

definition health_default :: u8 where
  "health_default = 100"

section \<open>Actions\<close>

definition ACTION_IDLE :: u32 where "ACTION_IDLE = 0"
definition ACTION_MOVE :: u32 where "ACTION_MOVE = 1"
definition ACTION_HOVER :: u32 where "ACTION_HOVER = 2"
definition ACTION_TRANSMIT :: u32 where "ACTION_TRANSMIT = 3"
definition ACTION_SCAN :: u32 where "ACTION_SCAN = 4"
definition ACTION_REGROUP :: u32 where "ACTION_REGROUP = 5"
definition ACTION_FOLLOW :: u32 where "ACTION_FOLLOW = 6"
definition BUILTIN_MAX :: u32 where "BUILTIN_MAX = 31"
definition ACTION_CUSTOM :: u32 where "ACTION_CUSTOM = 0x1000"

lemmas action_ids = ACTION_IDLE_def ACTION_MOVE_def ACTION_HOVER_def ACTION_TRANSMIT_def ACTION_SCAN_def ACTION_REGROUP_def
  ACTION_FOLLOW_def BUILTIN_MAX_def ACTION_CUSTOM_def

record action =
  act_type :: u32
  act_priority :: f32
  act_modifies :: "u64 list"
  act_modifies_count :: u8
  act_params :: "byte list"
  act_target :: hid

definition action_default :: action where
  "action_default = \<lparr>act_type = ACTION_IDLE, act_priority = f32_zero, act_modifies = replicate 4 0,
     act_modifies_count = 0, act_params = replicate 64 0, act_target = hid_default\<rparr>"

record permission_mask =
  allowed_builtins :: u32
  allow_user_actions :: bool

definition permission_default :: permission_mask where
  "permission_default = \<lparr>allowed_builtins = 0xFFFFFFFF, allow_user_actions = True\<rparr>"

definition allows :: "permission_mask \<Rightarrow> u32 \<Rightarrow> bool" where
  "allows m t =
     (if ACTION_CUSTOM \<le> t then allow_user_actions m
      else if BUILTIN_MAX < t then False
      else allowed_builtins m AND push_bit (unat t) 1 \<noteq> 0)"

record action_queue =
  aq_queue :: "action bqueue"
  aq_permission_rejections_total :: u32
  aq_last_rejection_tick :: u64
  aq_validated :: "action list"
  aq_validated_count :: u8

abbreviation ACTION_QUEUE_CAPACITY :: nat where "ACTION_QUEUE_CAPACITY \<equiv> 8"
abbreviation COMM_BUFFER_CAPACITY :: nat where "COMM_BUFFER_CAPACITY \<equiv> 16"

definition action_queue_default :: action_queue where
  "action_queue_default =
     \<lparr>aq_queue = bq_new ACTION_QUEUE_CAPACITY action_default, aq_permission_rejections_total = 0,
      aq_last_rejection_tick = 0, aq_validated = replicate ACTION_QUEUE_CAPACITY action_default,
      aq_validated_count = 0\<rparr>"

section \<open>Messages and beacons\<close>

definition TASK_BID :: u32 where "TASK_BID = 1"
definition TASK_ASSIGN :: u32 where "TASK_ASSIGN = 2"
definition FAULT_ALERT :: u32 where "FAULT_ALERT = 3"
definition DISCOVERY_HELLO :: u32 where "DISCOVERY_HELLO = 5"
definition DISCOVERY_WELCOME :: u32 where "DISCOVERY_WELCOME = 6"
definition MSG_CUSTOM :: u32 where "MSG_CUSTOM = 0x1000"

lemmas message_ids = TASK_BID_def TASK_ASSIGN_def FAULT_ALERT_def DISCOVERY_HELLO_def DISCOVERY_WELCOME_def MSG_CUSTOM_def

definition BROADCAST_ID :: hid where
  "BROADCAST_ID = HID 0 uuid_nil"

definition is_broadcast :: "hid \<Rightarrow> bool" where
  "is_broadcast h = is_nil (hid_unit h)"

abbreviation PAYLOAD_SIZE :: nat where "PAYLOAD_SIZE \<equiv> 128"

record message =
  msg_sender :: hid
  msg_recipient :: hid
  msg_type :: u32
  msg_seq :: u32
  msg_timestamp_s :: f32
  msg_payload :: "byte list"

definition message_default :: message where
  "message_default = \<lparr>msg_sender = hid_default, msg_recipient = BROADCAST_ID, msg_type = MSG_CUSTOM, msg_seq = 0,
     msg_timestamp_s = f32_zero, msg_payload = replicate PAYLOAD_SIZE 0\<rparr>"

record state_vector =
  sv_id :: hid
  sv_position :: position
  sv_velocity :: velocity
  sv_health :: u8
  sv_role :: u32
  sv_state :: u32
  sv_tick :: u32
  sv_sync_time_s :: f32
  sv_sender_pubkey :: identity_key
  sv_signature :: "byte list"

definition state_vector_default :: state_vector where
  "state_vector_default = \<lparr>sv_id = hid_default, sv_position = position_default, sv_velocity = velocity_default,
     sv_health = health_default, sv_role = 0, sv_state = 0, sv_tick = 0, sv_sync_time_s = f32_zero,
     sv_sender_pubkey = replicate 32 0, sv_signature = replicate 64 0\<rparr>"

text \<open>The fixed sizes of the arrays.\<close>

definition message_wf :: "message \<Rightarrow> bool" where
  "message_wf m \<longleftrightarrow> hid_wf (msg_sender m) \<and> hid_wf (msg_recipient m) \<and> length (msg_payload m) = PAYLOAD_SIZE"

definition state_vector_wf :: "state_vector \<Rightarrow> bool" where
  "state_vector_wf sv \<longleftrightarrow> hid_wf (sv_id sv) \<and> length (sv_sender_pubkey sv) = PUBLIC_KEY_LEN
     \<and> length (sv_signature sv) = SIGNATURE_LEN"

section \<open>The self entity\<close>

text \<open>The built-in components of the one self entity, as \<open>World::init\<close> attaches them.\<close>

record self_state =
  self_identity :: hid
  self_position :: position
  self_velocity :: velocity
  self_orientation :: orientation
  self_health :: u8
  self_role :: u32
  self_behaviour :: u32
  self_permission :: permission_mask
  self_actions :: action_queue
  self_comm :: "message bqueue"

definition self_default :: "hid \<Rightarrow> self_state" where
  "self_default h = \<lparr>self_identity = h, self_position = position_default, self_velocity = velocity_default,
     self_orientation = orientation_default, self_health = health_default, self_role = 0, self_behaviour = 0,
     self_permission = permission_default, self_actions = action_queue_default,
     self_comm = bq_new COMM_BUFFER_CAPACITY message_default\<rparr>"

record entity_snapshot =
  snap_id :: u32
  snap_hid :: hid
  snap_position :: position
  snap_velocity :: velocity
  snap_orientation :: orientation
  snap_health :: u8
  snap_role :: u32
  snap_state :: u32

section \<open>Permissions\<close>

lemma allows_builtin: "t < 32 \<Longrightarrow> allows m (of_nat t) \<longleftrightarrow> bit (allowed_builtins m) t"
proof -
  assume t: "t < 32"
  then have u: "unat (of_nat t :: u32) = t" by (simp add: unat_of_nat take_bit_nat_eq_self)
  have "\<not> ACTION_CUSTOM \<le> of_nat t" "\<not> BUILTIN_MAX < of_nat t"
    using t u by (simp_all add: action_ids word_le_nat_alt word_less_nat_alt)
  moreover have "(allowed_builtins m AND push_bit t 1 \<noteq> 0) \<longleftrightarrow> bit (allowed_builtins m) t"
    using t by (simp add: bit_iff_and_push_bit_not_eq_0)
  ultimately show ?thesis by (simp add: allows_def u)
qed

lemma allows_reserved: "BUILTIN_MAX < t \<Longrightarrow> t < ACTION_CUSTOM \<Longrightarrow> \<not> allows m t"
  by (auto simp: allows_def dest: leD)

lemma allows_custom: "ACTION_CUSTOM \<le> t \<Longrightarrow> allows m t \<longleftrightarrow> allow_user_actions m"
  by (simp add: allows_def)

end
