(* ===== verification/Wire.thy ===== *)
theory Wire
  imports Components
begin

text \<open>
  The datagram format (include/mith/comms/udp_wire.h, src/comms/udp_wire.cpp).  An encoder returns the
  bytes it writes, the empty list where the code returns 0 because the capacity is too small; a
  decoder takes the buffer.  The results are exact inverses for both frame types, and that the
  signed prefix of a beacon determines every field but the signature.
\<close>

section \<open>Encoding and decoding\<close>

definition TAG_BEACON :: byte where "TAG_BEACON = 0x01"
definition TAG_MESSAGE :: byte where "TAG_MESSAGE = 0x02"
definition FRAME_HEADER_BYTES :: nat where "FRAME_HEADER_BYTES = 5"
definition BEACON_PAYLOAD_BYTES :: nat where "BEACON_PAYLOAD_BYTES = 155"
definition BEACON_SIGNED_PREFIX_BYTES :: nat where "BEACON_SIGNED_PREFIX_BYTES = 91"
definition MESSAGE_PAYLOAD_BYTES :: nat where "MESSAGE_PAYLOAD_BYTES = 176"

lemmas wire_consts = TAG_BEACON_def TAG_MESSAGE_def FRAME_HEADER_BYTES_def BEACON_PAYLOAD_BYTES_def
  BEACON_SIGNED_PREFIX_BYTES_def MESSAGE_PAYLOAD_BYTES_def

definition MAX_FRAME_BYTES :: nat where
  "MAX_FRAME_BYTES = FRAME_HEADER_BYTES + MESSAGE_PAYLOAD_BYTES"

definition put_hid :: "hid \<Rightarrow> byte list" where
  "put_hid h = put_u16 (hid_swarm h) @ take 16 (uuid_bytes (hid_unit h))"

definition get_hid :: "byte list \<Rightarrow> hid" where
  "get_hid p = HID (get_u16 p) (UUID (take 16 (drop 2 p)))"

definition serialise_beacon_signed_payload :: "state_vector \<Rightarrow> nat \<Rightarrow> byte list" where
  "serialise_beacon_signed_payload sv cap =
     (if cap < BEACON_SIGNED_PREFIX_BYTES then []
      else put_hid (sv_id sv)
        @ put_f32 (pos_x (sv_position sv)) @ put_f32 (pos_y (sv_position sv)) @ put_f32 (pos_z (sv_position sv))
        @ put_f32 (vel_x (sv_velocity sv)) @ put_f32 (vel_y (sv_velocity sv)) @ put_f32 (vel_z (sv_velocity sv))
        @ [sv_health sv]
        @ put_u32 (sv_role sv) @ put_u32 (sv_state sv) @ put_u32 (sv_tick sv) @ put_f32 (sv_sync_time_s sv)
        @ take 32 (sv_sender_pubkey sv))"

definition encode_beacon :: "state_vector \<Rightarrow> nat \<Rightarrow> byte list" where
  "encode_beacon sv cap =
     (if cap < FRAME_HEADER_BYTES + BEACON_PAYLOAD_BYTES then []
      else [TAG_BEACON] @ put_u32 (of_nat BEACON_PAYLOAD_BYTES)
        @ serialise_beacon_signed_payload sv BEACON_SIGNED_PREFIX_BYTES
        @ take SIGNATURE_LEN (sv_signature sv))"

definition encode_message :: "message \<Rightarrow> nat \<Rightarrow> byte list" where
  "encode_message m cap =
     (if cap < FRAME_HEADER_BYTES + MESSAGE_PAYLOAD_BYTES then []
      else [TAG_MESSAGE] @ put_u32 (of_nat MESSAGE_PAYLOAD_BYTES)
        @ put_hid (msg_sender m) @ put_hid (msg_recipient m)
        @ put_u32 (msg_type m) @ put_u32 (msg_seq m) @ put_f32 (msg_timestamp_s m)
        @ take PAYLOAD_SIZE (msg_payload m))"

definition decode_beacon :: "byte list \<Rightarrow> state_vector option" where
  "decode_beacon buf =
     (if length buf < FRAME_HEADER_BYTES + BEACON_PAYLOAD_BYTES then None
      else if buf ! 0 \<noteq> TAG_BEACON then None
      else if get_u32 (drop 1 buf) \<noteq> of_nat BEACON_PAYLOAD_BYTES then None
      else
        let p = drop FRAME_HEADER_BYTES buf;
            i = get_hid p; p = drop 18 p;
            x = get_f32 p; p = drop 4 p;
            y = get_f32 p; p = drop 4 p;
            z = get_f32 p; p = drop 4 p;
            vx = get_f32 p; p = drop 4 p;
            vy = get_f32 p; p = drop 4 p;
            vz = get_f32 p; p = drop 4 p;
            health = p ! 0; p = drop 1 p;
            role = get_u32 p; p = drop 4 p;
            state = get_u32 p; p = drop 4 p;
            tick = get_u32 p; p = drop 4 p;
            sync = get_f32 p; p = drop 4 p;
            key = take 32 p; p = drop 32 p
        in Some \<lparr>sv_id = i, sv_position = \<lparr>pos_x = x, pos_y = y, pos_z = z\<rparr>,
             sv_velocity = \<lparr>vel_x = vx, vel_y = vy, vel_z = vz\<rparr>, sv_health = health, sv_role = role,
             sv_state = state, sv_tick = tick, sv_sync_time_s = sync, sv_sender_pubkey = key,
             sv_signature = take SIGNATURE_LEN p\<rparr>)"

definition decode_message :: "byte list \<Rightarrow> message option" where
  "decode_message buf =
     (if length buf < FRAME_HEADER_BYTES + MESSAGE_PAYLOAD_BYTES then None
      else if buf ! 0 \<noteq> TAG_MESSAGE then None
      else if get_u32 (drop 1 buf) \<noteq> of_nat MESSAGE_PAYLOAD_BYTES then None
      else
        let p = drop FRAME_HEADER_BYTES buf;
            sender = get_hid p; p = drop 18 p;
            recipient = get_hid p; p = drop 18 p;
            type = get_u32 p; p = drop 4 p;
            seq = get_u32 p; p = drop 4 p;
            ts = get_f32 p; p = drop 4 p
        in Some \<lparr>msg_sender = sender, msg_recipient = recipient, msg_type = type, msg_seq = seq,
             msg_timestamp_s = ts, msg_payload = take PAYLOAD_SIZE p\<rparr>)"

definition peek_tag :: "byte list \<Rightarrow> byte" where
  "peek_tag buf = (if 0 < length buf then buf ! 0 else 0)"

section \<open>Fields\<close>

lemma length_put_hid [simp]: "hid_wf h \<Longrightarrow> length (put_hid h) = 18"
  by (simp add: put_hid_def hid_wf_def uuid_wf_def)

lemma get_put_hid [simp]: "hid_wf h \<Longrightarrow> get_hid (put_hid h @ xs) = h"
  by (simp add: put_hid_def get_hid_def hid_wf_def uuid_wf_def hid.expand uuid.expand)

lemma get_hid_wf: "18 \<le> length p \<Longrightarrow> hid_wf (get_hid p)"
  by (simp add: get_hid_def hid_wf_def uuid_wf_def)

lemma put_get_u32_take: "4 \<le> length p \<Longrightarrow> put_u32 (get_u32 p) = take 4 p"
proof -
  assume "4 \<le> length p"
  then obtain a b c d r where "p = a # b # c # d # r"
    by (auto simp: numeral_eq_Suc Suc_le_length_iff)
  then show ?thesis using put_get_u32 [of a b c d] by (simp add: get_u32_def)
qed

lemma put_get_f32_take: "4 \<le> length p \<Longrightarrow> put_f32 (get_f32 p) = take 4 p"
  by (simp add: put_f32_def get_f32_def put_get_u32_take)

lemma put_get_hid_take: "18 \<le> length p \<Longrightarrow> put_hid (get_hid p) = take 18 p"
proof -
  assume "18 \<le> length p"
  then obtain a b r where p: "p = a # b # r" "16 \<le> length r"
    by (cases p; cases "tl p") auto
  then show ?thesis using put_get_u16 [of a b] by (simp add: put_hid_def get_hid_def get_u16_def)
qed

lemmas field_simps_wire = put_get_u32_take put_get_f32_take put_get_hid_take

lemma take_field: "take n p @ take m (drop n p) = take (n + m) p"
  by (simp add: take_add)

lemma take_field_more: "take n p @ take m (drop n p) @ xs = take (n + m) p @ xs"
  by (simp add: take_add)

lemma nth_field: "n < length p \<Longrightarrow> take n p @ p ! n # xs = take (Suc n) p @ xs"
  by (simp add: take_Suc_conv_app_nth)

section \<open>Frames\<close>

lemma length_serialise_beacon:
  "state_vector_wf sv \<Longrightarrow> BEACON_SIGNED_PREFIX_BYTES \<le> cap \<Longrightarrow>
     length (serialise_beacon_signed_payload sv cap) = BEACON_SIGNED_PREFIX_BYTES"
  by (simp add: serialise_beacon_signed_payload_def wire_consts state_vector_wf_def)

lemma length_encode_beacon:
  "state_vector_wf sv \<Longrightarrow> 160 \<le> cap \<Longrightarrow> length (encode_beacon sv cap) = 160"
  by (simp add: encode_beacon_def length_serialise_beacon) (simp add: wire_consts state_vector_wf_def)

lemma length_encode_message:
  "message_wf m \<Longrightarrow> 181 \<le> cap \<Longrightarrow> length (encode_message m cap) = 181"
  by (simp add: encode_message_def wire_consts message_wf_def)

lemma decode_encode_beacon:
  assumes "state_vector_wf sv" "160 \<le> cap"
  shows "decode_beacon (encode_beacon sv cap @ xs) = Some sv"
proof -
  have "length (encode_beacon sv cap @ xs) \<ge> 160" using length_encode_beacon [OF assms] by simp
  then show ?thesis
    using assms unfolding decode_beacon_def
    by (simp add: encode_beacon_def serialise_beacon_signed_payload_def wire_consts state_vector_wf_def Let_def)
qed

lemma decode_encode_message:
  assumes "message_wf m" "181 \<le> cap"
  shows "decode_message (encode_message m cap @ xs) = Some m"
proof -
  have "length (encode_message m cap @ xs) \<ge> 181" using length_encode_message [OF assms] by simp
  then show ?thesis
    using assms unfolding decode_message_def
    by (simp add: encode_message_def wire_consts message_wf_def Let_def)
qed

lemma header_bytes:
  assumes "5 \<le> length buf" "buf ! 0 = t" "get_u32 (drop 1 buf) = n"
  shows "[t] @ put_u32 n = take 5 buf"
  using assms put_get_u32_take [of "drop 1 buf"] by (cases buf) auto

lemma decode_beacon_Some:
  assumes "decode_beacon buf = Some sv"
  shows "state_vector_wf sv" "encode_beacon sv 160 = take 160 buf"
proof -
  from assms have len: "160 \<le> length buf" and hdr: "buf ! 0 = TAG_BEACON" "get_u32 (drop 1 buf) = of_nat BEACON_PAYLOAD_BYTES"
    by (auto simp: decode_beacon_def wire_consts split: if_splits)
  from assms len hdr show "state_vector_wf sv"
    by (auto simp: decode_beacon_def wire_consts state_vector_wf_def get_hid_wf Let_def)
  have h: "[TAG_BEACON] @ put_u32 (of_nat BEACON_PAYLOAD_BYTES) = take 5 buf"
    using len hdr by (intro header_bytes) simp_all
  show "encode_beacon sv 160 = take 160 buf"
    using assms len hdr unfolding encode_beacon_def append_assoc [symmetric] h
    by (auto simp: decode_beacon_def serialise_beacon_signed_payload_def Let_def field_simps_wire take_field take_field_more
        nth_field FRAME_HEADER_BYTES_def BEACON_PAYLOAD_BYTES_def BEACON_SIGNED_PREFIX_BYTES_def)
qed

lemma decode_message_Some:
  assumes "decode_message buf = Some m"
  shows "message_wf m" "encode_message m 181 = take 181 buf"
proof -
  from assms have len: "181 \<le> length buf" and hdr: "buf ! 0 = TAG_MESSAGE" "get_u32 (drop 1 buf) = of_nat MESSAGE_PAYLOAD_BYTES"
    by (auto simp: decode_message_def wire_consts split: if_splits)
  from assms len hdr show "message_wf m"
    by (auto simp: decode_message_def wire_consts message_wf_def get_hid_wf Let_def)
  have h: "[TAG_MESSAGE] @ put_u32 (of_nat MESSAGE_PAYLOAD_BYTES) = take 5 buf"
    using len hdr by (intro header_bytes) simp_all
  show "encode_message m 181 = take 181 buf"
    using assms len hdr unfolding encode_message_def append_assoc [symmetric] h
    by (auto simp: decode_message_def Let_def field_simps_wire take_field take_field_more FRAME_HEADER_BYTES_def MESSAGE_PAYLOAD_BYTES_def)
qed

section \<open>Results\<close>

text \<open>
  Claim C18.  The beacon codec is exact in both directions: a datagram decodes to a state vector if and
  only if the vector has arrays of the declared sizes and the first 160 bytes of the datagram are its
  encoding.  So every beacon that is sent is read back unchanged, bytes after the frame are ignored,
  and every other datagram (too short, another tag, another length field) is refused.
\<close>

theorem beacon_codec_exact:
  "decode_beacon buf = Some sv \<longleftrightarrow> state_vector_wf sv \<and> take 160 buf = encode_beacon sv 160"
proof
  assume "state_vector_wf sv \<and> take 160 buf = encode_beacon sv 160"
  then show "decode_beacon buf = Some sv"
    using decode_encode_beacon [of sv 160 "drop 160 buf"] append_take_drop_id [of 160 buf] by simp
qed (simp add: decode_beacon_Some)

text \<open>
  The message codec is exact in the same sense on 181-byte frames, and a frame is never read
  as both kinds: what decodes as a message does not decode as a beacon.
\<close>

theorem message_codec_exact:
  "(decode_message buf = Some m \<longleftrightarrow> message_wf m \<and> take 181 buf = encode_message m 181)
   \<and> (decode_message buf = None \<or> decode_beacon buf = None)"
proof (intro conjI iffI)
  assume "message_wf m \<and> take 181 buf = encode_message m 181"
  then show "decode_message buf = Some m"
    using decode_encode_message [of m 181 "drop 181 buf"] append_take_drop_id [of 181 buf] by simp
next
  show "decode_message buf = None \<or> decode_beacon buf = None"
    by (simp add: decode_message_def decode_beacon_def wire_consts)
qed (simp_all add: decode_message_Some)

lemma encode_capacity:
  "encode_beacon sv cap = (if cap < 160 then [] else encode_beacon sv 160)"
  "encode_message m cap = (if cap < 181 then [] else encode_message m 181)"
  by (simp_all add: encode_beacon_def encode_message_def wire_consts)

text \<open>
  Claim C24.  The 91 bytes a sender signs cover everything but the signature: two beacons with the same
  signed prefix agree in identity, position, velocity, health, role, state, tick, time and public key.
\<close>

theorem signed_prefix_binds_beacon:
  assumes "state_vector_wf a" "state_vector_wf b"
  shows "serialise_beacon_signed_payload a BEACON_SIGNED_PREFIX_BYTES = serialise_beacon_signed_payload b BEACON_SIGNED_PREFIX_BYTES
    \<longleftrightarrow> a\<lparr>sv_signature := []\<rparr> = b\<lparr>sv_signature := []\<rparr>"
proof
  let ?p = "\<lambda>sv. serialise_beacon_signed_payload sv BEACON_SIGNED_PREFIX_BYTES"
  let ?z = "\<lambda>sv. sv\<lparr>sv_signature := replicate 64 0\<rparr>"
  assume "?p a = ?p b"
  then have "encode_beacon (?z a) 160 = encode_beacon (?z b) 160"
    by (simp add: encode_beacon_def serialise_beacon_signed_payload_def wire_consts)
  moreover have wf: "state_vector_wf (?z a)" "state_vector_wf (?z b)" using assms by (simp_all add: state_vector_wf_def)
  ultimately have "?z a = ?z b"
    using decode_encode_beacon [OF wf(1), of 160 "[]"] decode_encode_beacon [OF wf(2), of 160 "[]"] by simp
  then have "(?z a)\<lparr>sv_signature := []\<rparr> = (?z b)\<lparr>sv_signature := []\<rparr>" by (rule arg_cong)
  then show "a\<lparr>sv_signature := []\<rparr> = b\<lparr>sv_signature := []\<rparr>" by simp
next
  assume eq: "a\<lparr>sv_signature := []\<rparr> = b\<lparr>sv_signature := []\<rparr>"
  have "serialise_beacon_signed_payload (sv\<lparr>sv_signature := []\<rparr>) n = serialise_beacon_signed_payload sv n" for sv n
    by (simp add: serialise_beacon_signed_payload_def)
  with eq show "serialise_beacon_signed_payload a BEACON_SIGNED_PREFIX_BYTES = serialise_beacon_signed_payload b BEACON_SIGNED_PREFIX_BYTES"
    by metis
qed

theorem signed_prefix_binds_beacon_witness:
  "serialise_beacon_signed_payload state_vector_default BEACON_SIGNED_PREFIX_BYTES
    \<noteq> serialise_beacon_signed_payload (state_vector_default\<lparr>sv_health := 7\<rparr>) BEACON_SIGNED_PREFIX_BYTES"
  using signed_prefix_binds_beacon [of state_vector_default "state_vector_default\<lparr>sv_health := 7\<rparr>"]
  by (simp add: state_vector_wf_def state_vector_default_def hid_wf_def uuid_wf_def hid_default_def uuid_nil_def health_default_def)

end
