(* ===== verification/Serial_Framing.thy ===== *)
theory Serial_Framing
  imports Byte_Order
begin

text \<open>
  Framing of a byte stream (include/mith/comms/serial_framing.h, src/comms/serial_framing.cpp): the
  encoder and the five-state parser.  The callback of \<open>feed\<close> is the list of frames it is called with.
  The results: the index into the buffer stays in bounds on every input; every byte is accounted for;
  and frames separated by line noise that does not contain the two sync bytes in a row are all
  recovered.
\<close>

section \<open>Encoder and parser\<close>

definition SYNC_BYTE_1 :: byte where "SYNC_BYTE_1 = 0xA5"
definition SYNC_BYTE_2 :: byte where "SYNC_BYTE_2 = 0x5A"
definition SERIAL_HEADER_BYTES :: nat where "SERIAL_HEADER_BYTES = 4"
definition MAX_PAYLOAD_BYTES :: nat where "MAX_PAYLOAD_BYTES = 1500"

lemmas serial_consts = SYNC_BYTE_1_def SYNC_BYTE_2_def SERIAL_HEADER_BYTES_def MAX_PAYLOAD_BYTES_def

definition serial_encode :: "byte list \<Rightarrow> nat \<Rightarrow> byte list" where
  "serial_encode payload cap =
     (if MAX_PAYLOAD_BYTES < length payload then []
      else if cap < SERIAL_HEADER_BYTES + length payload then []
      else [SYNC_BYTE_1, SYNC_BYTE_2, byte_at 0 (of_nat (length payload) :: u64), byte_at 1 (of_nat (length payload) :: u64)]
           @ payload)"

datatype parser_state = WaitSync1 | WaitSync2 | WaitLenLo | WaitLenHi | ReadPayload

record parser =
  ps_state :: parser_state
  ps_expected_len :: u16
  ps_filled :: u16
  ps_buffer :: "byte list"
  ps_frames_decoded :: u64
  ps_bytes_dropped :: u64

definition parser_new :: "nat \<Rightarrow> parser" where
  "parser_new max_payload =
     \<lparr>ps_state = WaitSync1, ps_expected_len = 0, ps_filled = 0, ps_buffer = replicate max_payload 0,
      ps_frames_decoded = 0, ps_bytes_dropped = 0\<rparr>"

definition parser_reset :: "parser \<Rightarrow> parser" where
  "parser_reset p = p\<lparr>ps_state := WaitSync1, ps_expected_len := 0, ps_filled := 0\<rparr>"

text \<open>One iteration of the loop of \<open>feed\<close>: the switch on the state.\<close>

definition parser_step :: "byte \<Rightarrow> parser \<Rightarrow> byte list list \<times> parser" where
  "parser_step b p =
     (case ps_state p of
        WaitSync1 \<Rightarrow>
          if b = SYNC_BYTE_1 then ([], p\<lparr>ps_state := WaitSync2\<rparr>)
          else ([], p\<lparr>ps_bytes_dropped := ps_bytes_dropped p + 1\<rparr>)
      | WaitSync2 \<Rightarrow>
          if b = SYNC_BYTE_2 then ([], p\<lparr>ps_state := WaitLenLo\<rparr>)
          else if b = SYNC_BYTE_1 then ([], p\<lparr>ps_bytes_dropped := ps_bytes_dropped p + 1\<rparr>)
          else ([], p\<lparr>ps_state := WaitSync1, ps_bytes_dropped := ps_bytes_dropped p + 2\<rparr>)
      | WaitLenLo \<Rightarrow> ([], p\<lparr>ps_expected_len := ucast b, ps_state := WaitLenHi\<rparr>)
      | WaitLenHi \<Rightarrow>
          let n = ps_expected_len p OR push_bit 8 (ucast b); p = p\<lparr>ps_expected_len := n\<rparr> in
          if length (ps_buffer p) < unat n then
            ([], parser_reset (p\<lparr>ps_bytes_dropped := ps_bytes_dropped p + of_nat SERIAL_HEADER_BYTES\<rparr>))
          else if n = 0 then ([[]], parser_reset (p\<lparr>ps_frames_decoded := ps_frames_decoded p + 1\<rparr>))
          else ([], p\<lparr>ps_filled := 0, ps_state := ReadPayload\<rparr>)
      | ReadPayload \<Rightarrow>
          let p = p\<lparr>ps_buffer := (ps_buffer p)[unat (ps_filled p) := b], ps_filled := ps_filled p + 1\<rparr> in
          if ps_filled p = ps_expected_len p then
            ([take (unat (ps_filled p)) (ps_buffer p)], parser_reset (p\<lparr>ps_frames_decoded := ps_frames_decoded p + 1\<rparr>))
          else ([], p))"

fun parser_feed :: "byte list \<Rightarrow> parser \<Rightarrow> byte list list \<times> parser" where
  "parser_feed [] p = ([], p)"
| "parser_feed (b # bs) p =
     (let (fs, p1) = parser_step b p; (gs, p2) = parser_feed bs p1 in (fs @ gs, p2))"

section \<open>The buffer index stays in bounds\<close>

definition parser_inv :: "parser \<Rightarrow> bool" where
  "parser_inv p \<longleftrightarrow>
     (ps_state p = ReadPayload \<longrightarrow>
        ps_filled p < ps_expected_len p \<and> unat (ps_expected_len p) \<le> length (ps_buffer p))"

lemma unat_Suc_less: "(a :: 'a::len word) < b \<Longrightarrow> unat (a + 1) = Suc (unat a)"
proof -
  assume "a < b"
  moreover have "unat b < 2 ^ LENGTH('a)" by (rule unsigned_less)
  ultimately have "unat a + 1 < 2 ^ LENGTH('a)" unfolding word_less_nat_alt by linarith
  then show ?thesis by (simp add: unat_word_ariths)
qed

lemma filled_next:
  assumes "(a :: u16) < b" "a + 1 \<noteq> b"
  shows "a + 1 < b"
proof -
  have "unat (a + 1) \<noteq> unat b" using assms(2) by (simp only: word_unat_eq_iff) simp
  with unat_Suc_less [OF assms(1)] assms(1) show ?thesis by (simp add: word_less_nat_alt)
qed

lemma parser_step_inv: "parser_inv p \<Longrightarrow> parser_inv (snd (parser_step b p))"
  by (auto simp: parser_inv_def parser_step_def parser_reset_def Let_def word_neq_0_conv filled_next split: parser_state.split)

lemma parser_step_buffer [simp]: "length (ps_buffer (snd (parser_step b p))) = length (ps_buffer p)"
  by (auto simp: parser_step_def parser_reset_def Let_def split: parser_state.split)

lemma parser_feed_append:
  "parser_feed (as @ bs) p = (let (fs, p1) = parser_feed as p; (gs, p2) = parser_feed bs p1 in (fs @ gs, p2))"
  by (induction as arbitrary: p) (simp_all add: split_beta Let_def)

lemma parser_feed_inv:
  "parser_inv p \<Longrightarrow> parser_inv (snd (parser_feed bs p)) \<and> length (ps_buffer (snd (parser_feed bs p))) = length (ps_buffer p)"
  by (induction bs arbitrary: p) (simp_all add: split_beta Let_def parser_step_inv)

lemma parser_feed_buffer: "length (ps_buffer (snd (parser_feed bs p))) = length (ps_buffer p)"
  by (induction bs arbitrary: p) (simp_all add: split_beta Let_def)

lemma parser_new_inv: "parser_inv (parser_new n)"
  by (simp add: parser_inv_def parser_new_def)

text \<open>
  Memory safety of the stream parser: after any bytes whatsoever the next write
  \<open>buffer_[filled_]\<close> is inside the buffer, whatever capacity the parser was built with.
\<close>

theorem parser_index_in_bounds:
  "ps_state (snd (parser_feed bs (parser_new n))) = ReadPayload \<longrightarrow>
     unat (ps_filled (snd (parser_feed bs (parser_new n)))) < length (ps_buffer (snd (parser_feed bs (parser_new n))))"
  using parser_feed_inv [OF parser_new_inv, of bs n]
  by (auto simp: parser_inv_def word_less_nat_alt)

theorem parser_index_in_bounds_witness:
  "ps_state (snd (parser_feed [0xA5, 0x5A, 2, 0, 9] (parser_new 4))) = ReadPayload
   \<and> unat (ps_filled (snd (parser_feed [0xA5, 0x5A, 2, 0, 9] (parser_new 4)))) < 4"
proof -
  have "ps_state (snd (parser_feed [0xA5, 0x5A, 2, 0, 9] (parser_new 4))) = ReadPayload"
    "length (ps_buffer (snd (parser_feed [0xA5, 0x5A, 2, 0, 9] (parser_new 4)))) = 4" by code_simp+
  with parser_index_in_bounds [of "[0xA5, 0x5A, 2, 0, 9]" 4] show ?thesis by simp
qed

section \<open>Every byte is accounted for\<close>

definition pending :: "parser \<Rightarrow> nat" where
  "pending p = (case ps_state p of WaitSync1 \<Rightarrow> 0 | WaitSync2 \<Rightarrow> 1 | WaitLenLo \<Rightarrow> 2 | WaitLenHi \<Rightarrow> 3
     | ReadPayload \<Rightarrow> 4 + unat (ps_filled p))"

definition framed :: "byte list list \<Rightarrow> nat" where
  "framed fs = sum_list (map (\<lambda>f. SERIAL_HEADER_BYTES + length f) fs)"

lemma parser_step_account:
  assumes "parser_inv p" "parser_step b p = (fs, p')"
  shows "ps_bytes_dropped p' + of_nat (framed fs) + of_nat (pending p') = ps_bytes_dropped p + of_nat (pending p) + 1"
    and "ps_frames_decoded p' = ps_frames_decoded p + of_nat (length fs)"
proof -
  show "ps_bytes_dropped p' + of_nat (framed fs) + of_nat (pending p') = ps_bytes_dropped p + of_nat (pending p) + 1"
  proof (cases "ps_state p")
    case ReadPayload
    with assms(1) have lt: "ps_filled p < ps_expected_len p" "unat (ps_expected_len p) \<le> length (ps_buffer p)"
      by (simp_all add: parser_inv_def)
    show ?thesis
      using assms(2) ReadPayload unat_Suc_less [OF lt(1)] lt(2)
      by (auto simp: parser_step_def Let_def parser_reset_def pending_def framed_def serial_consts min_def split: if_splits)
  qed (use assms(2) in \<open>auto simp: parser_step_def Let_def parser_reset_def pending_def framed_def serial_consts
         split: if_splits\<close>)
  show "ps_frames_decoded p' = ps_frames_decoded p + of_nat (length fs)"
    using assms(2)
    by (auto simp: parser_step_def Let_def parser_reset_def split: if_splits parser_state.splits)
qed

lemma framed_append: "framed (fs @ gs) = framed fs + framed gs"
  by (simp add: framed_def)

lemma parser_feed_account:
  assumes "parser_inv p" "parser_feed bs p = (fs, p')"
  shows "ps_bytes_dropped p' + of_nat (framed fs) + of_nat (pending p') = ps_bytes_dropped p + of_nat (pending p) + of_nat (length bs)
    \<and> ps_frames_decoded p' = ps_frames_decoded p + of_nat (length fs)"
  using assms
proof (induction bs arbitrary: p fs)
  case (Cons b bs)
  obtain fs1 p1 where s: "parser_step b p = (fs1, p1)" by (cases "parser_step b p")
  obtain fs2 p2 where f: "parser_feed bs p1 = (fs2, p2)" by (cases "parser_feed bs p1")
  have inv: "parser_inv p1" using parser_step_inv [OF Cons.prems(1), of b] s by simp
  note one = parser_step_account [OF Cons.prems(1) s] and rest = Cons.IH [OF inv, of fs2]
  from Cons.prems(2) s f have e: "p' = p2" "fs = fs1 @ fs2" by auto
  have "ps_bytes_dropped p' + of_nat (framed fs) + of_nat (pending p')
      = of_nat (framed fs1) + (ps_bytes_dropped p1 + of_nat (pending p1)) + of_nat (length bs)"
    using rest f by (simp add: e framed_append algebra_simps)
  also have "\<dots> = ps_bytes_dropped p + of_nat (pending p) + of_nat (length (b # bs))"
    using one(1) by (simp add: algebra_simps)
  finally show ?case using rest f one(2) by (simp add: e)
qed (simp add: framed_def)

text \<open>
  Conservation of bytes, for any input to a new parser: the dropped bytes, the headers and
  payloads of the delivered frames and the bytes of the frame in progress add up to the bytes fed,
  and the frame counter is the number of callbacks (both modulo \<open>2^64\<close>, the width of the counters).
\<close>

theorem parser_accounts_for_every_byte:
  "(let (fs, p) = parser_feed bs (parser_new n) in
      ps_bytes_dropped p + of_nat (framed fs) + of_nat (pending p) = of_nat (length bs)
      \<and> ps_frames_decoded p = of_nat (length fs))"
  using parser_feed_account [OF parser_new_inv, of bs n]
  by (auto simp: parser_new_def pending_def Let_def split_beta)

section \<open>Recovery of frames\<close>

text \<open>Noise: no sync pair, also not with a sync byte before it where \<open>no_sync (SYNC_BYTE_1 # noise)\<close>.\<close>

fun no_sync :: "byte list \<Rightarrow> bool" where
  "no_sync (a # b # r) = (\<not> (a = SYNC_BYTE_1 \<and> b = SYNC_BYTE_2) \<and> no_sync (b # r))"
| "no_sync _ = True"

lemma sync_bytes_differ [simp]: "SYNC_BYTE_1 \<noteq> SYNC_BYTE_2" "SYNC_BYTE_2 \<noteq> SYNC_BYTE_1"
  by (simp_all add: serial_consts)

lemma noise_skipped:
  assumes "ps_state p = WaitSync1 \<and> no_sync noise \<or> ps_state p = WaitSync2 \<and> no_sync (SYNC_BYTE_1 # noise)"
  obtains p' where "parser_feed noise p = ([], p')" "ps_state p' = WaitSync1 \<or> ps_state p' = WaitSync2"
  using assms
proof (induction noise arbitrary: p thesis)
  case (Cons b bs)
  let ?p = "snd (parser_step b p)"
  have step: "parser_step b p = ([], ?p)"
    "ps_state ?p = WaitSync1 \<and> no_sync bs \<or> ps_state ?p = WaitSync2 \<and> no_sync (SYNC_BYTE_1 # bs)"
    using Cons.prems(2) by (cases bs; auto simp: parser_step_def)+
  obtain p' where "parser_feed bs ?p = ([], p')" "ps_state p' = WaitSync1 \<or> ps_state p' = WaitSync2"
    using Cons.IH step(2) by blast
  moreover have "fst (parser_step b p) = []" using step(1) by (metis fst_conv)
  ultimately show ?case by (intro Cons.prems(1) [of p']) (simp_all add: Let_def split_beta)
qed simp

lemma len_bytes_join:
  assumes "n < 2 ^ 16"
  shows "unat (ucast (byte_at 0 (of_nat n :: u64)) OR push_bit 8 (ucast (byte_at 1 (of_nat n :: u64))) :: u16) = n"
proof -
  have "ucast (byte_at 0 w) OR push_bit 8 (ucast (byte_at 1 w)) = (ucast w :: u16)" for w :: u64
  proof (rule bit_word_eqI)
    fix i assume "i < LENGTH(16)"
    then show "bit (ucast (byte_at 0 w) OR push_bit 8 (ucast (byte_at 1 w)) :: u16) i = bit (ucast w :: u16) i"
      by (cases "i < 8") (auto simp: bit_simps bit_byte_at)
  qed
  then show ?thesis using assms by (simp add: unsigned_ucast_eq unat_of_nat take_bit_nat_eq_self)
qed

text \<open>Reading the rest of a payload.\<close>

lemma take_update_last: "i < length xs \<Longrightarrow> take (Suc i) (xs[i := b]) = take i xs @ [b]"
  by (simp add: take_Suc_conv_app_nth)

lemma payload_read:
  assumes "ps_state p = ReadPayload" "unat (ps_expected_len p) \<le> length (ps_buffer p)"
    and "unat (ps_filled p) + length xs = unat (ps_expected_len p)" "xs \<noteq> []"
  shows "fst (parser_feed xs p) = [take (unat (ps_filled p)) (ps_buffer p) @ xs]
    \<and> ps_state (snd (parser_feed xs p)) = WaitSync1"
  using assms
proof (induction xs arbitrary: p)
  case (Cons b bs)
  then have lt: "ps_filled p < ps_expected_len p" by (simp add: word_less_nat_alt)
  note suc = unat_Suc_less [OF lt]
  show ?case
  proof (cases "bs = []")
    case True
    with Cons.prems suc have "ps_filled p + 1 = ps_expected_len p" by (simp add: word_unat_eq_iff)
    with Cons.prems True suc take_update_last [of "unat (ps_filled p)" "ps_buffer p" b] show ?thesis
      by (simp add: parser_step_def parser_reset_def Let_def)
  next
    case False
    let ?p = "p\<lparr>ps_buffer := (ps_buffer p)[unat (ps_filled p) := b], ps_filled := ps_filled p + 1\<rparr>"
    from False Cons.prems suc have "ps_filled p + 1 \<noteq> ps_expected_len p" by auto
    with Cons.prems have step: "parser_step b p = ([], ?p)" by (simp add: parser_step_def Let_def)
    have "fst (parser_feed bs ?p) = [take (unat (ps_filled ?p)) (ps_buffer ?p) @ bs]
      \<and> ps_state (snd (parser_feed bs ?p)) = WaitSync1"
      using Cons.prems False suc by (intro Cons.IH) simp_all
    then show ?thesis using Cons.prems step suc by (simp add: split_beta Let_def take_update_last)
  qed
qed simp

lemma frame_read:
  assumes "ps_state p = WaitSync1 \<or> ps_state p = WaitSync2" "length payload \<le> MAX_PAYLOAD_BYTES"
    and "length payload \<le> length (ps_buffer p)" "SERIAL_HEADER_BYTES + length payload \<le> cap"
  obtains p' where "parser_feed (serial_encode payload cap) p = ([payload], p')" "ps_state p' = WaitSync1"
proof -
  let ?n = "ucast (byte_at 0 (of_nat (length payload) :: u64)) OR push_bit 8 (ucast (byte_at 1 (of_nat (length payload) :: u64))) :: u16"
  have n: "unat ?n = length payload" using assms(2) by (intro len_bytes_join) (simp add: serial_consts)
  have enc: "serial_encode payload cap = [SYNC_BYTE_1, SYNC_BYTE_2, byte_at 0 (of_nat (length payload) :: u64),
      byte_at 1 (of_nat (length payload) :: u64)] @ payload"
    using assms by (simp add: serial_encode_def)
  show ?thesis
  proof (cases "payload = []")
    case True
    then show ?thesis
      using assms(1,3) n
      by (intro that [of "snd (parser_feed (serial_encode payload cap) p)"])
        (auto simp: enc [unfolded True] parser_step_def parser_reset_def Let_def byte_at_def prod_eq_iff)
  next
    case False
    then have "?n \<noteq> 0" using n by (metis length_0_conv unat_0)
    let ?p4 = "snd (parser_feed (take 4 (serial_encode payload cap)) p)"
    have four: "fst (parser_feed (take 4 (serial_encode payload cap)) p) = []" "ps_state ?p4 = ReadPayload"
      "ps_filled ?p4 = 0" "ps_expected_len ?p4 = ?n" "length (ps_buffer ?p4) = length (ps_buffer p)"
      using assms(1,3) n \<open>?n \<noteq> 0\<close> by (auto simp: enc parser_step_def parser_reset_def Let_def)
    have "fst (parser_feed payload ?p4) = [payload] \<and> ps_state (snd (parser_feed payload ?p4)) = WaitSync1"
      using payload_read [of ?p4 payload] four n assms(3) False by simp
    moreover have "serial_encode payload cap = take 4 (serial_encode payload cap) @ payload"
      by (simp add: enc)
    ultimately show ?thesis
      using four(1) parser_feed_append [of "take 4 (serial_encode payload cap)" payload p]
      by (intro that [of "snd (parser_feed (serial_encode payload cap) p)"]) (auto simp: Let_def split_beta prod_eq_iff)
  qed
qed

lemma noisy_frames_read:
  assumes "ps_state p = WaitSync1" "length (ps_buffer p) = MAX_PAYLOAD_BYTES"
    and "\<forall>(noise, payload) \<in> set ts. no_sync noise \<and> length payload \<le> MAX_PAYLOAD_BYTES"
  shows "fst (parser_feed (concat (map (\<lambda>(noise, payload). noise @ serial_encode payload (SERIAL_HEADER_BYTES + length payload)) ts)) p)
      = map snd ts
    \<and> ps_state (snd (parser_feed (concat (map (\<lambda>(noise, payload). noise @ serial_encode payload (SERIAL_HEADER_BYTES + length payload)) ts)) p)) = WaitSync1"
  using assms
proof (induction ts arbitrary: p)
  case (Cons t ts)
  obtain noise payload where t: "t = (noise, payload)" by (cases t)
  obtain p1 where p1: "parser_feed noise p = ([], p1)" "ps_state p1 = WaitSync1 \<or> ps_state p1 = WaitSync2"
    using noise_skipped [of p noise] Cons.prems(1,3) t by auto
  have len1: "length (ps_buffer p1) = MAX_PAYLOAD_BYTES"
    using parser_feed_buffer [of noise p] p1(1) Cons.prems(2) by simp
  obtain p2 where p2: "parser_feed (serial_encode payload (SERIAL_HEADER_BYTES + length payload)) p1 = ([payload], p2)"
    "ps_state p2 = WaitSync1"
    using frame_read [of p1 payload "SERIAL_HEADER_BYTES + length payload"] p1(2) len1 Cons.prems(3) t by auto
  have "length (ps_buffer p2) = MAX_PAYLOAD_BYTES"
    using parser_feed_buffer [of _ p1] p2(1) len1 by (metis snd_conv)
  with Cons.IH [OF p2(2)] Cons.prems(3) p1(1) p2(1) show ?case
    by (simp add: t parser_feed_append Let_def split_beta)
qed simp

text \<open>
  Claim C19.  Recovery after line noise: any sequence of payloads of at most 1500 bytes, each preceded by
  any noise that does not contain the two sync bytes in a row (it may contain single sync bytes, also
  at its end), is recovered by a new parser: the callback sees exactly the payloads, in order, and the
  parser is ready for the next frame having dropped exactly the noise.
\<close>

theorem noisy_stream_recovered:
  assumes "\<forall>(noise, payload) \<in> set ts. no_sync noise \<and> length payload \<le> MAX_PAYLOAD_BYTES"
  shows "(let (frames, p) = parser_feed (concat (map (\<lambda>(noise, payload).
                noise @ serial_encode payload (SERIAL_HEADER_BYTES + length payload)) ts)) (parser_new MAX_PAYLOAD_BYTES)
          in frames = map snd ts \<and> ps_state p = WaitSync1
             \<and> ps_bytes_dropped p = of_nat (sum_list (map (\<lambda>t. length (fst t)) ts)))"
proof -
  let ?s = "concat (map (\<lambda>(noise, payload). noise @ serial_encode payload (SERIAL_HEADER_BYTES + length payload)) ts)"
  have r: "fst (parser_feed ?s (parser_new MAX_PAYLOAD_BYTES)) = map snd ts"
    "ps_state (snd (parser_feed ?s (parser_new MAX_PAYLOAD_BYTES))) = WaitSync1"
    using noisy_frames_read [of "parser_new MAX_PAYLOAD_BYTES" ts] assms by (simp_all add: parser_new_def)
  have "length ?s = framed (map snd ts) + sum_list (map (\<lambda>t. length (fst t)) ts)"
    using assms by (induction ts) (auto simp: framed_def serial_encode_def serial_consts)
  moreover obtain fs p where f: "parser_feed ?s (parser_new MAX_PAYLOAD_BYTES) = (fs, p)" by fastforce
  ultimately have "ps_bytes_dropped p = of_nat (sum_list (map (\<lambda>t. length (fst t)) ts))"
    using parser_feed_account [OF parser_new_inv f] r by (simp add: pending_def parser_new_def add.commute)
  then show ?thesis using r f by simp
qed

theorem noisy_stream_recovered_witness:
  "fst (parser_feed (concat (map (\<lambda>(noise, payload). noise @ serial_encode payload (SERIAL_HEADER_BYTES + length payload))
      [([1, 0xA5], [7, 8]), ([], [0xA5, 0x5A])])) (parser_new MAX_PAYLOAD_BYTES)) = [[7, 8], [0xA5, 0x5A]]"
  using noisy_stream_recovered [of "[([1, 0xA5], [7, 8]), ([], [0xA5, 0x5A])]"]
  by (simp add: serial_consts Let_def split_beta)

end
