(* ===== verification/Transports.thy ===== *)
theory Transports
  imports Wire Serial_Framing
begin

text \<open>
  The two socket transports: \<open>SerialTransport\<close> (src/comms/serial_transport.cpp) and
  \<open>UDPMulticastTransport\<close> (src/comms/udp_multicast_transport.cpp), from their buffers to their inboxes.
  The descriptor is acquired and released in \<open>Transport_Open\<close>.  The operating system is a parameter: the
  results of the successive \<open>read\<close>, \<open>recv\<close>, \<open>write\<close> and \<open>sendto\<close> calls are arguments.

  The locale \<open>polled_inbox\<close> is what \<open>BeaconSystem\<close> relies on: a poll returns one inbox and empties it,
  and leaves the packets of the other kind for the other poll.  Its lemma: over any interleaving of
  the two polls no packet is lost, duplicated or reordered.  It is interpreted on both transports.
\<close>

section \<open>State\<close>

record transport_io =
  tr_healthy :: bool
  tr_bytes_sent :: u64
  tr_bytes_received :: u64
  tr_parse_errors :: u64
  tr_inbox_beacons :: "state_vector list"
  tr_inbox_messages :: "message list"

record serial_impl = transport_io +
  se_parser :: parser

record udp_impl = transport_io +
  ud_self_id :: hid

definition serial_impl_new :: serial_impl where
  "serial_impl_new = \<lparr>tr_healthy = True, tr_bytes_sent = 0, tr_bytes_received = 0, tr_parse_errors = 0,
     tr_inbox_beacons = [], tr_inbox_messages = [], se_parser = parser_new MAX_PAYLOAD_BYTES\<rparr>"

definition udp_impl_new :: "hid \<Rightarrow> udp_impl" where
  "udp_impl_new self_id = \<lparr>tr_healthy = True, tr_bytes_sent = 0, tr_bytes_received = 0, tr_parse_errors = 0,
     tr_inbox_beacons = [], tr_inbox_messages = [], ud_self_id = self_id\<rparr>"

text \<open>The outcome of a drain: the buffers the successful calls filled, then the call that ended the loop.\<close>

datatype read_end = WouldBlock | ReadError | EndOfFile

type_synonym os_reads = "byte list list \<times> read_end"

definition finish_read :: "read_end \<Rightarrow> 'a transport_io_scheme \<Rightarrow> 'a transport_io_scheme" where
  "finish_read e impl = (case e of ReadError \<Rightarrow> impl\<lparr>tr_healthy := False\<rparr> | _ \<Rightarrow> impl)"

section \<open>SerialTransport\<close>

datatype write_reply = Wrote nat | WriteAgain | WriteError

text \<open>The loop of \<open>write_framed\<close>: \<open>None\<close> while it is still retrying when the given replies are used up.
  The second result is the number of bytes on the line.\<close>

fun write_loop :: "nat \<Rightarrow> write_reply list \<Rightarrow> nat \<Rightarrow> bool option \<times> nat" where
  "write_loop framed_len [] written = (if written < framed_len then (None, written) else (Some True, written))"
| "write_loop framed_len (r # rs) written =
     (if written < framed_len then
        case r of
          Wrote n \<Rightarrow> write_loop framed_len rs (written + n)
        | WriteAgain \<Rightarrow> write_loop framed_len rs written
        | WriteError \<Rightarrow> (Some False, written)
      else (Some True, written))"

definition write_framed ::
  "write_reply list \<Rightarrow> byte list \<Rightarrow> serial_impl \<Rightarrow> bool option \<times> byte list \<times> serial_impl" where
  "write_framed replies payload impl =
     (let buf = serial_encode payload (SERIAL_HEADER_BYTES + MAX_FRAME_BYTES) in
      if length buf = 0 then (Some False, [], impl)
      else case write_loop (length buf) replies 0 of
        (Some True, n) \<Rightarrow>
          (Some True, take n buf, impl\<lparr>tr_bytes_sent := tr_bytes_sent impl + of_nat (length buf)\<rparr>)
      | (Some False, n) \<Rightarrow> (Some False, take n buf, impl\<lparr>tr_healthy := False\<rparr>)
      | (None, n) \<Rightarrow> (None, take n buf, impl))"

definition serial_send_beacon ::
  "write_reply list \<Rightarrow> state_vector \<Rightarrow> serial_impl \<Rightarrow> bool option \<times> byte list \<times> serial_impl" where
  "serial_send_beacon replies sv impl =
     (let inner = encode_beacon sv MAX_FRAME_BYTES in
      if length inner = 0 then (Some False, [], impl) else write_framed replies inner impl)"

definition serial_send_message ::
  "write_reply list \<Rightarrow> message \<Rightarrow> serial_impl \<Rightarrow> bool option \<times> byte list \<times> serial_impl" where
  "serial_send_message replies m impl =
     (let inner = encode_message m MAX_FRAME_BYTES in
      if length inner = 0 then (Some False, [], impl) else write_framed replies inner impl)"

text \<open>The callback of \<open>drain_fd\<close>.  It does not touch the parser, so the frames of one \<open>feed\<close> can be
  handled after it.\<close>

definition serial_on_frame :: "byte list \<Rightarrow> serial_impl \<Rightarrow> serial_impl" where
  "serial_on_frame frame impl =
     (let tag = peek_tag frame in
      if tag = TAG_BEACON then
        case decode_beacon frame of
          Some sv \<Rightarrow> impl\<lparr>tr_inbox_beacons := tr_inbox_beacons impl @ [sv]\<rparr>
        | None \<Rightarrow> impl\<lparr>tr_parse_errors := tr_parse_errors impl + 1\<rparr>
      else if tag = TAG_MESSAGE then
        case decode_message frame of
          Some m \<Rightarrow> impl\<lparr>tr_inbox_messages := tr_inbox_messages impl @ [m]\<rparr>
        | None \<Rightarrow> impl\<lparr>tr_parse_errors := tr_parse_errors impl + 1\<rparr>
      else impl\<lparr>tr_parse_errors := tr_parse_errors impl + 1\<rparr>)"

fun drain_fd :: "byte list list \<Rightarrow> read_end \<Rightarrow> serial_impl \<Rightarrow> serial_impl" where
  "drain_fd [] e impl = finish_read e impl"
| "drain_fd (chunk # chunks) e impl =
     (if length chunk = 0 then impl
      else
        let impl = impl\<lparr>tr_bytes_received := tr_bytes_received impl + of_nat (length chunk)\<rparr>;
            (frames, p) = parser_feed chunk (se_parser impl)
        in drain_fd chunks e (fold serial_on_frame frames (impl\<lparr>se_parser := p\<rparr>)))"

definition serial_poll_beacons :: "os_reads \<Rightarrow> serial_impl \<Rightarrow> state_vector list \<times> serial_impl" where
  "serial_poll_beacons os impl =
     (let impl = drain_fd (fst os) (snd os) impl in (tr_inbox_beacons impl, impl\<lparr>tr_inbox_beacons := []\<rparr>))"

definition serial_poll_messages :: "os_reads \<Rightarrow> serial_impl \<Rightarrow> message list \<times> serial_impl" where
  "serial_poll_messages os impl =
     (let impl = drain_fd (fst os) (snd os) impl in (tr_inbox_messages impl, impl\<lparr>tr_inbox_messages := []\<rparr>))"

section \<open>UDPMulticastTransport\<close>

text \<open>\<open>sendto\<close> returns a negative number or the number of bytes.\<close>

definition udp_send :: "int \<Rightarrow> byte list \<Rightarrow> udp_impl \<Rightarrow> bool \<times> udp_impl" where
  "udp_send sent buf impl =
     (if length buf = 0 then (False, impl)
      else if sent < 0 then (False, impl\<lparr>tr_healthy := False\<rparr>)
      else (True, impl\<lparr>tr_bytes_sent := tr_bytes_sent impl + of_int sent\<rparr>))"

definition udp_send_beacon :: "int \<Rightarrow> state_vector \<Rightarrow> udp_impl \<Rightarrow> bool \<times> udp_impl" where
  "udp_send_beacon sent sv impl = udp_send sent (encode_beacon sv MAX_FRAME_BYTES) impl"

definition udp_send_message :: "int \<Rightarrow> message \<Rightarrow> udp_impl \<Rightarrow> bool \<times> udp_impl" where
  "udp_send_message sent m impl = udp_send sent (encode_message m MAX_FRAME_BYTES) impl"

definition udp_on_datagram :: "byte list \<Rightarrow> udp_impl \<Rightarrow> udp_impl" where
  "udp_on_datagram buf impl =
     (let tag = peek_tag buf in
      if tag = TAG_BEACON then
        case decode_beacon buf of
          None \<Rightarrow> impl\<lparr>tr_parse_errors := tr_parse_errors impl + 1\<rparr>
        | Some sv \<Rightarrow>
            if sv_id sv = ud_self_id impl then impl
            else impl\<lparr>tr_inbox_beacons := tr_inbox_beacons impl @ [sv]\<rparr>
      else if tag = TAG_MESSAGE then
        case decode_message buf of
          None \<Rightarrow> impl\<lparr>tr_parse_errors := tr_parse_errors impl + 1\<rparr>
        | Some m \<Rightarrow>
            if msg_sender m = ud_self_id impl then impl
            else impl\<lparr>tr_inbox_messages := tr_inbox_messages impl @ [m]\<rparr>
      else impl\<lparr>tr_parse_errors := tr_parse_errors impl + 1\<rparr>)"

text \<open>\<open>recv\<close> cuts a datagram off at the size of the buffer, \<open>MAX_FRAME_BYTES\<close>.\<close>

fun drain_socket :: "byte list list \<Rightarrow> read_end \<Rightarrow> udp_impl \<Rightarrow> udp_impl" where
  "drain_socket [] e impl = finish_read e impl"
| "drain_socket (dgram # dgrams) e impl =
     (let buf = take MAX_FRAME_BYTES dgram in
      if length buf = 0 then impl
      else drain_socket dgrams e
        (udp_on_datagram buf (impl\<lparr>tr_bytes_received := tr_bytes_received impl + of_nat (length buf)\<rparr>)))"

definition udp_poll_beacons :: "os_reads \<Rightarrow> udp_impl \<Rightarrow> state_vector list \<times> udp_impl" where
  "udp_poll_beacons os impl =
     (let impl = drain_socket (fst os) (snd os) impl in (tr_inbox_beacons impl, impl\<lparr>tr_inbox_beacons := []\<rparr>))"

definition udp_poll_messages :: "os_reads \<Rightarrow> udp_impl \<Rightarrow> message list \<times> udp_impl" where
  "udp_poll_messages os impl =
     (let impl = drain_socket (fst os) (snd os) impl in (tr_inbox_messages impl, impl\<lparr>tr_inbox_messages := []\<rparr>))"

section \<open>What a client of a transport relies on\<close>

datatype poll = PollBeacons os_reads | PollMessages os_reads

fun poll_reads :: "poll \<Rightarrow> os_reads" where
  "poll_reads (PollBeacons os) = os"
| "poll_reads (PollMessages os) = os"

text \<open>A client that polls in some order, with the packets it receives.\<close>

fun poll_all ::
  "(os_reads \<Rightarrow> 's \<Rightarrow> state_vector list \<times> 's) \<Rightarrow> (os_reads \<Rightarrow> 's \<Rightarrow> message list \<times> 's) \<Rightarrow> poll list \<Rightarrow> 's
     \<Rightarrow> state_vector list \<times> message list \<times> 's" where
  "poll_all pb pm [] s = ([], [], s)"
| "poll_all pb pm (PollBeacons os # ps) s =
     (let (bs, s1) = pb os s; (bs', ms', s2) = poll_all pb pm ps s1 in (bs @ bs', ms', s2))"
| "poll_all pb pm (PollMessages os # ps) s =
     (let (ms, s1) = pm os s; (bs', ms', s2) = poll_all pb pm ps s1 in (bs', ms @ ms', s2))"

text \<open>The contract: \<open>line s\<close> is the part of the state that decides how input is decoded, \<open>decoded\<close> the
  packets that input yields there and \<open>line_next\<close> the part of the state after it.\<close>

locale polled_inbox =
  fixes poll_b :: "os_reads \<Rightarrow> 's \<Rightarrow> state_vector list \<times> 's"
    and poll_m :: "os_reads \<Rightarrow> 's \<Rightarrow> message list \<times> 's"
    and inbox_b :: "'s \<Rightarrow> state_vector list"
    and inbox_m :: "'s \<Rightarrow> message list"
    and line :: "'s \<Rightarrow> 'l"
    and decoded :: "os_reads \<Rightarrow> 'l \<Rightarrow> state_vector list \<times> message list"
    and line_next :: "os_reads \<Rightarrow> 'l \<Rightarrow> 'l"
  assumes poll_beacons: "\<exists>s'. poll_b os s = (inbox_b s @ fst (decoded os (line s)), s') \<and> inbox_b s' = []
        \<and> inbox_m s' = inbox_m s @ snd (decoded os (line s)) \<and> line s' = line_next os (line s)"
    and poll_messages: "\<exists>s'. poll_m os s = (inbox_m s @ snd (decoded os (line s)), s') \<and> inbox_m s' = []
        \<and> inbox_b s' = inbox_b s @ fst (decoded os (line s)) \<and> line s' = line_next os (line s)"
begin

fun arrivals :: "os_reads list \<Rightarrow> 'l \<Rightarrow> state_vector list \<times> message list" where
  "arrivals [] l = ([], [])"
| "arrivals (os # oss) l =
     (fst (decoded os l) @ fst (arrivals oss (line_next os l)), snd (decoded os l) @ snd (arrivals oss (line_next os l)))"

lemma polls_lose_nothing:
  assumes "poll_all poll_b poll_m ps s = (bs, ms, s')"
  shows "bs @ inbox_b s' = inbox_b s @ fst (arrivals (map poll_reads ps) (line s))
    \<and> ms @ inbox_m s' = inbox_m s @ snd (arrivals (map poll_reads ps) (line s))"
  using assms
proof (induction ps arbitrary: s bs ms s')
  case (Cons p ps)
  show ?case
  proof (cases p)
    case (PollBeacons os)
    obtain s1 where s1: "poll_b os s = (inbox_b s @ fst (decoded os (line s)), s1)" "inbox_b s1 = []"
      "inbox_m s1 = inbox_m s @ snd (decoded os (line s))" "line s1 = line_next os (line s)"
      using poll_beacons by blast
    obtain bs1 ms1 s2 where r: "poll_all poll_b poll_m ps s1 = (bs1, ms1, s2)" by (cases rule: prod_cases3)
    from Cons.IH [OF r] s1 r Cons.prems PollBeacons show ?thesis by auto
  next
    case (PollMessages os)
    obtain s1 where s1: "poll_m os s = (inbox_m s @ snd (decoded os (line s)), s1)" "inbox_m s1 = []"
      "inbox_b s1 = inbox_b s @ fst (decoded os (line s))" "line s1 = line_next os (line s)"
      using poll_messages by blast
    obtain bs1 ms1 s2 where r: "poll_all poll_b poll_m ps s1 = (bs1, ms1, s2)" by (cases rule: prod_cases3)
    from Cons.IH [OF r] s1 r Cons.prems PollMessages show ?thesis by auto
  qed
qed simp

end

section \<open>Both transports meet the contract\<close>

definition frame_beacons :: "byte list \<Rightarrow> state_vector list" where
  "frame_beacons f = (case decode_beacon f of Some sv \<Rightarrow> [sv] | None \<Rightarrow> [])"

definition frame_messages :: "byte list \<Rightarrow> message list" where
  "frame_messages f = (case decode_message f of Some m \<Rightarrow> [m] | None \<Rightarrow> [])"

definition frame_bad :: "byte list \<Rightarrow> bool" where
  "frame_bad f \<longleftrightarrow> decode_beacon f = None \<and> decode_message f = None"

lemma decode_tag:
  "decode_beacon f = Some sv \<Longrightarrow> peek_tag f = TAG_BEACON"
  "decode_message f = Some m \<Longrightarrow> peek_tag f = TAG_MESSAGE"
  by (auto simp: decode_beacon_def decode_message_def peek_tag_def wire_consts split: if_splits)

lemma tags_differ [simp]: "TAG_BEACON \<noteq> TAG_MESSAGE" "TAG_MESSAGE \<noteq> TAG_BEACON"
  by (simp_all add: wire_consts)

lemma frame_kinds:
  obtains (beacon) sv where "decode_beacon f = Some sv" "decode_message f = None" "peek_tag f = TAG_BEACON"
  | (message) m where "decode_beacon f = None" "decode_message f = Some m" "peek_tag f = TAG_MESSAGE"
  | (bad) "decode_beacon f = None" "decode_message f = None"
proof (cases "decode_beacon f")
  case (Some sv)
  then have "decode_message f = None" using decode_tag by (metis not_None_eq tags_differ(1))
  with Some that(1) decode_tag(1) show ?thesis by blast
next
  case None
  then show ?thesis using that(2,3) decode_tag(2) by (cases "decode_message f") blast+
qed

lemma serial_on_frame_effect:
  "serial_on_frame f impl = impl\<lparr>tr_inbox_beacons := tr_inbox_beacons impl @ frame_beacons f,
     tr_inbox_messages := tr_inbox_messages impl @ frame_messages f,
     tr_parse_errors := tr_parse_errors impl + of_nat (length (filter frame_bad [f]))\<rparr>"
  by (cases f rule: frame_kinds) (simp_all add: serial_on_frame_def frame_beacons_def frame_messages_def frame_bad_def Let_def)

lemma udp_on_datagram_effect:
  "udp_on_datagram f impl = impl\<lparr>
     tr_inbox_beacons := tr_inbox_beacons impl @ filter (\<lambda>sv. sv_id sv \<noteq> ud_self_id impl) (frame_beacons f),
     tr_inbox_messages := tr_inbox_messages impl @ filter (\<lambda>m. msg_sender m \<noteq> ud_self_id impl) (frame_messages f),
     tr_parse_errors := tr_parse_errors impl + of_nat (length (filter frame_bad [f]))\<rparr>"
  by (cases f rule: frame_kinds) (simp_all add: udp_on_datagram_def frame_beacons_def frame_messages_def frame_bad_def Let_def)

lemma serial_on_frames_effect:
  "fold serial_on_frame fs impl = impl\<lparr>tr_inbox_beacons := tr_inbox_beacons impl @ concat (map frame_beacons fs),
     tr_inbox_messages := tr_inbox_messages impl @ concat (map frame_messages fs),
     tr_parse_errors := tr_parse_errors impl + of_nat (length (filter frame_bad fs))\<rparr>"
  by (induction fs arbitrary: impl) (simp_all add: serial_on_frame_effect)

text \<open>The frames a drain of the serial line delivers, and the parser after it.\<close>

fun drain_frames :: "byte list list \<Rightarrow> parser \<Rightarrow> byte list list \<times> parser" where
  "drain_frames [] p = ([], p)"
| "drain_frames (chunk # chunks) p =
     (if length chunk = 0 then ([], p)
      else let (fs, p1) = parser_feed chunk p; (gs, p2) = drain_frames chunks p1 in (fs @ gs, p2))"

lemma drain_fd_effect:
  assumes "drain_frames cs (se_parser impl) = (fs, p)"
  shows "tr_inbox_beacons (drain_fd cs e impl) = tr_inbox_beacons impl @ concat (map frame_beacons fs)
    \<and> tr_inbox_messages (drain_fd cs e impl) = tr_inbox_messages impl @ concat (map frame_messages fs)
    \<and> tr_parse_errors (drain_fd cs e impl) = tr_parse_errors impl + of_nat (length (filter frame_bad fs))
    \<and> se_parser (drain_fd cs e impl) = p"
  using assms
proof (induction cs e impl arbitrary: fs rule: drain_fd.induct)
  case (2 chunk chunks e impl)
  show ?case
  proof (cases "chunk = []")
    case False
    obtain fs1 p1 where f1: "parser_feed chunk (se_parser impl) = (fs1, p1)" by fastforce
    obtain fs2 p2 where f2: "drain_frames chunks p1 = (fs2, p2)" by fastforce
    let ?i = "impl\<lparr>tr_bytes_received := tr_bytes_received impl + of_nat (length chunk)\<rparr>"
    have "se_parser (fold serial_on_frame fs1 (?i\<lparr>se_parser := p1\<rparr>)) = p1" by (simp add: serial_on_frames_effect)
    with 2(1) [of ?i "(fs1, p1)" fs1 p1 fs2] 2(2) False f1 f2 show ?thesis
      by (auto simp: serial_on_frames_effect)
  qed (use 2(2) in simp)
qed (auto simp: finish_read_def split: read_end.split)

lemma drain_socket_effect:
  "ud_self_id (drain_socket ds e impl) = ud_self_id impl
    \<and> tr_inbox_beacons (drain_socket ds e impl) = tr_inbox_beacons impl @
        filter (\<lambda>sv. sv_id sv \<noteq> ud_self_id impl) (concat (map frame_beacons (takeWhile (\<lambda>d. d \<noteq> []) (map (take MAX_FRAME_BYTES) ds))))
    \<and> tr_inbox_messages (drain_socket ds e impl) = tr_inbox_messages impl @
        filter (\<lambda>m. msg_sender m \<noteq> ud_self_id impl) (concat (map frame_messages (takeWhile (\<lambda>d. d \<noteq> []) (map (take MAX_FRAME_BYTES) ds))))"
proof (induction ds e impl rule: drain_socket.induct)
  case (2 d ds e impl)
  show ?case
  proof (cases "take MAX_FRAME_BYTES d = []")
    case False
    with 2 [OF refl] show ?thesis by (simp add: Let_def udp_on_datagram_effect)
  qed (simp add: Let_def)
qed (auto simp: finish_read_def split: read_end.split)

definition serial_decoded :: "os_reads \<Rightarrow> parser \<Rightarrow> state_vector list \<times> message list" where
  "serial_decoded os p =
     (concat (map frame_beacons (fst (drain_frames (fst os) p))), concat (map frame_messages (fst (drain_frames (fst os) p))))"

definition udp_decoded :: "os_reads \<Rightarrow> hid \<Rightarrow> state_vector list \<times> message list" where
  "udp_decoded os self =
     (let ds = takeWhile (\<lambda>d. d \<noteq> []) (map (take MAX_FRAME_BYTES) (fst os)) in
      (filter (\<lambda>sv. sv_id sv \<noteq> self) (concat (map frame_beacons ds)),
       filter (\<lambda>m. msg_sender m \<noteq> self) (concat (map frame_messages ds))))"

interpretation serial: polled_inbox serial_poll_beacons serial_poll_messages tr_inbox_beacons tr_inbox_messages
  se_parser serial_decoded "\<lambda>os p. snd (drain_frames (fst os) p)"
proof unfold_locales
  fix os and s :: serial_impl
  note eff = drain_fd_effect [of "fst os" s "fst (drain_frames (fst os) (se_parser s))"
      "snd (drain_frames (fst os) (se_parser s))" "snd os"]
  show "\<exists>s'. serial_poll_beacons os s = (tr_inbox_beacons s @ fst (serial_decoded os (se_parser s)), s') \<and> tr_inbox_beacons s' = []
      \<and> tr_inbox_messages s' = tr_inbox_messages s @ snd (serial_decoded os (se_parser s))
      \<and> se_parser s' = snd (drain_frames (fst os) (se_parser s))"
    using eff by (simp add: serial_poll_beacons_def serial_decoded_def Let_def)
  show "\<exists>s'. serial_poll_messages os s = (tr_inbox_messages s @ snd (serial_decoded os (se_parser s)), s') \<and> tr_inbox_messages s' = []
      \<and> tr_inbox_beacons s' = tr_inbox_beacons s @ fst (serial_decoded os (se_parser s))
      \<and> se_parser s' = snd (drain_frames (fst os) (se_parser s))"
    using eff by (simp add: serial_poll_messages_def serial_decoded_def Let_def)
qed

interpretation udp: polled_inbox udp_poll_beacons udp_poll_messages tr_inbox_beacons tr_inbox_messages
  ud_self_id udp_decoded "\<lambda>os l. l"
  by unfold_locales
    (use drain_socket_effect in \<open>simp_all add: udp_poll_beacons_def udp_poll_messages_def udp_decoded_def Let_def\<close>)

section \<open>The serial line end to end\<close>

datatype packet = Beacon state_vector | Msg message

fun packet_wf :: "packet \<Rightarrow> bool" where
  "packet_wf (Beacon sv) = state_vector_wf sv"
| "packet_wf (Msg m) = message_wf m"

fun packet_frame :: "packet \<Rightarrow> byte list" where
  "packet_frame (Beacon sv) = encode_beacon sv MAX_FRAME_BYTES"
| "packet_frame (Msg m) = encode_message m MAX_FRAME_BYTES"

definition beacons_of :: "packet list \<Rightarrow> state_vector list" where
  "beacons_of ps = concat (map (\<lambda>p. case p of Beacon sv \<Rightarrow> [sv] | Msg _ \<Rightarrow> []) ps)"

definition messages_of :: "packet list \<Rightarrow> message list" where
  "messages_of ps = concat (map (\<lambda>p. case p of Beacon _ \<Rightarrow> [] | Msg m \<Rightarrow> [m]) ps)"

text \<open>A sender: each packet with the replies of the operating system to its writes.\<close>

fun serial_send :: "write_reply list \<Rightarrow> packet \<Rightarrow> serial_impl \<Rightarrow> bool option \<times> byte list \<times> serial_impl" where
  "serial_send replies (Beacon sv) impl = serial_send_beacon replies sv impl"
| "serial_send replies (Msg m) impl = serial_send_message replies m impl"

fun serial_sends :: "(write_reply list \<times> packet) list \<Rightarrow> serial_impl \<Rightarrow> bool option list \<times> byte list \<times> serial_impl" where
  "serial_sends [] impl = ([], [], impl)"
| "serial_sends ((replies, pkt) # ps) impl =
     (let (r, w, impl1) = serial_send replies pkt impl; (rs, ws, impl2) = serial_sends ps impl1 in (r # rs, w @ ws, impl2))"

lemma packet_frame_length: "packet_wf p \<Longrightarrow> length (packet_frame p) \<le> MAX_FRAME_BYTES \<and> packet_frame p \<noteq> []"
  by (cases p) (use length_encode_beacon length_encode_message in
      \<open>force simp: MAX_FRAME_BYTES_def wire_consts dest: arg_cong [where f = length]\<close>)+

lemma packet_frame_decode:
  "packet_wf p \<Longrightarrow> frame_beacons (packet_frame p) = beacons_of [p] \<and> frame_messages (packet_frame p) = messages_of [p]
     \<and> \<not> frame_bad (packet_frame p)"
  using decode_encode_beacon [of _ MAX_FRAME_BYTES "[]"] decode_encode_message [of _ MAX_FRAME_BYTES "[]"]
  by (cases p; cases "packet_frame p" rule: frame_kinds)
    (auto simp: frame_beacons_def frame_messages_def frame_bad_def beacons_of_def messages_of_def MAX_FRAME_BYTES_def wire_consts)

lemma write_loop_True: "write_loop n rs w = (Some True, k) \<Longrightarrow> n \<le> k"
  by (induction n rs w rule: write_loop.induct) (auto split: if_splits write_reply.splits)

lemma write_framed_True:
  assumes "write_framed replies payload impl = (Some True, w, impl')"
  shows "w = serial_encode payload (SERIAL_HEADER_BYTES + MAX_FRAME_BYTES)"
  using assms write_loop_True
  by (fastforce simp: write_framed_def Let_def split: if_splits prod.splits option.splits bool.splits)

lemma serial_send_True:
  assumes "serial_send replies pkt impl = (Some True, w, impl')"
  shows "w = serial_encode (packet_frame pkt) (SERIAL_HEADER_BYTES + MAX_FRAME_BYTES)"
  using assms
  by (cases pkt) (auto simp: serial_send_beacon_def serial_send_message_def Let_def split: if_splits dest: write_framed_True)

lemma serial_sends_wire:
  assumes "serial_sends ps impl = (rs, w, impl')" "\<forall>r \<in> set rs. r = Some True"
  shows "w = concat (map (\<lambda>p. serial_encode (packet_frame (snd p)) (SERIAL_HEADER_BYTES + MAX_FRAME_BYTES)) ps)"
  using assms
proof (induction ps arbitrary: impl rs w impl')
  case (Cons p ps)
  obtain replies pkt where p: "p = (replies, pkt)" by (cases p)
  obtain r w1 impl1 where s: "serial_send replies pkt impl = (r, w1, impl1)" by (cases rule: prod_cases3)
  obtain rs' w2 impl2 where t: "serial_sends ps impl1 = (rs', w2, impl2)" by (cases rule: prod_cases3)
  from Cons.prems p s t have e: "rs = r # rs'" "w = w1 @ w2" "r = Some True" by auto
  have "w1 = serial_encode (packet_frame pkt) (SERIAL_HEADER_BYTES + MAX_FRAME_BYTES)"
    by (rule serial_send_True [OF s [unfolded e(3)]])
  moreover have "w2 = concat (map (\<lambda>p. serial_encode (packet_frame (snd p)) (SERIAL_HEADER_BYTES + MAX_FRAME_BYTES)) ps)"
    using Cons.prems(2) e(1) by (intro Cons.IH [OF t]) simp
  ultimately show ?case by (simp add: e(2) p)
qed simp

lemma serial_encode_cap:
  "SERIAL_HEADER_BYTES + length payload \<le> cap \<Longrightarrow> serial_encode payload cap = serial_encode payload (SERIAL_HEADER_BYTES + length payload)"
  by (simp add: serial_encode_def)

lemma wire_frames:
  assumes "\<forall>p \<in> set pkts. packet_wf p"
  shows "fst (parser_feed (concat (map (\<lambda>p. serial_encode (packet_frame p) (SERIAL_HEADER_BYTES + MAX_FRAME_BYTES)) pkts))
     (parser_new MAX_PAYLOAD_BYTES)) = map packet_frame pkts"
proof -
  let ?ts = "map (\<lambda>p. ([] :: byte list, packet_frame p)) pkts"
  have small: "length (packet_frame p) \<le> MAX_FRAME_BYTES" if "p \<in> set pkts" for p
    using that assms packet_frame_length by blast
  then have e: "map (\<lambda>p. serial_encode (packet_frame p) (SERIAL_HEADER_BYTES + MAX_FRAME_BYTES)) pkts
      = map (\<lambda>(noise, payload). noise @ serial_encode payload (SERIAL_HEADER_BYTES + length payload)) ?ts"
    by (auto simp: serial_encode_cap [of _ "SERIAL_HEADER_BYTES + MAX_FRAME_BYTES"])
  have "\<forall>(noise, payload) \<in> set ?ts. no_sync noise \<and> length payload \<le> MAX_PAYLOAD_BYTES"
    using small by (force simp: MAX_FRAME_BYTES_def wire_consts MAX_PAYLOAD_BYTES_def)
  then have "fst (parser_feed (concat (map (\<lambda>(noise, payload). noise @ serial_encode payload (SERIAL_HEADER_BYTES + length payload)) ?ts))
      (parser_new MAX_PAYLOAD_BYTES)) = map snd ?ts"
    by (intro conjunct1 [OF noisy_frames_read]) (simp_all add: parser_new_def)
  then show ?thesis unfolding e by (simp add: o_def)
qed

lemma drain_frames_chunks: "\<forall>c \<in> set cs. c \<noteq> [] \<Longrightarrow> drain_frames cs p = parser_feed (concat cs) p"
  by (induction cs arbitrary: p) (simp_all add: parser_feed_append)

lemma serial_arrivals:
  assumes "\<forall>os \<in> set oss. \<forall>c \<in> set (fst os). c \<noteq> []"
  shows "serial.arrivals oss p =
    (concat (map frame_beacons (fst (parser_feed (concat (concat (map fst oss))) p))),
     concat (map frame_messages (fst (parser_feed (concat (concat (map fst oss))) p))))"
  using assms
  by (induction oss arbitrary: p)
    (simp_all add: serial_decoded_def drain_frames_chunks parser_feed_append split_beta Let_def)

text \<open>
  Claim C2.  The serial line end to end: a sender transmits any sequence of beacons and messages, with
  writes that may be partial or refused and retried, and every call reports success.  The receiver
  polls beacons and messages in any order, and its reads cut the byte stream into any pieces.  Once
  the whole stream has been read, the beacons the polls returned together with those still in the
  inbox are exactly the beacons sent, in order and each once, and likewise the messages.
\<close>

theorem serial_line_exactly_once:
  assumes "serial_sends ps sender = (rs, wire, sender')" "\<forall>r \<in> set rs. r = Some True"
    and "\<forall>p \<in> set (map snd ps). packet_wf p"
    and "\<forall>p \<in> set polls. \<forall>c \<in> set (fst (poll_reads p)). c \<noteq> []"
    and "concat (concat (map (\<lambda>p. fst (poll_reads p)) polls)) = wire"
    and "poll_all serial_poll_beacons serial_poll_messages polls serial_impl_new = (bs, ms, receiver)"
  shows "bs @ tr_inbox_beacons receiver = beacons_of (map snd ps)
    \<and> ms @ tr_inbox_messages receiver = messages_of (map snd ps)"
proof -
  let ?frames = "fst (parser_feed wire (parser_new MAX_PAYLOAD_BYTES))"
  have f: "?frames = map packet_frame (map snd ps)"
    using wire_frames [OF assms(3)] serial_sends_wire [OF assms(1,2)] by (simp add: o_def)
  have arr: "serial.arrivals (map poll_reads polls) (parser_new MAX_PAYLOAD_BYTES)
      = (concat (map frame_beacons ?frames), concat (map frame_messages ?frames))"
    using serial_arrivals [of "map poll_reads polls"] assms(4,5) by (simp add: o_def)
  have "concat (map frame_beacons ?frames) = beacons_of (map snd ps) \<and> concat (map frame_messages ?frames) = messages_of (map snd ps)"
    unfolding f using assms(3)
    by (induction ps) (auto simp: packet_frame_decode, auto simp: beacons_of_def messages_of_def)
  with serial.polls_lose_nothing [OF assms(6)] arr show ?thesis by (simp add: serial_impl_new_def)
qed

lemma serial_default_send:
  "fst (serial_sends [([Wrote 100, WriteAgain, Wrote 64], Beacon state_vector_default)] serial_impl_new) = [Some True]"
  "length (fst (snd (serial_sends [([Wrote 100, WriteAgain, Wrote 64], Beacon state_vector_default)] serial_impl_new))) = 164"
  by code_simp+

theorem serial_line_exactly_once_witness:
  "let wire = fst (snd (serial_sends [([Wrote 100, WriteAgain, Wrote 64], Beacon state_vector_default)] serial_impl_new));
       (bs, ms, receiver) = poll_all serial_poll_beacons serial_poll_messages
         [PollMessages ([take 10 wire], WouldBlock), PollBeacons ([drop 10 wire], WouldBlock)] serial_impl_new
   in bs @ tr_inbox_beacons receiver = [state_vector_default]"
proof -
  let ?in = "[([Wrote 100, WriteAgain, Wrote 64], Beacon state_vector_default)]"
  obtain rs w sender where r: "serial_sends ?in serial_impl_new = (rs, w, sender)" by (cases rule: prod_cases3)
  have rw: "rs = [Some True]" "length w = 164" using serial_default_send unfolding r by simp_all
  let ?ps = "[PollMessages ([take 10 w], WouldBlock), PollBeacons ([drop 10 w], WouldBlock)]"
  obtain bs ms s where p: "poll_all serial_poll_beacons serial_poll_messages ?ps serial_impl_new = (bs, ms, s)"
    by (cases rule: prod_cases3)
  have "packet_wf (Beacon state_vector_default)"
    by (simp add: state_vector_wf_def state_vector_default_def hid_wf_def uuid_wf_def hid_default_def uuid_nil_def)
  moreover have "take 10 w \<noteq> []" "drop 10 w \<noteq> []" using rw(2) by auto
  ultimately have "bs @ tr_inbox_beacons s = beacons_of (map snd ?in)"
    by (intro conjunct1 [OF serial_line_exactly_once [OF r _ _ _ _ p]]) (simp_all add: rw(1))
  then show ?thesis unfolding r fst_conv snd_conv Let_def p by (simp add: beacons_of_def)
qed

section \<open>Retrying writes\<close>

definition granted :: "write_reply list \<Rightarrow> nat" where
  "granted rs = sum_list (map (\<lambda>r. case r of Wrote n \<Rightarrow> n | _ \<Rightarrow> 0) rs)"

lemma write_loop_progress:
  "WriteError \<notin> set rs \<Longrightarrow> fst (write_loop n rs w) = (if n \<le> w + granted rs then Some True else None)"
  by (induction n rs w rule: write_loop.induct) (auto simp: granted_def split: write_reply.split)

text \<open>
  Claim C39.  Termination of a write: as long as the descriptor reports no hard error, \<open>write_framed\<close>
  returns, with success, if and only if the descriptor accepts as many bytes as the frame has; with
  any finite number of \<open>EAGAIN\<close> replies in between.  While the line stays full the call keeps
  retrying and does not return.
\<close>

theorem write_framed_returns_iff_accepted:
  assumes "WriteError \<notin> set replies" "length payload \<le> MAX_FRAME_BYTES"
  shows "fst (write_framed replies payload impl) =
    (if SERIAL_HEADER_BYTES + length payload \<le> granted replies then Some True else None)"
proof -
  have len: "length (serial_encode payload (SERIAL_HEADER_BYTES + MAX_FRAME_BYTES)) = SERIAL_HEADER_BYTES + length payload"
    using assms(2) by (simp add: serial_encode_def serial_consts MAX_FRAME_BYTES_def wire_consts)
  have pos: "0 < SERIAL_HEADER_BYTES" by (simp add: serial_consts)
  obtain r k where w: "write_loop (SERIAL_HEADER_BYTES + length payload) replies 0 = (r, k)" by fastforce
  then have "r = (if SERIAL_HEADER_BYTES + length payload \<le> granted replies then Some True else None)"
    using write_loop_progress [OF assms(1), of "SERIAL_HEADER_BYTES + length payload" 0] by simp
  moreover have "serial_encode payload (SERIAL_HEADER_BYTES + MAX_FRAME_BYTES) \<noteq> []" using len pos by auto
  ultimately show ?thesis using w by (simp add: write_framed_def Let_def len)
qed

theorem write_framed_returns_iff_accepted_witness:
  "fst (write_framed [WriteAgain, WriteAgain] [1, 2] serial_impl_new) = None
   \<and> fst (write_framed [WriteAgain, Wrote 4, Wrote 2] [1, 2] serial_impl_new) = Some True"
  using write_framed_returns_iff_accepted [of "[WriteAgain, WriteAgain]" "[1, 2]" serial_impl_new]
    write_framed_returns_iff_accepted [of "[WriteAgain, Wrote 4, Wrote 2]" "[1, 2]" serial_impl_new]
  by (simp add: granted_def serial_consts MAX_FRAME_BYTES_def wire_consts)

section \<open>The multicast socket\<close>

lemma packet_frame_cut: "packet_wf p \<Longrightarrow> take MAX_FRAME_BYTES (packet_frame p) = packet_frame p"
  using packet_frame_length [of p] by simp

text \<open>What waits at the socket: any non-empty datagram that is not a frame, or the frame of a packet.\<close>

type_synonym datagram = "byte list + packet"

definition datagram_bytes :: "datagram \<Rightarrow> byte list" where
  "datagram_bytes d = (case d of Inl bytes \<Rightarrow> bytes | Inr p \<Rightarrow> packet_frame p)"

definition datagram_ok :: "datagram \<Rightarrow> bool" where
  "datagram_ok d \<longleftrightarrow> (case d of Inl bytes \<Rightarrow> bytes \<noteq> [] \<and> frame_bad (take MAX_FRAME_BYTES bytes) | Inr p \<Rightarrow> packet_wf p)"

definition datagram_packets :: "datagram list \<Rightarrow> packet list" where
  "datagram_packets ds = concat (map (\<lambda>d. case d of Inl _ \<Rightarrow> [] | Inr p \<Rightarrow> [p]) ds)"

lemma datagram_packets_simps [simp]:
  "datagram_packets [] = []" "datagram_packets (Inl b # ds) = datagram_packets ds" "datagram_packets (Inr p # ds) = p # datagram_packets ds"
  "datagram_packets (ds @ ds') = datagram_packets ds @ datagram_packets ds'"
  by (simp_all add: datagram_packets_def)

lemma packets_of_simps [simp]:
  "beacons_of [] = []" "messages_of [] = []" "beacons_of (Beacon sv # ps) = sv # beacons_of ps" "beacons_of (Msg m # ps) = beacons_of ps"
  "messages_of (Beacon sv # ps) = messages_of ps" "messages_of (Msg m # ps) = m # messages_of ps"
  "beacons_of (ps @ ps') = beacons_of ps @ beacons_of ps'" "messages_of (ps @ ps') = messages_of ps @ messages_of ps'"
  by (simp_all add: beacons_of_def messages_of_def)

lemma frame_bad_empty: "frame_bad f \<Longrightarrow> frame_beacons f = [] \<and> frame_messages f = []"
  by (simp add: frame_bad_def frame_beacons_def frame_messages_def)

definition received :: "datagram list \<Rightarrow> byte list list" where
  "received ds = takeWhile (\<lambda>d. d \<noteq> []) (map (take MAX_FRAME_BYTES) (map datagram_bytes ds))"

lemma received_all:
  assumes "\<forall>d \<in> set ds. datagram_ok d"
  shows "concat (map frame_beacons (received ds)) = beacons_of (datagram_packets ds)"
    "concat (map frame_messages (received ds)) = messages_of (datagram_packets ds)"
    "length (filter frame_bad (received ds)) = length (filter isl ds)"
proof -
  have "concat (map frame_beacons (received ds)) = beacons_of (datagram_packets ds)
    \<and> concat (map frame_messages (received ds)) = messages_of (datagram_packets ds)
    \<and> length (filter frame_bad (received ds)) = length (filter isl ds)" using assms
  proof (induction ds)
    case (Cons d ds)
    show ?case
    proof (cases d)
      case (Inl bytes)
      then have "frame_bad (take MAX_FRAME_BYTES bytes)" "take MAX_FRAME_BYTES bytes \<noteq> []"
        using Cons.prems by (auto simp: datagram_ok_def MAX_FRAME_BYTES_def wire_consts)
      with Inl Cons frame_bad_empty show ?thesis by (simp add: received_def datagram_bytes_def)
    next
      case (Inr p)
      then have "packet_wf p" using Cons.prems by (simp add: datagram_ok_def)
      with packet_frame_length [of p] packet_frame_cut [of p] packet_frame_decode [of p] Inr Cons show ?thesis
        by (cases p) (simp_all add: received_def datagram_bytes_def)
    qed
  qed (simp add: received_def)
  then show "concat (map frame_beacons (received ds)) = beacons_of (datagram_packets ds)"
    "concat (map frame_messages (received ds)) = messages_of (datagram_packets ds)"
    "length (filter frame_bad (received ds)) = length (filter isl ds)" by blast+
qed

lemma udp_arrivals:
  assumes "\<forall>os \<in> set oss. \<forall>d \<in> set (snd os). datagram_ok d"
  shows "udp.arrivals (map (\<lambda>os. (map datagram_bytes (snd os), fst os)) oss) self =
    (filter (\<lambda>sv. sv_id sv \<noteq> self) (beacons_of (datagram_packets (concat (map snd oss)))),
     filter (\<lambda>m. msg_sender m \<noteq> self) (messages_of (datagram_packets (concat (map snd oss)))))"
  using assms
proof (induction oss)
  case (Cons os oss)
  have "udp_decoded (map datagram_bytes (snd os), fst os) self =
      (filter (\<lambda>sv. sv_id sv \<noteq> self) (beacons_of (datagram_packets (snd os))),
       filter (\<lambda>m. msg_sender m \<noteq> self) (messages_of (datagram_packets (snd os))))"
    using received_all(1,2) [of "snd os"] Cons.prems by (simp add: udp_decoded_def received_def Let_def)
  with Cons show ?case by simp
qed simp

lemma drain_socket_errors:
  "tr_parse_errors (drain_socket ds e impl) =
     tr_parse_errors impl + of_nat (length (filter frame_bad (takeWhile (\<lambda>d. d \<noteq> []) (map (take MAX_FRAME_BYTES) ds))))"
proof (induction ds e impl rule: drain_socket.induct)
  case (2 d ds e impl)
  show ?case
  proof (cases "take MAX_FRAME_BYTES d = []")
    case False
    with 2 [OF refl] show ?thesis by (simp add: Let_def udp_on_datagram_effect)
  qed (simp add: Let_def)
qed (auto simp: finish_read_def split: read_end.split)

definition udp_poll :: "bool \<times> read_end \<times> datagram list \<Rightarrow> poll" where
  "udp_poll p = (case p of (beacons, e, ds) \<Rightarrow> (if beacons then PollBeacons else PollMessages) (map datagram_bytes ds, e))"

lemma udp_poll_simp: "udp_poll (b, e, ds) = (if b then PollBeacons (map datagram_bytes ds, e) else PollMessages (map datagram_bytes ds, e))"
  by (simp add: udp_poll_def)

lemma udp_poll_errors:
  assumes "\<forall>(beacons, e, ds) \<in> set polls. \<forall>d \<in> set ds. datagram_ok d"
    and "poll_all udp_poll_beacons udp_poll_messages (map udp_poll polls) s = (bs, ms, s')"
  shows "tr_parse_errors s' = tr_parse_errors s + of_nat (length (filter isl (concat (map (snd \<circ> snd) polls))))"
  using assms
proof (induction polls arbitrary: s bs ms)
  case (Cons p polls)
  obtain beacons e ds where p: "p = (beacons, e, ds)" by (cases p)
  let ?s = "drain_socket (map datagram_bytes ds) e s"
  have "tr_parse_errors ?s = tr_parse_errors s + of_nat (length (filter isl ds))"
    using received_all(3) [of ds] Cons.prems(1) by (simp add: drain_socket_errors received_def p)
  moreover define s1 where "s1 = (if beacons then ?s\<lparr>tr_inbox_beacons := []\<rparr> else ?s\<lparr>tr_inbox_messages := []\<rparr>)"
  moreover obtain bs1 ms1 s2 where r: "poll_all udp_poll_beacons udp_poll_messages (map udp_poll polls) s1 = (bs1, ms1, s2)"
    by (cases rule: prod_cases3)
  moreover have "s2 = s'"
    using Cons.prems(2) r by (cases beacons) (simp_all add: s1_def p udp_poll_simp udp_poll_beacons_def [of "(_, _)"]
        udp_poll_messages_def [of "(_, _)"] Let_def)
  ultimately show ?case using Cons.IH [of s1 bs1 ms1] Cons.prems(1) by (simp add: p)
qed simp

text \<open>
  Claim C35.  The multicast socket: whatever non-empty datagrams wait at each poll, valid frames of beacons and
  messages mixed with malformed ones, the client receives over any interleaving of polls exactly the valid packets
  that do not carry its own identity, in order and each once.  Its own echoes are dropped, and every malformed datagram is
  skipped and counted as a parse error.
\<close>

theorem udp_polls_exactly_once:
  assumes "\<forall>(beacons, e, ds) \<in> set polls. \<forall>d \<in> set ds. datagram_ok d"
    and "poll_all udp_poll_beacons udp_poll_messages (map udp_poll polls) (udp_impl_new self) = (bs, ms, s')"
  shows "let ds = concat (map (snd \<circ> snd) polls); ps = datagram_packets ds
    in bs @ tr_inbox_beacons s' = filter (\<lambda>sv. sv_id sv \<noteq> self) (beacons_of ps)
     \<and> ms @ tr_inbox_messages s' = filter (\<lambda>m. msg_sender m \<noteq> self) (messages_of ps)
     \<and> tr_parse_errors s' = of_nat (length (filter isl ds))"
proof -
  have reads: "map poll_reads (map udp_poll polls) = map (\<lambda>os. (map datagram_bytes (snd os), fst os)) (map snd polls)"
    by (auto simp: udp_poll_def split: prod.split)
  have new: "ud_self_id (udp_impl_new self) = self" "tr_inbox_beacons (udp_impl_new self) = []"
    "tr_inbox_messages (udp_impl_new self) = []" "tr_parse_errors (udp_impl_new self) = 0" by (simp_all add: udp_impl_new_def)
  have ok: "\<forall>os \<in> set (map snd polls). \<forall>d \<in> set (snd os). datagram_ok d" using assms(1) by auto
  from udp.polls_lose_nothing [OF assms(2)] udp_poll_errors [OF assms] show ?thesis
    unfolding reads new udp_arrivals [OF ok] Let_def by (simp only: fst_conv snd_conv append_Nil map_map add_0_left)
qed

theorem udp_polls_exactly_once_witness:
  "let (bs, ms, s') = poll_all udp_poll_beacons udp_poll_messages
      (map udp_poll [(False, WouldBlock, [Inl [1, 2, 3], Inr (Beacon state_vector_default)]), (True, WouldBlock, [Inl [255]])])
      (udp_impl_new (HID 9 uuid_nil))
   in bs @ tr_inbox_beacons s' = [state_vector_default] \<and> tr_parse_errors s' = 2"
proof -
  let ?in = "[(False, WouldBlock, [Inl [1, 2, 3], Inr (Beacon state_vector_default)]), (True, WouldBlock, [Inl [255]])]"
  obtain bs ms s' where r: "poll_all udp_poll_beacons udp_poll_messages (map udp_poll ?in) (udp_impl_new (HID 9 uuid_nil)) = (bs, ms, s')"
    by (cases rule: prod_cases3)
  have "packet_wf (Beacon state_vector_default)"
    by (simp add: state_vector_wf_def state_vector_default_def hid_wf_def uuid_wf_def hid_default_def uuid_nil_def)
  moreover have "frame_bad (take MAX_FRAME_BYTES [1, 2, 3])" "frame_bad (take MAX_FRAME_BYTES [255])" by code_simp+
  ultimately have "\<forall>(beacons, e, ds) \<in> set ?in. \<forall>d \<in> set ds. datagram_ok d" by (simp add: datagram_ok_def)
  from udp_polls_exactly_once [OF this r] r show ?thesis
    by (simp add: Let_def state_vector_default_def hid_default_def)
qed

end
