(* ===== verification/Neighbour_Table.thy ===== *)
theory Neighbour_Table
  imports Components "HOL-Library.AList"
begin

text \<open>
  \<open>NeighbourTable\<close> (include/mith/comms/neighbour_table.h, src/comms/neighbour_table.cpp): the entries,
  one per identity, and the hash grid that indexes them by position.  The grid, an
  \<open>unordered_map\<close> that the code never iterates, is an association list.  Converting a cell
  coordinate to \<open>int32_t\<close> is undefined behaviour out of range, so the operations return a \<open>res\<close>.

  \<open>nt_inv\<close> says that no identity occurs twice and that the grid holds exactly the index of every entry
  in the bucket of its cell.  All operations keep it.  The contract the systems rely on is the locale
  \<open>observation_store\<close>, which the table implements: a look-up returns the latest observation.  The
  range query visits every entry of the scanned cells that is in range, once.
\<close>

section \<open>State\<close>

definition UNKNOWN_RSSI :: f32 where
  "UNKNOWN_RSSI = f32_nan"

record nt_entry =
  ne_hid :: hid
  ne_position :: position
  ne_velocity :: velocity
  ne_health :: u8
  ne_role :: u32
  ne_state :: u32
  ne_last_seen_s :: f32
  ne_rssi :: f32
  ne_sync_time_s :: f32

datatype cell = Cell int int int

type_synonym grid = "(cell \<times> nat list) list"

record neighbour_table =
  nt_entries :: "nt_entry list"
  nt_total_observations :: u64
  nt_total_evictions :: u64
  nt_cell_size_m :: f32
  nt_grid :: grid

definition CELL_SIZE_DEFAULT :: f32 where
  "CELL_SIZE_DEFAULT = 0x40A00000"

definition nt_new :: neighbour_table where
  "nt_new = \<lparr>nt_entries = [], nt_total_observations = 0, nt_total_evictions = 0,
     nt_cell_size_m = CELL_SIZE_DEFAULT, nt_grid = []\<rparr>"

section \<open>Operations\<close>

definition cell_for :: "f32 \<Rightarrow> position \<Rightarrow> cell res" where
  "cell_for cell_size p =
     (if f32_le cell_size f32_zero then Inr (Cell 0 0 0)
      else
        let inv = f32_div f32_one cell_size in
        rbind (floor_to_i32 (f32_mul (pos_x p) inv)) (\<lambda>cx.
        rbind (floor_to_i32 (f32_mul (pos_y p) inv)) (\<lambda>cy.
        rbind (floor_to_i32 (f32_mul (pos_z p) inv)) (\<lambda>cz. Inr (Cell cx cy cz)))))"

text \<open>\<open>grid_[key]\<close> creates an empty bucket where there is none.\<close>

definition grid_at :: "grid \<Rightarrow> cell \<Rightarrow> nat list" where
  "grid_at g k = (case map_of g k of None \<Rightarrow> [] | Some b \<Rightarrow> b)"

definition grid_push :: "cell \<Rightarrow> nat \<Rightarrow> grid \<Rightarrow> grid" where
  "grid_push k i g = AList.update k (grid_at g k @ [i]) g"

definition grid_remove :: "cell \<Rightarrow> nat \<Rightarrow> grid \<Rightarrow> grid" where
  "grid_remove k i g =
     (let bucket = removeAll i (grid_at g k) in
      if bucket = [] then AList.delete k g else AList.update k bucket g)"

definition rebuild_grid :: "f32 \<Rightarrow> nt_entry list \<Rightarrow> grid res" where
  "rebuild_grid cell_size es =
     (if f32_le cell_size f32_zero then Inr []
      else rfold (\<lambda>i g. rmap (\<lambda>c. grid_push c i g) (cell_for cell_size (ne_position (es ! i)))) [0..<length es] [])"

fun find_index :: "nt_entry list \<Rightarrow> hid \<Rightarrow> nat option" where
  "find_index [] h = None"
| "find_index (e # es) h = (if ne_hid e = h then Some 0 else map_option Suc (find_index es h))"

definition entry_of :: "state_vector \<Rightarrow> f32 \<Rightarrow> f32 \<Rightarrow> nt_entry" where
  "entry_of sv current_time_s rssi =
     \<lparr>ne_hid = sv_id sv, ne_position = sv_position sv, ne_velocity = sv_velocity sv, ne_health = sv_health sv,
      ne_role = sv_role sv, ne_state = sv_state sv, ne_last_seen_s = current_time_s, ne_rssi = rssi,
      ne_sync_time_s = sv_sync_time_s sv\<rparr>"

definition nt_upsert :: "state_vector \<Rightarrow> f32 \<Rightarrow> f32 \<Rightarrow> neighbour_table \<Rightarrow> neighbour_table res" where
  "nt_upsert sv current_time_s rssi t =
     rmap (\<lambda>t. t\<lparr>nt_total_observations := nt_total_observations t + 1\<rparr>)
     (case find_index (nt_entries t) (sv_id sv) of
        None \<Rightarrow>
          let e = entry_of sv current_time_s rssi;
              idx = length (nt_entries t);
              t1 = t\<lparr>nt_entries := nt_entries t @ [e]\<rparr>
          in if f32_lt f32_zero (nt_cell_size_m t)
             then rmap (\<lambda>c. t1\<lparr>nt_grid := grid_push c idx (nt_grid t)\<rparr>) (cell_for (nt_cell_size_m t) (ne_position e))
             else Inr t1
      | Some idx \<Rightarrow>
          rbind (cell_for (nt_cell_size_m t) (ne_position (nt_entries t ! idx))) (\<lambda>prev_cell.
            let e = (nt_entries t ! idx)\<lparr>ne_position := sv_position sv, ne_velocity := sv_velocity sv,
                      ne_health := sv_health sv, ne_role := sv_role sv, ne_state := sv_state sv,
                      ne_last_seen_s := current_time_s, ne_rssi := rssi, ne_sync_time_s := sv_sync_time_s sv\<rparr>;
                t1 = t\<lparr>nt_entries := (nt_entries t)[idx := e]\<rparr>
            in if f32_lt f32_zero (nt_cell_size_m t)
               then rmap (\<lambda>new_cell.
                      if new_cell \<noteq> prev_cell
                      then t1\<lparr>nt_grid := grid_push new_cell idx (grid_remove prev_cell idx (nt_grid t))\<rparr>
                      else t1) (cell_for (nt_cell_size_m t) (ne_position e))
               else Inr t1))"

definition nt_age_out :: "f32 \<Rightarrow> f32 \<Rightarrow> neighbour_table \<Rightarrow> neighbour_table res" where
  "nt_age_out current_time_s timeout_s t =
     (let threshold = f32_sub current_time_s timeout_s;
          es = filter (\<lambda>e. \<not> f32_lt (ne_last_seen_s e) threshold) (nt_entries t);
          removed = length (nt_entries t) - length es;
          t1 = t\<lparr>nt_entries := es, nt_total_evictions := nt_total_evictions t + of_nat removed\<rparr>
      in if 0 < removed
         then rmap (\<lambda>g. t1\<lparr>nt_grid := g\<rparr>) (rebuild_grid (nt_cell_size_m t) es)
         else Inr t1)"

definition nt_clear :: "neighbour_table \<Rightarrow> neighbour_table" where
  "nt_clear t = t\<lparr>nt_entries := [], nt_grid := []\<rparr>"

definition nt_set_cell_size_m :: "f32 \<Rightarrow> neighbour_table \<Rightarrow> neighbour_table res" where
  "nt_set_cell_size_m size_m t =
     (let size = (if f32_lt size_m f32_zero then f32_zero else size_m) in
      rmap (\<lambda>g. t\<lparr>nt_cell_size_m := size, nt_grid := g\<rparr>) (rebuild_grid size (nt_entries t)))"

definition nt_count :: "neighbour_table \<Rightarrow> nat" where
  "nt_count t = length (nt_entries t)"

definition nt_occupied_cells :: "neighbour_table \<Rightarrow> nat" where
  "nt_occupied_cells t = length (nt_grid t)"

definition nt_find :: "neighbour_table \<Rightarrow> hid \<Rightarrow> nt_entry option" where
  "nt_find t h = map_option (\<lambda>i. nt_entries t ! i) (find_index (nt_entries t) h)"

definition dist_sq :: "position \<Rightarrow> position \<Rightarrow> f32" where
  "dist_sq p centre =
     (let dx = f32_sub (pos_x p) (pos_x centre);
          dy = f32_sub (pos_y p) (pos_y centre);
          dz = f32_sub (pos_z p) (pos_z centre)
      in f32_add (f32_add (f32_mul dx dx) (f32_mul dy dy)) (f32_mul dz dz))"

definition in_range :: "position \<Rightarrow> f32 \<Rightarrow> nt_entry \<Rightarrow> bool" where
  "in_range centre radius_m e = f32_le (dist_sq (ne_position e) centre) (f32_mul radius_m radius_m)"

text \<open>The sum of two \<open>int\<close>s, undefined on overflow.\<close>

definition i32_add :: "int \<Rightarrow> int \<Rightarrow> int res" where
  "i32_add a b = (if in_i32 (a + b) then Inr (a + b) else Inl (Undefined ''signed integer overflow''))"

definition visit_cell ::
  "neighbour_table \<Rightarrow> position \<Rightarrow> f32 \<Rightarrow> cell \<Rightarrow> int \<times> int \<times> int \<Rightarrow> nt_entry list \<Rightarrow> nt_entry list res" where
  "visit_cell t centre radius_m centre_cell d visited =
     (case centre_cell of Cell cx cy cz \<Rightarrow> case d of (dz, dy, dx) \<Rightarrow>
        rbind (i32_add cx dx) (\<lambda>kx. rbind (i32_add cy dy) (\<lambda>ky. rbind (i32_add cz dz) (\<lambda>kz.
        rfold (\<lambda>idx vs.
                 if length (nt_entries t) \<le> idx then Inl (Undefined ''vector index out of range'')
                 else let e = nt_entries t ! idx in
                      Inr (if in_range centre radius_m e then vs @ [e] else vs))
          (grid_at (nt_grid t) (Cell kx ky kz)) visited))))"

text \<open>The offsets in the order of the three nested loops.\<close>

definition cube :: "int \<Rightarrow> (int \<times> int \<times> int) list" where
  "cube span = concat (map (\<lambda>dz. concat (map (\<lambda>dy. map (\<lambda>dx. (dz, dy, dx)) [- span..span]) [- span..span])) [- span..span])"

definition nt_for_each_within :: "neighbour_table \<Rightarrow> position \<Rightarrow> f32 \<Rightarrow> nt_entry list res" where
  "nt_for_each_within t centre radius_m =
     (if f32_le (nt_cell_size_m t) f32_zero \<or> nt_grid t = []
      then Inr (filter (in_range centre radius_m) (nt_entries t))
      else
        rbind (cell_for (nt_cell_size_m t) centre) (\<lambda>centre_cell.
        rbind (ceil_to_i32 (f32_div radius_m (nt_cell_size_m t))) (\<lambda>span.
        if span = - (2 ^ 31) \<or> span = 2 ^ 31 - 1 then Inl (Undefined ''signed integer overflow'')
        else rfold (visit_cell t centre radius_m centre_cell) (cube span) [])))"

section \<open>The grid\<close>

text \<open>\<open>grid_ok cs es g\<close>: index \<open>i\<close> is in the bucket of cell \<open>c\<close> exactly when entry \<open>i\<close> lies there.\<close>

definition grid_ok :: "f32 \<Rightarrow> nt_entry list \<Rightarrow> grid \<Rightarrow> bool" where
  "grid_ok cs es g \<longleftrightarrow>
     distinct (map fst g) \<and> (\<forall>c. distinct (grid_at g c)) \<and> (\<forall>c. map_of g c \<noteq> Some [])
     \<and> (\<forall>c i. i \<in> set (grid_at g c) \<longleftrightarrow> i < length es \<and> cell_for cs (ne_position (es ! i)) = Inr c)
     \<and> (\<forall>i < length es. \<exists>c. cell_for cs (ne_position (es ! i)) = Inr c)"

lemma grid_at_update [simp]: "grid_at (AList.update k b g) c = (if c = k then b else grid_at g c)"
  by (simp add: grid_at_def update_conv')

lemma grid_at_delete [simp]: "grid_at (AList.delete k g) c = (if c = k then [] else grid_at g c)"
  by (simp add: grid_at_def delete_conv')

lemma grid_at_push [simp]: "grid_at (grid_push k i g) c = (if c = k then grid_at g c @ [i] else grid_at g c)"
  by (simp add: grid_push_def)

lemma grid_at_remove [simp]: "grid_at (grid_remove k i g) c = (if c = k then removeAll i (grid_at g c) else grid_at g c)"
  by (simp add: grid_remove_def Let_def)

lemma grid_keys:
  "distinct (map fst g) \<Longrightarrow> distinct (map fst (grid_push k i g))"
  "distinct (map fst g) \<Longrightarrow> distinct (map fst (grid_remove k i g))"
  by (simp_all add: grid_push_def grid_remove_def Let_def distinct_update distinct_delete)

lemma grid_nonempty:
  "(\<And>c. map_of g c \<noteq> Some []) \<Longrightarrow> map_of (grid_push k i g) c \<noteq> Some []"
  "(\<And>c. map_of g c \<noteq> Some []) \<Longrightarrow> map_of (grid_remove k i g) c \<noteq> Some []"
  by (simp_all add: grid_push_def grid_remove_def Let_def update_conv' delete_conv')

lemma grid_ok_Nil: "grid_ok cs [] []"
  by (simp add: grid_ok_def grid_at_def)

lemma grid_ok_empty: "grid_ok cs es [] \<Longrightarrow> es = []"
  by (cases es) (auto simp: grid_ok_def grid_at_def)

lemma grid_ok_append:
  assumes "grid_ok cs es g" "cell_for cs (ne_position e) = Inr c"
  shows "grid_ok cs (es @ [e]) (grid_push c (length es) g)"
  using assms grid_keys(1) grid_nonempty(1)
  unfolding grid_ok_def by (auto simp: nth_append less_Suc_eq simp del: map_of_eq_Some_iff)

lemma grid_ok_update_same:
  assumes "grid_ok cs es g" "i < length es" "cell_for cs (ne_position e) = cell_for cs (ne_position (es ! i))"
  shows "grid_ok cs (es[i := e]) g"
  using assms unfolding grid_ok_def by (auto simp: nth_list_update)

lemma grid_ok_move:
  assumes "grid_ok cs es g" "i < length es" "cell_for cs (ne_position (es ! i)) = Inr c"
    and "cell_for cs (ne_position e) = Inr c'" "c' \<noteq> c"
  shows "grid_ok cs (es[i := e]) (grid_push c' i (grid_remove c i g))"
proof -
  have d: "distinct (map fst (grid_push c' i (grid_remove c i g)))"
    using assms(1) by (intro grid_keys) (simp add: grid_ok_def)
  have n: "map_of (grid_push c' i (grid_remove c i g)) k \<noteq> Some []" for k
    using assms(1) by (intro grid_nonempty) (simp add: grid_ok_def del: map_of_eq_Some_iff)
  show ?thesis using assms d n unfolding grid_ok_def by (auto simp: nth_list_update distinct_removeAll simp del: map_of_eq_Some_iff)
qed

lemma rebuild_grid_ok:
  assumes "\<not> f32_le cs f32_zero" "\<forall>i < length es. \<exists>c. cell_for cs (ne_position (es ! i)) = Inr c"
  shows "\<exists>g. rebuild_grid cs es = Inr g \<and> grid_ok cs es g"
proof -
  have "n \<le> length es \<Longrightarrow> \<exists>g. rfold (\<lambda>i g. rmap (\<lambda>c. grid_push c i g) (cell_for cs (ne_position (es ! i)))) [0..<n] [] = Inr g
      \<and> grid_ok cs (take n es) g" for n
  proof (induction n)
    case (Suc n)
    then obtain g where g: "rfold (\<lambda>i g. rmap (\<lambda>c. grid_push c i g) (cell_for cs (ne_position (es ! i)))) [0..<n] [] = Inr g"
      "grid_ok cs (take n es) g" by auto
    obtain c where c: "cell_for cs (ne_position (es ! n)) = Inr c" using Suc.prems assms(2) by (meson Suc_le_lessD)
    have "grid_ok cs (take n es @ [es ! n]) (grid_push c (length (take n es)) g)"
      using g(2) c by (rule grid_ok_append)
    with Suc.prems g(1) c show ?case by (simp add: rfold_append take_Suc_conv_app_nth)
  qed (simp add: grid_ok_Nil)
  from this [of "length es"] assms(1) show ?thesis by (simp add: rebuild_grid_def)
qed

lemma rebuild_grid_defined:
  assumes "\<not> f32_le cs f32_zero" "rebuild_grid cs es = Inr g"
  shows "\<forall>i < length es. \<exists>c. cell_for cs (ne_position (es ! i)) = Inr c"
proof -
  have "n \<le> length es \<Longrightarrow> rfold (\<lambda>i g. rmap (\<lambda>c. grid_push c i g) (cell_for cs (ne_position (es ! i)))) [0..<n] [] = Inr g'
      \<Longrightarrow> \<forall>i < n. \<exists>c. cell_for cs (ne_position (es ! i)) = Inr c" for n g'
  proof (induction n arbitrary: g')
    case (Suc n)
    then show ?case by (auto simp: rfold_append rbind_eq_Inr_iff rmap_eq_Inr_iff less_Suc_eq)
  qed simp
  from this [of "length es" g] assms show ?thesis by (simp add: rebuild_grid_def)
qed

section \<open>The invariant\<close>

lemma f32_nan_facts: "f32_isnan f32_nan" "\<not> f32_isfinite f32_nan"
  by code_simp+

definition nt_inv :: "neighbour_table \<Rightarrow> bool" where
  "nt_inv t \<longleftrightarrow> distinct (map ne_hid (nt_entries t))
     \<and> (if f32_lt f32_zero (nt_cell_size_m t) then grid_ok (nt_cell_size_m t) (nt_entries t) (nt_grid t) else nt_grid t = [])"

abbreviation nt_lookup :: "nt_entry list \<Rightarrow> hid \<Rightarrow> nt_entry option" where
  "nt_lookup es \<equiv> map_of (map (\<lambda>e. (ne_hid e, e)) es)"

lemma nt_find_lookup: "nt_find t h = nt_lookup (nt_entries t) h"
proof -
  have "map_option (\<lambda>i. es ! i) (find_index es h) = nt_lookup es h" for es
    by (induction es) (auto simp: option.map_comp o_def)
  then show ?thesis by (simp add: nt_find_def)
qed

lemma find_index_None: "find_index es h = None \<longleftrightarrow> h \<notin> ne_hid ` set es"
  by (induction es) auto

lemma find_index_Some: "find_index es h = Some i \<Longrightarrow> i < length es \<and> ne_hid (es ! i) = h"
  by (induction es arbitrary: i) (auto split: if_splits)

lemma lookup_update:
  assumes "distinct (map ne_hid es)" "find_index es h = Some i" "ne_hid e = h"
  shows "nt_lookup (es[i := e]) = (nt_lookup es)(h \<mapsto> e)"
  using assms by (induction es arbitrary: i) (auto split: if_splits simp: fun_eq_iff)

lemma map_hid_update: "ne_hid e = ne_hid (es ! i) \<Longrightarrow> map ne_hid (es[i := e]) = map ne_hid es"
  by (metis list_update_id map_update)

lemma f32_pos_not_le: "f32_lt f32_zero x \<Longrightarrow> \<not> f32_le x f32_zero"
  using f32_le_lt_trans f32_lt_irrefl by blast

lemma nt_upsert_effect:
  assumes "nt_upsert sv now rssi t = Inr t'"
  shows "nt_cell_size_m t' = nt_cell_size_m t \<and> nt_total_observations t' = nt_total_observations t + 1
    \<and> nt_entries t' = (case find_index (nt_entries t) (sv_id sv) of None \<Rightarrow> nt_entries t @ [entry_of sv now rssi]
         | Some i \<Rightarrow> (nt_entries t)[i := entry_of sv now rssi])"
proof (cases "find_index (nt_entries t) (sv_id sv)")
  case (Some i)
  have "(nt_entries t ! i)\<lparr>ne_position := sv_position sv, ne_velocity := sv_velocity sv, ne_health := sv_health sv,
      ne_role := sv_role sv, ne_state := sv_state sv, ne_last_seen_s := now, ne_rssi := rssi,
      ne_sync_time_s := sv_sync_time_s sv\<rparr> = entry_of sv now rssi"
    using find_index_Some [OF Some] by (simp add: entry_of_def)
  with assms Some show ?thesis
    by (auto simp: nt_upsert_def Let_def rmap_eq_Inr_iff rbind_eq_Inr_iff split: if_splits)
qed (use assms in \<open>auto simp: nt_upsert_def Let_def rmap_eq_Inr_iff split: if_splits\<close>)

lemma nt_upsert_find:
  assumes "nt_inv t" "nt_upsert sv now rssi t = Inr t'"
  shows "nt_find t' = (nt_find t)(sv_id sv \<mapsto> entry_of sv now rssi)"
proof (cases "find_index (nt_entries t) (sv_id sv)")
  case None
  then have "nt_lookup (nt_entries t) (sv_id sv) = None" by (auto simp: find_index_None map_of_eq_None_iff)
  with None nt_upsert_effect [OF assms(2)] show ?thesis
    by (auto simp: nt_find_lookup fun_eq_iff map_add_def entry_of_def split: option.split)
next
  case (Some i)
  with assms(1) nt_upsert_effect [OF assms(2)] lookup_update [OF _ Some, of "entry_of sv now rssi"] show ?thesis
    by (simp add: nt_find_lookup fun_eq_iff nt_inv_def entry_of_def)
qed

lemma nt_upsert_inv:
  assumes "nt_inv t" "nt_upsert sv now rssi t = Inr t'"
  shows "nt_inv t'"
proof -
  let ?es = "nt_entries t" and ?cs = "nt_cell_size_m t" and ?e = "entry_of sv now rssi"
  note eff = nt_upsert_effect [OF assms(2)]
  have hid: "ne_hid ?e = sv_id sv" and pos: "ne_position ?e = sv_position sv" by (simp_all add: entry_of_def)
  show ?thesis
  proof (cases "find_index ?es (sv_id sv)")
    case None
    have "sv_id sv \<notin> ne_hid ` set ?es" using None by (simp add: find_index_None)
    moreover have "nt_entries t' = ?es @ [?e]" using eff None by simp
    ultimately have "distinct (map ne_hid (nt_entries t'))"
      using assms(1) hid by (simp add: nt_inv_def)
    moreover have "if f32_lt f32_zero ?cs then grid_ok ?cs (nt_entries t') (nt_grid t') else nt_grid t' = []"
      using assms None grid_ok_append [of ?cs ?es "nt_grid t" ?e]
      by (auto simp: nt_upsert_def nt_inv_def Let_def rmap_eq_Inr_iff split: if_splits)
    ultimately show ?thesis using conjunct1 [OF eff] by (simp add: nt_inv_def)
  next
    case (Some i)
    note i = find_index_Some [OF Some]
    have "distinct (map ne_hid (nt_entries t'))"
      using assms(1) eff Some map_hid_update [of ?e ?es i] hid i by (simp add: nt_inv_def)
    moreover have "if f32_lt f32_zero ?cs then grid_ok ?cs (?es[i := ?e]) (nt_grid t') else nt_grid t' = []"
      using assms Some i pos grid_ok_move [of ?cs ?es "nt_grid t" i _ ?e] grid_ok_update_same [of ?cs ?es "nt_grid t" i ?e]
      by (auto simp: nt_upsert_def nt_inv_def Let_def rmap_eq_Inr_iff rbind_eq_Inr_iff split: if_splits)
    ultimately show ?thesis using eff Some by (simp add: nt_inv_def)
  qed
qed

lemma nt_age_out_effect:
  assumes "nt_age_out now timeout t = Inr t'"
  shows "nt_cell_size_m t' = nt_cell_size_m t
    \<and> nt_entries t' = filter (\<lambda>e. \<not> f32_lt (ne_last_seen_s e) (f32_sub now timeout)) (nt_entries t)"
  using assms by (auto simp: nt_age_out_def Let_def rmap_eq_Inr_iff split: if_splits)

lemma cell_for_nan:
  assumes "f32_isnan cs"
  shows "cell_for cs p \<noteq> Inr c"
proof -
  have "f32_mul x f32_nan = f32_nan" for x by (simp add: f32_mul_def f32_nan_facts)
  moreover have "f32_div f32_one cs = f32_nan" using assms by (simp add: f32_div_def)
  moreover have "\<not> f32_le cs f32_zero" using assms by (simp add: f32_le_def)
  ultimately show ?thesis by (simp add: cell_for_def floor_to_i32_def f32_nan_facts)
qed

lemma rebuild_inv:
  assumes "rebuild_grid cs es = Inr g"
  shows "if f32_lt f32_zero cs then grid_ok cs es g else g = []"
proof (cases "f32_lt f32_zero cs")
  case True
  then have "\<not> f32_le cs f32_zero" by (rule f32_pos_not_le)
  from rebuild_grid_ok [OF this rebuild_grid_defined [OF this assms]] assms True show ?thesis by simp
next
  case False
  show ?thesis
  proof (cases "f32_le cs f32_zero")
    case True
    with assms False show ?thesis by (simp add: rebuild_grid_def)
  next
    case nan: False
    with False have "f32_isnan cs" using f32_not_lt [of f32_zero cs] by auto
    with rebuild_grid_defined [OF nan assms] have "es = []" by (cases es) (auto simp: cell_for_nan)
    with assms show ?thesis using False by (simp add: rebuild_grid_def split: if_splits)
  qed
qed

lemma nt_age_out_inv:
  assumes "nt_inv t" "nt_age_out now timeout t = Inr t'"
  shows "nt_inv t'"
proof -
  let ?es = "filter (\<lambda>e. \<not> f32_lt (ne_last_seen_s e) (f32_sub now timeout)) (nt_entries t)"
  have d: "distinct (map ne_hid ?es)"
    using assms(1) by (simp add: nt_inv_def distinct_map_filter)
  show ?thesis
  proof (cases "length ?es < length (nt_entries t)")
    case True
    then obtain g where "rebuild_grid (nt_cell_size_m t) ?es = Inr g" "nt_grid t' = g"
      using assms(2) by (auto simp: nt_age_out_def Let_def rmap_eq_Inr_iff split: if_splits)
    with rebuild_inv [of "nt_cell_size_m t" ?es g] d nt_age_out_effect [OF assms(2)] show ?thesis
      by (simp add: nt_inv_def)
  next
    case False
    then have same: "?es = nt_entries t" by (metis filter_True length_filter_less)
    with assms show ?thesis by (auto simp: nt_age_out_def Let_def nt_inv_def)
  qed
qed

lemma map_of_filter_hid:
  "distinct (map ne_hid es) \<Longrightarrow> nt_lookup (filter P es) h = (case nt_lookup es h of None \<Rightarrow> None | Some e \<Rightarrow> if P e then Some e else None)"
  by (induction es) (auto simp: map_of_eq_None_iff split: option.split)

lemma nt_age_out_find:
  assumes "nt_inv t" "nt_age_out now timeout t = Inr t'"
  shows "nt_find t' h = (case nt_find t h of None \<Rightarrow> None
    | Some e \<Rightarrow> if f32_lt (ne_last_seen_s e) (f32_sub now timeout) then None else Some e)"
  using nt_age_out_effect [OF assms(2)] map_of_filter_hid [of "nt_entries t"] assms(1)
  by (auto simp: nt_find_lookup nt_inv_def split: option.split)

lemma nt_new_inv: "nt_inv nt_new"
  by (simp add: nt_inv_def nt_new_def grid_ok_Nil)

lemma nt_clear_inv: "nt_inv (nt_clear t)"
  by (simp add: nt_inv_def nt_clear_def grid_ok_Nil)

lemma nt_set_cell_size_inv:
  assumes "nt_inv t" "nt_set_cell_size_m size_m t = Inr t'"
  shows "nt_inv t' \<and> nt_entries t' = nt_entries t"
  using assms rebuild_inv
  by (auto simp: nt_set_cell_size_m_def nt_inv_def Let_def rmap_eq_Inr_iff split: if_splits)

section \<open>The contract: the latest observation of every peer\<close>

locale observation_store =
  fixes observe :: "state_vector \<Rightarrow> f32 \<Rightarrow> f32 \<Rightarrow> 's \<Rightarrow> 's res"
    and expire :: "f32 \<Rightarrow> f32 \<Rightarrow> 's \<Rightarrow> 's res"
    and lookup :: "'s \<Rightarrow> hid \<Rightarrow> nt_entry option"
    and inv :: "'s \<Rightarrow> bool"
  assumes observe_law: "inv s \<Longrightarrow> observe sv now rssi s = Inr s' \<Longrightarrow>
        inv s' \<and> lookup s' = (lookup s)(sv_id sv \<mapsto> entry_of sv now rssi)"
    and expire_law: "inv s \<Longrightarrow> expire now timeout s = Inr s' \<Longrightarrow>
        inv s' \<and> lookup s' h = (case lookup s h of None \<Rightarrow> None
          | Some e \<Rightarrow> if f32_lt (ne_last_seen_s e) (f32_sub now timeout) then None else Some e)"
begin

lemma observe_all:
  assumes "inv s" "rfold (\<lambda>sv. observe sv now rssi) svs s = Inr s'"
  shows "inv s' \<and> lookup s' h = (let mine = filter (\<lambda>sv. sv_id sv = h) svs in
    if mine = [] then lookup s h else Some (entry_of (last mine) now rssi))"
  using assms
proof (induction svs arbitrary: s)
  case (Cons sv svs)
  then obtain s1 where s1: "observe sv now rssi s = Inr s1" "rfold (\<lambda>sv. observe sv now rssi) svs s1 = Inr s'"
    by (auto simp: rbind_eq_Inr_iff)
  from observe_law [OF Cons.prems(1) s1(1)]
  have l: "inv s1" "lookup s1 = (lookup s)(sv_id sv \<mapsto> entry_of sv now rssi)" by simp_all
  from Cons.IH [OF l(1) s1(2)] show ?case unfolding l(2) by (auto simp: Let_def)
qed (simp add: Let_def)

text \<open>Expiry followed by a round of observations, as \<open>BeaconSystem\<close> performs them in a tick.\<close>

lemma expire_then_observe:
  assumes "inv s" "expire now timeout s = Inr s1" "rfold (\<lambda>sv. observe sv now rssi) svs s1 = Inr s2"
  shows "lookup s2 h = (let mine = filter (\<lambda>sv. sv_id sv = h) svs in
    if mine \<noteq> [] then Some (entry_of (last mine) now rssi)
    else case lookup s h of None \<Rightarrow> None
      | Some e \<Rightarrow> if f32_lt (ne_last_seen_s e) (f32_sub now timeout) then None else Some e)"
proof -
  note e = expire_law [OF assms(1,2), of h]
  from observe_all [OF conjunct1 [OF e] assms(3), of h] e show ?thesis by (simp add: Let_def)
qed

end

interpretation neighbours: observation_store nt_upsert nt_age_out nt_find nt_inv
proof unfold_locales
  fix s s' :: neighbour_table and sv now rssi timeout h
  show "nt_inv s \<Longrightarrow> nt_upsert sv now rssi s = Inr s' \<Longrightarrow>
      nt_inv s' \<and> nt_find s' = (nt_find s)(sv_id sv \<mapsto> entry_of sv now rssi)"
    using nt_upsert_inv nt_upsert_find by blast
  show "nt_inv s \<Longrightarrow> nt_age_out now timeout s = Inr s' \<Longrightarrow> nt_inv s' \<and> nt_find s' h = (case nt_find s h of None \<Rightarrow> None
      | Some e \<Rightarrow> if f32_lt (ne_last_seen_s e) (f32_sub now timeout) then None else Some e)"
    using nt_age_out_inv [of s now timeout s'] nt_age_out_find [of s now timeout s' h] by blast
qed

section \<open>The range query\<close>

lemma visit_bucket:
  assumes "\<forall>i \<in> set idxs. i < length es"
  shows "rfold (\<lambda>idx vs. if length es \<le> idx then Inl (Undefined ''vector index out of range'')
      else let e = es ! idx in Inr (if in_range centre r e then vs @ [e] else vs)) idxs vs
    = Inr (vs @ filter (in_range centre r) (map ((!) es) idxs))"
  using assms by (induction idxs arbitrary: vs) (auto simp: Let_def not_le)

fun cell_key :: "cell \<Rightarrow> int \<times> int \<times> int \<Rightarrow> cell" where
  "cell_key (Cell cx cy cz) (dz, dy, dx) = Cell (cx + dx) (cy + dy) (cz + dz)"

fun cell_in_i32 :: "cell \<Rightarrow> bool" where
  "cell_in_i32 (Cell x y z) \<longleftrightarrow> in_i32 x \<and> in_i32 y \<and> in_i32 z"

lemma visit_cell_eq:
  assumes "\<forall>c. \<forall>i \<in> set (grid_at (nt_grid t) c). i < length (nt_entries t)"
  shows "visit_cell t centre r cc d vs =
    (if cell_in_i32 (cell_key cc d)
     then Inr (vs @ filter (in_range centre r) (map ((!) (nt_entries t)) (grid_at (nt_grid t) (cell_key cc d))))
     else Inl (Undefined ''signed integer overflow''))"
  using visit_bucket [of "grid_at (nt_grid t) (cell_key cc d)" "nt_entries t" centre r vs] assms
  by (cases cc; cases d) (auto simp: visit_cell_def i32_add_def)

lemma visit_cells:
  assumes "\<forall>c. \<forall>i \<in> set (grid_at (nt_grid t) c). i < length (nt_entries t)"
  shows "rfold (visit_cell t centre r cc) ds vs =
    (if \<forall>d \<in> set ds. cell_in_i32 (cell_key cc d)
     then Inr (vs @ filter (in_range centre r) (map ((!) (nt_entries t)) (concat (map (\<lambda>d. grid_at (nt_grid t) (cell_key cc d)) ds))))
     else Inl (Undefined ''signed integer overflow''))"
  by (induction ds arbitrary: vs) (auto simp: visit_cell_eq [OF assms])

lemma cube_product: "cube s = List.product [- s..s] (List.product [- s..s] [- s..s])"
  by (simp add: cube_def product_concat_map map_concat o_def)

lemma distinct_cube: "distinct (cube s)"
  by (simp add: cube_product distinct_product)

lemma cell_key_inj: "cell_key c d = cell_key c d' \<Longrightarrow> d = d'"
  by (cases c; cases d; cases d') auto

lemma distinct_buckets:
  assumes "distinct ds" "\<forall>c. distinct (grid_at g c)"
    and "\<And>c c' i. i \<in> set (grid_at g c) \<Longrightarrow> i \<in> set (grid_at g c') \<Longrightarrow> c = c'"
  shows "distinct (concat (map (\<lambda>d. grid_at g (cell_key cc d)) ds))"
  using assms(1)
proof (induction ds)
  case (Cons d ds)
  have "set (grid_at g (cell_key cc d)) \<inter> set (grid_at g (cell_key cc d')) = {}" if "d' \<in> set ds" for d'
    using that Cons.prems assms(3) cell_key_inj by (metis disjoint_iff distinct.simps(2))
  then have "set (grid_at g (cell_key cc d)) \<inter> (\<Union>d' \<in> set ds. set (grid_at g (cell_key cc d'))) = {}" by blast
  with Cons assms(2) show ?case by simp
qed simp

text \<open>Whether the scan reaches the cell of an entry.\<close>

definition scanned :: "neighbour_table \<Rightarrow> position \<Rightarrow> f32 \<Rightarrow> nt_entry \<Rightarrow> bool" where
  "scanned t centre r e \<longleftrightarrow>
     f32_le (nt_cell_size_m t) f32_zero \<or> nt_grid t = []
     \<or> (case (cell_for (nt_cell_size_m t) centre, ceil_to_i32 (f32_div r (nt_cell_size_m t)),
              cell_for (nt_cell_size_m t) (ne_position e)) of
          (Inr (Cell cx cy cz), Inr span, Inr (Cell x y z)) \<Rightarrow>
            \<bar>x - cx\<bar> \<le> span \<and> \<bar>y - cy\<bar> \<le> span \<and> \<bar>z - cz\<bar> \<le> span
        | _ \<Rightarrow> False)"

lemma cell_key_cube:
  "(\<exists>d \<in> set (cube s). cell_key (Cell cx cy cz) d = Cell x y z) \<longleftrightarrow> \<bar>x - cx\<bar> \<le> s \<and> \<bar>y - cy\<bar> \<le> s \<and> \<bar>z - cz\<bar> \<le> s"
proof
  assume "\<bar>x - cx\<bar> \<le> s \<and> \<bar>y - cy\<bar> \<le> s \<and> \<bar>z - cz\<bar> \<le> s"
  then have "(z - cz, y - cy, x - cx) \<in> set (cube s)" by (auto simp: cube_product)
  then show "\<exists>d \<in> set (cube s). cell_key (Cell cx cy cz) d = Cell x y z" by (rule rev_bexI) simp
qed (auto simp: cube_product)

lemma query_indices:
  assumes inv: "nt_inv t" and idx: "\<not> f32_le (nt_cell_size_m t) f32_zero" "nt_grid t \<noteq> []"
    and q: "nt_for_each_within t centre r = Inr vs"
  obtains js where "vs = filter (in_range centre r) (map ((!) (nt_entries t)) js)" "distinct js"
    "\<And>i. i \<in> set js \<longleftrightarrow> i < length (nt_entries t) \<and> scanned t centre r (nt_entries t ! i)"
proof -
  from inv idx(2) have pos: "f32_lt f32_zero (nt_cell_size_m t)" and ok: "grid_ok (nt_cell_size_m t) (nt_entries t) (nt_grid t)"
    by (auto simp: nt_inv_def split: if_splits)
  from q idx obtain cx cy cz s where c: "cell_for (nt_cell_size_m t) centre = Inr (Cell cx cy cz)"
    and s: "ceil_to_i32 (f32_div r (nt_cell_size_m t)) = Inr s"
    and f: "rfold (visit_cell t centre r (Cell cx cy cz)) (cube s) [] = Inr vs"
    by (auto simp: nt_for_each_within_def rbind_eq_Inr_iff split: if_splits) (metis cell.exhaust)
  let ?js = "concat (map (\<lambda>d. grid_at (nt_grid t) (cell_key (Cell cx cy cz) d)) (cube s))"
  have bound: "\<forall>c. \<forall>i \<in> set (grid_at (nt_grid t) c). i < length (nt_entries t)" using ok by (simp add: grid_ok_def)
  have vs: "vs = filter (in_range centre r) (map ((!) (nt_entries t)) ?js)"
    using f visit_cells [OF bound, of centre r "Cell cx cy cz" "cube s" "[]"] by (simp split: if_splits)
  have d: "distinct ?js"
    using ok by (intro distinct_buckets distinct_cube) (auto simp: grid_ok_def)
  have "i \<in> set ?js \<longleftrightarrow> i < length (nt_entries t) \<and> scanned t centre r (nt_entries t ! i)" for i
  proof (cases "i < length (nt_entries t)")
    case True
    then obtain x y z where xyz: "cell_for (nt_cell_size_m t) (ne_position (nt_entries t ! i)) = Inr (Cell x y z)"
      using ok by (metis grid_ok_def cell.exhaust)
    have bucket: "i \<in> set (grid_at (nt_grid t) c) \<longleftrightarrow> c = Cell x y z" for c
      using ok True xyz by (auto simp: grid_ok_def)
    have "i \<in> set ?js \<longleftrightarrow> (\<exists>d \<in> set (cube s). cell_key (Cell cx cy cz) d = Cell x y z)"
      by (simp add: bucket)
    then show ?thesis using True xyz c s idx by (simp add: scanned_def cell_key_cube)
  qed (use bound in auto)
  with vs d that show ?thesis by blast
qed

lemma query_result:
  assumes "nt_inv t" "nt_for_each_within t centre r = Inr vs"
  shows "set vs = {e \<in> set (nt_entries t). in_range centre r e \<and> scanned t centre r e} \<and> distinct (map ne_hid vs)"
proof (cases "f32_le (nt_cell_size_m t) f32_zero \<or> nt_grid t = []")
  case True
  then show ?thesis using assms
    by (auto simp: nt_for_each_within_def scanned_def nt_inv_def distinct_map_filter)
next
  case False
  then obtain js where vs: "vs = filter (in_range centre r) (map ((!) (nt_entries t)) js)" and d: "distinct js"
    and mem: "\<And>i. i \<in> set js \<longleftrightarrow> i < length (nt_entries t) \<and> scanned t centre r (nt_entries t ! i)"
    using query_indices [OF assms(1) _ _ assms(2)] by metis
  have "distinct (map ne_hid (nt_entries t))" using assms(1) by (simp add: nt_inv_def)
  then have "inj_on (\<lambda>i. ne_hid (nt_entries t ! i)) (set js)"
    using mem by (auto simp: inj_on_def distinct_conv_nth)
  then have "distinct (map ne_hid (map ((!) (nt_entries t)) js))" using d by (simp add: distinct_map o_def)
  with vs mem show ?thesis by (auto simp: distinct_map_filter in_set_conv_nth)
qed

section \<open>Results\<close>

datatype nt_op = Upsert state_vector f32 f32 | AgeOut f32 f32 | Clear | SetCellSize f32

fun nt_apply :: "nt_op \<Rightarrow> neighbour_table \<Rightarrow> neighbour_table res" where
  "nt_apply (Upsert sv now rssi) t = nt_upsert sv now rssi t"
| "nt_apply (AgeOut now timeout) t = nt_age_out now timeout t"
| "nt_apply Clear t = Inr (nt_clear t)"
| "nt_apply (SetCellSize s) t = nt_set_cell_size_m s t"

lemma nt_apply_inv: "nt_inv t \<Longrightarrow> nt_apply op t = Inr t' \<Longrightarrow> nt_inv t'"
  by (cases op) (auto intro: nt_upsert_inv nt_age_out_inv nt_clear_inv dest: nt_set_cell_size_inv)

lemma nt_run_inv: "nt_inv t \<Longrightarrow> rfold nt_apply ops t = Inr t' \<Longrightarrow> nt_inv t'"
  by (induction ops arbitrary: t) (auto simp: rbind_eq_Inr_iff intro: nt_apply_inv)

text \<open>
  Claim C4.  The table keeps its invariant under every sequence of operations (observations, expiry,
  clearing, changes of the cell size) from a new table: one entry per identity, and the hash grid
  holds the index of every entry exactly once, in the bucket of the cell of its current position, with
  no stale index and no empty bucket; with the index disabled the grid is empty.
\<close>

theorem neighbour_table_invariant:
  assumes "rfold nt_apply ops nt_new = Inr t"
  shows "distinct (map ne_hid (nt_entries t))
    \<and> (if f32_lt f32_zero (nt_cell_size_m t) then grid_ok (nt_cell_size_m t) (nt_entries t) (nt_grid t) else nt_grid t = [])"
  using nt_run_inv [OF nt_new_inv assms] by (simp add: nt_inv_def)

theorem neighbour_table_invariant_witness:
  "\<exists>t. rfold nt_apply [Upsert state_vector_default 0 0, Upsert (state_vector_default\<lparr>sv_health := 1\<rparr>) 0 0] nt_new = Inr t
     \<and> distinct (map ne_hid (nt_entries t)) \<and> nt_count t = 1"
proof -
  let ?ops = "[Upsert state_vector_default 0 0, Upsert (state_vector_default\<lparr>sv_health := 1\<rparr>) 0 0]"
  have "(case rfold nt_apply ?ops nt_new of Inr t \<Rightarrow> nt_count t = 1 | Inl _ \<Rightarrow> False)" by code_simp
  then obtain t where t: "rfold nt_apply ?ops nt_new = Inr t" "nt_count t = 1" by (auto split: sum.splits)
  with neighbour_table_invariant [OF t(1)] show ?thesis by blast
qed

text \<open>
  Claim C26.  The table answers with the latest observation.  In the order of a tick of the beacon system, stale
  entries are expired at time \<open>now\<close> and then the beacons \<open>svs\<close> are observed: afterwards the look-up of a peer heard in this
  round returns the entry of the last of its beacons, and a peer that was not heard keeps its old entry or,
  if that is older than the timeout, has none.
\<close>

theorem beacon_round_lookup:
  assumes "rfold nt_apply ops nt_new = Inr t"
    and "nt_age_out now timeout t = Inr t1" "rfold (\<lambda>sv. nt_upsert sv now rssi) svs t1 = Inr t2"
  shows "nt_find t2 h = (let mine = filter (\<lambda>sv. sv_id sv = h) svs in
    if mine \<noteq> [] then Some (entry_of (last mine) now rssi)
    else case nt_find t h of None \<Rightarrow> None
      | Some e \<Rightarrow> if f32_lt (ne_last_seen_s e) (f32_sub now timeout) then None else Some e)"
  using nt_run_inv [OF nt_new_inv assms(1)] assms(2,3) by (rule neighbours.expire_then_observe)

lemma ex_Inr_of_case: "(case r of Inl _ \<Rightarrow> False | Inr t \<Rightarrow> P t) \<Longrightarrow> \<exists>t. r = Inr t \<and> P t"
  by (cases r) simp_all

text \<open>Two peers are in the table, one stale; the round has two beacons of a third.\<close>

definition sample_peer :: "u8 \<Rightarrow> u8 \<Rightarrow> state_vector" where
  "sample_peer k health = state_vector_default\<lparr>sv_id := HID 1 (UUID (replicate 16 k)), sv_health := health\<rparr>"

theorem beacon_round_lookup_witness:
  "\<exists>t t1 t2. rfold nt_apply [Upsert (sample_peer 1 10) f32_zero 0, Upsert (sample_peer 2 20) f32_one 0] nt_new = Inr t
     \<and> nt_age_out f32_one 0x3F000000 t = Inr t1 \<and> rfold (\<lambda>sv. nt_upsert sv f32_one 0) [sample_peer 3 30, sample_peer 3 31] t1 = Inr t2
     \<and> nt_find t2 (sv_id (sample_peer 1 10)) = None \<and> nt_find t2 (sv_id (sample_peer 2 20)) = Some (entry_of (sample_peer 2 20) f32_one 0)
     \<and> nt_find t2 (sv_id (sample_peer 3 30)) = Some (entry_of (sample_peer 3 31) f32_one 0)"
proof -
  let ?ops = "[Upsert (sample_peer 1 10) f32_zero 0, Upsert (sample_peer 2 20) f32_one 0]" and ?svs = "[sample_peer 3 30, sample_peer 3 31]"
  have "(case rfold nt_apply ?ops nt_new of Inl _ \<Rightarrow> False | Inr t \<Rightarrow>
      nt_find t (sv_id (sample_peer 1 10)) = Some (entry_of (sample_peer 1 10) f32_zero 0) \<and> nt_find t (sv_id (sample_peer 2 20)) = Some (entry_of (sample_peer 2 20) f32_one 0)
      \<and> (case nt_age_out f32_one 0x3F000000 t of Inl _ \<Rightarrow> False | Inr t1 \<Rightarrow> \<not> isl (rfold (\<lambda>sv. nt_upsert sv f32_one 0) ?svs t1)))"
    by code_simp
  then obtain t t1 t2 where r: "rfold nt_apply ?ops nt_new = Inr t" "nt_age_out f32_one 0x3F000000 t = Inr t1"
      "rfold (\<lambda>sv. nt_upsert sv f32_one 0) ?svs t1 = Inr t2"
    and old: "nt_find t (sv_id (sample_peer 1 10)) = Some (entry_of (sample_peer 1 10) f32_zero 0)" "nt_find t (sv_id (sample_peer 2 20)) = Some (entry_of (sample_peer 2 20) f32_one 0)"
    by (auto split: sum.splits simp: isl_def) (metis sum.exhaust_sel isl_def)
  have ids: "sv_id (sample_peer 1 10) \<noteq> sv_id (sample_peer 3 30)" "sv_id (sample_peer 2 20) \<noteq> sv_id (sample_peer 3 30)" "sv_id (sample_peer 3 31) = sv_id (sample_peer 3 30)"
    "f32_lt (ne_last_seen_s (entry_of (sample_peer 1 10) f32_zero 0)) (f32_sub f32_one 0x3F000000)"
    "\<not> f32_lt (ne_last_seen_s (entry_of (sample_peer 2 20) f32_one 0)) (f32_sub f32_one 0x3F000000)" by code_simp+
  show ?thesis
    using beacon_round_lookup [OF r, of "sv_id (sample_peer 1 10)"] beacon_round_lookup [OF r, of "sv_id (sample_peer 2 20)"]
      beacon_round_lookup [OF r, of "sv_id (sample_peer 3 30)"] r old ids
    by (intro exI [of _ t] exI [of _ t1] exI [of _ t2]) auto
qed

text \<open>A query is defined when the index is off or empty, or when the cell of the centre and the number of cells
  to scan can be computed and no cell coordinate of the scanned cube overflows.\<close>

definition query_defined :: "neighbour_table \<Rightarrow> position \<Rightarrow> f32 \<Rightarrow> bool" where
  "query_defined t centre r \<longleftrightarrow>
     f32_le (nt_cell_size_m t) f32_zero \<or> nt_grid t = []
     \<or> (case (cell_for (nt_cell_size_m t) centre, ceil_to_i32 (f32_div r (nt_cell_size_m t))) of
          (Inr c, Inr span) \<Rightarrow> span \<noteq> - (2 ^ 31) \<and> span \<noteq> 2 ^ 31 - 1 \<and> (\<forall>d \<in> set (cube span). cell_in_i32 (cell_key c d))
        | _ \<Rightarrow> False)"

text \<open>
  Claim C25.  What a range query visits: each entry at most once, and an entry exactly when its computed
  distance is in range and its cell lies in the scanned cube around the centre.  The query is defined
  exactly when the cell coordinates it computes are, and never indexes the entry vector out of range.
\<close>

theorem range_query_exact:
  assumes "rfold nt_apply ops nt_new = Inr t"
  shows "nt_for_each_within t centre r \<noteq> Inl (Undefined ''vector index out of range'')
    \<and> (case nt_for_each_within t centre r of Inl _ \<Rightarrow> \<not> query_defined t centre r
       | Inr vs \<Rightarrow> query_defined t centre r \<and> distinct (map ne_hid vs)
           \<and> set vs = {e \<in> set (nt_entries t). in_range centre r e \<and> scanned t centre r e})"
proof -
  have inv: "nt_inv t" by (rule nt_run_inv [OF nt_new_inv assms])
  then have bound: "\<forall>c. \<forall>i \<in> set (grid_at (nt_grid t) c). i < length (nt_entries t)"
    by (cases "f32_lt f32_zero (nt_cell_size_m t)") (simp add: nt_inv_def grid_ok_def, simp add: nt_inv_def grid_at_def)
  have "nt_for_each_within t centre r \<noteq> Inl (Undefined ''vector index out of range'')"
    unfolding nt_for_each_within_def visit_cells [OF bound]
    by (auto simp: rbind_eq_Inl_iff cell_for_def floor_to_i32_def ceil_to_i32_def Let_def split: if_splits)
  moreover have "isl (nt_for_each_within t centre r) \<longleftrightarrow> \<not> query_defined t centre r"
    unfolding nt_for_each_within_def visit_cells [OF bound] query_defined_def by (auto simp: rbind_def split: sum.splits)
  ultimately show ?thesis using query_result [OF inv] by (auto split: sum.split)
qed

text \<open>Two peers in the cells around the origin: the query of 3 m visits the nearer one only.\<close>

definition sample_peer_at :: "u8 \<Rightarrow> f32 \<Rightarrow> state_vector" where
  "sample_peer_at k x = (sample_peer k 100)\<lparr>sv_position := position_default\<lparr>pos_x := x\<rparr>\<rparr>"

theorem range_query_exact_witness:
  "\<exists>t vs. rfold nt_apply [Upsert (sample_peer_at 1 0xC0000000) 0 0, Upsert (sample_peer_at 2 0x40800000) 0 0] nt_new = Inr t
     \<and> length (nt_grid t) = 2 \<and> nt_for_each_within t position_default 0x40400000 = Inr vs \<and> vs = [entry_of (sample_peer_at 1 0xC0000000) 0 0]"
proof -
  let ?ops = "[Upsert (sample_peer_at 1 0xC0000000) 0 0, Upsert (sample_peer_at 2 0x40800000) 0 0]"
    and ?q = "\<lambda>t. nt_for_each_within t position_default 0x40400000"
    and ?hit = "\<lambda>t e. in_range position_default 0x40400000 e \<and> scanned t position_default 0x40400000 e"
    and ?near = "entry_of (sample_peer_at 1 0xC0000000) 0 0" and ?far = "entry_of (sample_peer_at 2 0x40800000) 0 0"
  have "\<exists>t. rfold nt_apply ?ops nt_new = Inr t \<and> nt_entries t = [?near, ?far] \<and> length (nt_grid t) = 2 \<and> \<not> isl (?q t)
      \<and> ?hit t ?near \<and> \<not> ?hit t ?far"
    by (rule ex_Inr_of_case) code_simp
  then obtain t vs where r: "rfold nt_apply ?ops nt_new = Inr t" "?q t = Inr vs" "length (nt_grid t) = 2"
    and es: "nt_entries t = [?near, ?far]" and hit: "?hit t ?near" "\<not> ?hit t ?far"
    by (metis sum.collapse(2))
  have vs: "distinct (map ne_hid vs)" "set vs = {e \<in> set (nt_entries t). ?hit t e}"
    using range_query_exact [OF r(1), of position_default "0x40400000"] r(2) by simp_all
  then have "set vs = {?near}" using hit unfolding es by auto
  moreover have "distinct vs" using vs(1) by (simp add: distinct_map)
  ultimately have "vs = [?near]" by (cases vs; cases "tl vs") auto
  with r show ?thesis by blast
qed

text \<open>
  The index changes the answer at the edge of the range: with the default cell size of 5 m, a
  peer at x = 15 and a query of radius 10 m around x = 4.9999995, the linear scan visits the peer (the
  computed distance is exactly 10) and the grid does not, because the peer's cell is three cells away
  and the scan goes two cells far.
\<close>

theorem range_query_misses_edge:
  "(let peer = state_vector_default\<lparr>sv_position := position_default\<lparr>pos_x := 0x41700000\<rparr>\<rparr>;
        centre = position_default\<lparr>pos_x := 0x409FFFFF\<rparr>;
        query = (\<lambda>cell. rbind (nt_set_cell_size_m cell nt_new) (\<lambda>t. rbind (nt_upsert peer 0 0 t)
                  (\<lambda>t. rmap length (nt_for_each_within t centre 0x41200000))))
    in query CELL_SIZE_DEFAULT = Inr 0 \<and> query f32_zero = Inr 1)"
  by code_simp

text \<open>
  A received beacon can drive the table into undefined behaviour: the decoder accepts any
  bit pattern as a coordinate, and upserting a beacon whose position is not a number converts a NaN
  to \<open>int32_t\<close>, for every value of its other fields.
\<close>

theorem nan_beacon_undefined:
  "(let sv' = sv\<lparr>sv_position := (sv_position sv)\<lparr>pos_x := f32_nan\<rparr>\<rparr> in
    nt_upsert sv' now rssi nt_new = Inl (Undefined ''float to int32 conversion out of range''))"
proof -
  have "f32_mul f32_nan x = f32_nan" for x by (simp add: f32_mul_def f32_nan_facts)
  moreover have "f32_lt f32_zero CELL_SIZE_DEFAULT" "\<not> f32_le CELL_SIZE_DEFAULT f32_zero" by code_simp+
  ultimately show ?thesis
    by (simp add: nt_upsert_def nt_new_def Let_def entry_of_def cell_for_def floor_to_i32_def f32_nan_facts)
qed

end
