(* ===== verification/Scheduler.thy ===== *)
theory Scheduler
  imports Prelude "HOL-Library.List_Lexorder" "HOL-Library.Char_ord" "HOL-Library.Multiset"
begin

text \<open>
  \<open>SystemScheduler\<close> (include/mith/core/scheduler.h, src/core/scheduler.cpp) and the system interface
  (include/mith/core/system.h).

  A system is its descriptor and the list of the atomic actions its \<open>tick\<close> performs on the shared
  state; running \<open>tick\<close> alone is running them in order.  The sequential tick runs the systems in name
  order.  The parallel tick is a step relation: the main thread's seeding loop, the task queue, the
  workers of the pool (each ticking, then releasing its dependents, then completing) and the atomic
  in-degree counters interleave freely.

  The results: the order and the hazard graph; that a parallel tick that dispatches no system twice
  ends in the state of the sequential tick, for every interleaving of the seeding loop and the workers, when the actions
  respect the declared accesses; that every run ends with all systems run; a condition on the registration order under which no
  system is dispatched twice; and that otherwise a seeding loop that is overtaken by a worker can dispatch a system
  twice and leave the main thread waiting.
\<close>

section \<open>Systems and hazards\<close>

record descriptor =
  sd_name :: string
  reads_components :: "u64 list"
  writes_components :: "u64 list"
  reads_resources :: "u16 list"
  writes_resources :: "u16 list"

record 's system =
  sys_describe :: descriptor
  sys_actions :: "('s \<Rightarrow> 's) list"

definition run_actions :: "('s \<Rightarrow> 's) list \<Rightarrow> 's \<Rightarrow> 's" where
  "run_actions as s = fold (\<lambda>a s. a s) as s"

definition system_tick :: "'s system \<Rightarrow> 's \<Rightarrow> 's" where
  "system_tick y s = run_actions (sys_actions y) s"

definition intersects :: "'a list \<Rightarrow> 'a list \<Rightarrow> bool" where
  "intersects va vb = list_ex (\<lambda>x. list_ex (\<lambda>y. x = y) vb) va"

definition have_hazard :: "descriptor \<Rightarrow> descriptor \<Rightarrow> bool" where
  "have_hazard a b =
     (if intersects (writes_components a) (reads_components b) then True
      else if intersects (reads_components a) (writes_components b) then True
      else if intersects (writes_components a) (writes_components b) then True
      else if intersects (writes_resources a) (reads_resources b) then True
      else if intersects (reads_resources a) (writes_resources b) then True
      else if intersects (writes_resources a) (writes_resources b) then True
      else False)"

section \<open>The scheduler\<close>

datatype scheduler_mode = Parallel | Sequential
datatype scheduler_status = Ok | DuplicateName | AlreadyBuilt

text \<open>\<open>SystemTiming\<close>; the two \<open>double\<close> values are bit patterns.\<close>

record system_timing =
  ti_name :: string
  ti_start_us :: u64
  ti_duration_us :: u64
  ti_thread_id :: u32

record 's scheduler =
  sc_mode :: scheduler_mode
  sc_thread_pool_size :: nat
  sc_systems :: "'s system list"
  sc_order :: "nat list"
  sc_dependents :: "nat list list"
  sc_in_degree_initial :: "int list"
  sc_pool :: "nat option"
  sc_timings :: "system_timing list"
  sc_built :: bool

definition scheduler_new :: "scheduler_mode \<Rightarrow> nat \<Rightarrow> 's scheduler" where
  "scheduler_new mode pool_size =
     \<lparr>sc_mode = mode, sc_thread_pool_size = pool_size, sc_systems = [], sc_order = [], sc_dependents = [],
      sc_in_degree_initial = [], sc_pool = None, sc_timings = [], sc_built = False\<rparr>"

definition system_name :: "'s system list \<Rightarrow> nat \<Rightarrow> string" where
  "system_name ys i = sd_name (sys_describe (ys ! i))"

definition register_system :: "'s system option \<Rightarrow> 's scheduler \<Rightarrow> (scheduler_status \<times> 's scheduler) res" where
  "register_system system s =
     (case system of
        None \<Rightarrow> Inl (Abort ''register_system: null system pointer'')
      | Some y \<Rightarrow>
          if list_ex (\<lambda>existing. sd_name (sys_describe existing) = sd_name (sys_describe y)) (sc_systems s)
          then Inr (DuplicateName, s)
          else Inr (Ok, s\<lparr>sc_built := False, sc_systems := sc_systems s @ [y]\<rparr>))"

text \<open>\<open>resolve_pool_size\<close>; \<open>hc\<close> is \<open>hardware_concurrency()\<close>.\<close>

definition resolve_pool_size :: "nat \<Rightarrow> nat \<Rightarrow> nat" where
  "resolve_pool_size hc requested = (if 0 < requested then requested else if hc \<le> 1 then 1 else hc - 1)"

definition hazard_edge :: "'s system list \<Rightarrow> nat \<Rightarrow> nat \<Rightarrow> nat list list \<times> int list \<Rightarrow> nat list list \<times> int list" where
  "hazard_edge ys i j g =
     (case g of (dependents, in_degree) \<Rightarrow>
        if have_hazard (sys_describe (ys ! i)) (sys_describe (ys ! j))
        then (dependents[i := dependents ! i @ [j]], in_degree[j := in_degree ! j + 1])
        else (dependents, in_degree))"

text \<open>The nested loops over the positions \<open>pa < pb\<close> of the name order.\<close>

definition build_hazard_graph :: "'s system list \<Rightarrow> nat list \<Rightarrow> nat list list \<times> int list" where
  "build_hazard_graph ys order =
     (let N = length ys in
      fold (\<lambda>pa g. fold (\<lambda>pb g. hazard_edge ys (order ! pa) (order ! pb) g) [pa + 1..<N] g)
        [0..<N] (replicate N [], replicate N 0))"

text \<open>\<open>last_timings_.resize(systems_.size())\<close> and the loop that sets the names.\<close>

definition timing_default :: system_timing where
  "timing_default = \<lparr>ti_name = [], ti_start_us = 0, ti_duration_us = 0, ti_thread_id = 0\<rparr>"

definition resize_timings :: "'s system list \<Rightarrow> system_timing list \<Rightarrow> system_timing list" where
  "resize_timings ys ts =
     map (\<lambda>i. (if i < length ts then ts ! i else timing_default)\<lparr>ti_name := system_name ys i\<rparr>) [0..<length ys]"

definition build_graph :: "nat \<Rightarrow> 's scheduler \<Rightarrow> scheduler_status \<times> 's scheduler" where
  "build_graph hc s =
     (if sc_built s then (AlreadyBuilt, s)
      else
        let order = sort_key (system_name (sc_systems s)) [0..<length (sc_systems s)];
            s1 = s\<lparr>sc_order := order\<rparr>;
            s2 = (if sc_mode s = Parallel
                  then let g = build_hazard_graph (sc_systems s) order in
                       s1\<lparr>sc_dependents := fst g, sc_in_degree_initial := snd g,
                          sc_pool := (case sc_pool s of None \<Rightarrow> Some (resolve_pool_size hc (sc_thread_pool_size s))
                                      | Some p \<Rightarrow> Some p)\<rparr>
                  else s1)
        in (Ok, s2\<lparr>sc_timings := resize_timings (sc_systems s) (sc_timings s), sc_built := True\<rparr>))"

definition tick_sequential :: "'s scheduler \<Rightarrow> 's \<Rightarrow> 's res" where
  "tick_sequential s w =
     (if \<not> sc_built s then Inl (Abort ''tick(): build_graph() not called since last register_system()'')
      else Inr (fold (\<lambda>idx w. system_tick (sc_systems s ! idx) w) (sc_order s) w))"

text \<open>What a sequential tick writes to the timings: \<open>tid\<close> is the hash of the thread and \<open>us i\<close> the readings
  of the steady clock around system \<open>i\<close>, as the start within the tick and the duration.\<close>

definition record_timing :: "u32 \<Rightarrow> (nat \<Rightarrow> u64 \<times> u64) \<Rightarrow> nat \<Rightarrow> system_timing list \<Rightarrow> system_timing list" where
  "record_timing tid us i ts =
     ts[i := (ts ! i)\<lparr>ti_start_us := fst (us i), ti_duration_us := snd (us i), ti_thread_id := tid\<rparr>]"

definition record_timings :: "u32 \<Rightarrow> (nat \<Rightarrow> u64 \<times> u64) \<Rightarrow> 's scheduler \<Rightarrow> 's scheduler" where
  "record_timings tid us s = s\<lparr>sc_timings := fold (record_timing tid us) (sc_order s) (sc_timings s)\<rparr>"

definition scheduler_tick :: "u32 \<Rightarrow> (nat \<Rightarrow> u64 \<times> u64) \<Rightarrow> 's scheduler \<Rightarrow> 's \<Rightarrow> ('s scheduler \<times> 's) res" where
  "scheduler_tick tid us s w = rmap (\<lambda>w'. (record_timings tid us s, w')) (tick_sequential s w)"

section \<open>The parallel tick\<close>

datatype 's worker_phase = Ticking "('s \<Rightarrow> 's) list" | Releasing "nat list"

text \<open>\<open>p_seed\<close> is the index of the seeding loop of the main thread, \<open>p_finished\<close> the systems in the
  order of completion, whose number is the counter \<open>completed\<close>.\<close>

record 's pconf =
  p_seed :: nat
  p_in_degree :: "int list"
  p_queue :: "nat list"
  p_workers :: "(nat \<times> 's worker_phase) list"
  p_finished :: "nat list"
  p_state :: 's

definition pstart :: "'s scheduler \<Rightarrow> 's \<Rightarrow> 's pconf" where
  "pstart s w = \<lparr>p_seed = 0, p_in_degree = sc_in_degree_initial s, p_queue = [], p_workers = [], p_finished = [],
     p_state = w\<rparr>"

inductive pstep :: "'s scheduler \<Rightarrow> 's pconf \<Rightarrow> 's pconf \<Rightarrow> bool" for s where
  Seed: "p_seed c < length (sc_systems s) \<Longrightarrow>
    pstep s c (c\<lparr>p_seed := p_seed c + 1,
       p_queue := (if p_in_degree c ! p_seed c = 0 then p_queue c @ [p_seed c] else p_queue c)\<rparr>)"
| Take: "p_queue c = i # q \<Longrightarrow> sc_pool s = Some n \<Longrightarrow> length (p_workers c) < n \<Longrightarrow>
    pstep s c (c\<lparr>p_queue := q, p_workers := p_workers c @ [(i, Ticking (sys_actions (sc_systems s ! i)))]\<rparr>)"
| Act: "p_workers c = ws1 @ (i, Ticking (a # as)) # ws2 \<Longrightarrow>
    pstep s c (c\<lparr>p_state := a (p_state c), p_workers := ws1 @ (i, Ticking as) # ws2\<rparr>)"
| Ticked: "p_workers c = ws1 @ (i, Ticking []) # ws2 \<Longrightarrow>
    pstep s c (c\<lparr>p_workers := ws1 @ (i, Releasing (sc_dependents s ! i)) # ws2\<rparr>)"
| Release: "p_workers c = ws1 @ (i, Releasing (d # ds)) # ws2 \<Longrightarrow>
    pstep s c (c\<lparr>p_in_degree := (p_in_degree c)[d := p_in_degree c ! d - 1],
       p_queue := (if p_in_degree c ! d = 1 then p_queue c @ [d] else p_queue c),
       p_workers := ws1 @ (i, Releasing ds) # ws2\<rparr>)"
| Complete: "p_workers c = ws1 @ (i, Releasing []) # ws2 \<Longrightarrow>
    pstep s c (c\<lparr>p_finished := p_finished c @ [i], p_workers := ws1 @ ws2\<rparr>)"

text \<open>The wait of the main thread ends when the counter has reached the number of systems.\<close>

definition tick_over :: "'s scheduler \<Rightarrow> 's pconf \<Rightarrow> bool" where
  "tick_over s c \<longleftrightarrow> p_seed c = length (sc_systems s) \<and> length (p_finished c) = length (sc_systems s)"

section \<open>The hazard graph\<close>

definition name_pairs :: "nat list \<Rightarrow> nat \<Rightarrow> (nat \<times> nat) list" where
  "name_pairs order N = concat (map (\<lambda>pa. map (\<lambda>pb. (order ! pa, order ! pb)) [pa + 1..<N]) [0..<N])"

definition before :: "nat list \<Rightarrow> nat \<Rightarrow> nat \<Rightarrow> bool" where
  "before order i j \<longleftrightarrow> (\<exists>pa pb. pa < pb \<and> pb < length order \<and> order ! pa = i \<and> order ! pb = j)"

definition edge :: "'s system list \<Rightarrow> nat list \<Rightarrow> nat \<Rightarrow> nat \<Rightarrow> bool" where
  "edge ys order i j \<longleftrightarrow> before order i j \<and> have_hazard (sys_describe (ys ! i)) (sys_describe (ys ! j))"

lemma build_hazard_graph_pairs:
  "build_hazard_graph ys order =
     fold (\<lambda>(i, j) g. hazard_edge ys i j g) (name_pairs order (length ys)) (replicate (length ys) [], replicate (length ys) 0)"
proof -
  have "fold (\<lambda>(i, j) g. hazard_edge ys i j g) (concat (map (\<lambda>pa. map (\<lambda>pb. (order ! pa, order ! pb)) [pa + 1..<N]) ps)) g =
      fold (\<lambda>pa g. fold (\<lambda>pb g. hazard_edge ys (order ! pa) (order ! pb) g) [pa + 1..<N] g) ps g" for N ps g
    by (induction ps arbitrary: g) (simp_all add: fold_map o_def)
  then show ?thesis by (simp only: build_hazard_graph_def name_pairs_def Let_def)
qed

lemma hazard_fold:
  assumes "length (fst g) = N" "length (snd g) = N" "\<forall>(i, j) \<in> set ps. i < N \<and> j < N"
  shows "let g' = fold (\<lambda>(i, j) g. hazard_edge ys i j g) ps g;
      hz = filter (\<lambda>(i, j). have_hazard (sys_describe (ys ! i)) (sys_describe (ys ! j))) ps in
    length (fst g') = N \<and> length (snd g') = N
    \<and> (\<forall>i < N. fst g' ! i = fst g ! i @ map snd (filter (\<lambda>p. fst p = i) hz))
    \<and> (\<forall>j < N. snd g' ! j = snd g ! j + int (length (filter (\<lambda>p. snd p = j) hz)))"
  using assms
proof (induction ps arbitrary: g)
  case (Cons p ps)
  obtain i j where p: "p = (i, j)" by (cases p)
  obtain ds inD where g: "g = (ds, inD)" by (cases g)
  have "length (fst (hazard_edge ys i j g)) = N" "length (snd (hazard_edge ys i j g)) = N"
    using Cons.prems by (simp_all add: hazard_edge_def g)
  from Cons.IH [OF this] Cons.prems show ?case
    by (auto simp: p g hazard_edge_def Let_def nth_list_update)
qed (simp add: Let_def)

lemma set_name_pairs: "length order = N \<Longrightarrow> (i, j) \<in> set (name_pairs order N) \<longleftrightarrow> before order i j"
proof
  assume "length order = N" "before order i j"
  then obtain pa pb where "pa < pb" "pb < N" "i = order ! pa" "j = order ! pb" by (auto simp: before_def)
  then show "(i, j) \<in> set (name_pairs order N)"
    unfolding name_pairs_def by (auto intro!: bexI [of _ pa] image_eqI [of _ _ pb])
next
  assume "length order = N" "(i, j) \<in> set (name_pairs order N)"
  then obtain pa pb where "Suc pa \<le> pb" "pb < length order" "i = order ! pa" "j = order ! pb"
    by (auto simp: name_pairs_def)
  then show "before order i j" unfolding before_def by (metis Suc_le_eq)
qed

lemma distinct_name_pairs:
  assumes "distinct order" "length order = N"
  shows "distinct (name_pairs order N)"
proof -
  have "n \<le> N \<Longrightarrow> distinct (concat (map (\<lambda>pa. map (\<lambda>pb. (order ! pa, order ! pb)) [pa + 1..<N]) [0..<n]))" for n
  proof (induction n)
    case (Suc n)
    have "distinct (map (\<lambda>pb. (order ! n, order ! pb)) [n + 1..<N])"
      using assms Suc.prems by (auto simp: distinct_map inj_on_def nth_eq_iff_index_eq)
    moreover have "\<forall>pa < n. order ! n \<noteq> order ! pa"
      using assms Suc.prems by (auto simp: nth_eq_iff_index_eq)
    ultimately show ?case using Suc by auto
  qed simp
  then show ?thesis by (simp add: name_pairs_def)
qed

lemma hazard_graph:
  assumes order: "distinct order" "set order = {..<length ys}" and len: "length order = length ys"
    and g: "build_hazard_graph ys order = (dependents, in_degree)"
  shows "length dependents = length ys" "length in_degree = length ys"
    and "\<And>i. i < length ys \<Longrightarrow> set (dependents ! i) = {j. edge ys order i j} \<and> distinct (dependents ! i)"
    and "\<And>j. j < length ys \<Longrightarrow> in_degree ! j = int (card {i. edge ys order i j})"
proof -
  let ?N = "length ys"
  let ?ps = "name_pairs order ?N"
  let ?hz = "filter (\<lambda>(i, j). have_hazard (sys_describe (ys ! i)) (sys_describe (ys ! j))) ?ps"
  have range: "\<forall>(i, j) \<in> set ?ps. i < ?N \<and> j < ?N"
  proof clarify
    fix i j assume "(i, j) \<in> set ?ps"
    then have "before order i j" using len by (simp add: set_name_pairs)
    then have "i \<in> set order" "j \<in> set order" by (auto simp: before_def)
    with order(2) show "i < ?N \<and> j < ?N" by auto
  qed
  note h = hazard_fold [of "(replicate ?N [], replicate ?N 0)" ?N ?ps ys, OF _ _ range]
  have eqs: "length dependents = ?N \<and> length in_degree = ?N
    \<and> (\<forall>i < ?N. dependents ! i = map snd (filter (\<lambda>p. fst p = i) ?hz))
    \<and> (\<forall>j < ?N. in_degree ! j = int (length (filter (\<lambda>p. snd p = j) ?hz)))"
    using h g by (simp add: build_hazard_graph_pairs Let_def)
  then show "length dependents = ?N" "length in_degree = ?N" by blast+
  have dp: "distinct ?ps" using distinct_name_pairs [OF order(1) len] .
  have mem: "(i, j) \<in> set ?hz \<longleftrightarrow> edge ys order i j" for i j
    using len by (simp add: edge_def set_name_pairs)
  show "set (dependents ! i) = {j. edge ys order i j} \<and> distinct (dependents ! i)" if "i < ?N" for i
  proof -
    have "set (map snd (filter (\<lambda>p. fst p = i) ?hz)) = {j. edge ys order i j}"
      using mem by force
    moreover have "distinct (map snd (filter (\<lambda>p. fst p = i) ?hz))"
      using dp by (auto simp: distinct_map inj_on_def)
    ultimately show ?thesis using eqs that by simp
  qed
  show "in_degree ! j = int (card {i. edge ys order i j})" if "j < ?N" for j
  proof -
    have "set (map fst (filter (\<lambda>p. snd p = j) ?hz)) = {i. edge ys order i j}" using mem by force
    moreover have "distinct (map fst (filter (\<lambda>p. snd p = j) ?hz))"
      using dp by (auto simp: distinct_map inj_on_def)
    ultimately have "length (filter (\<lambda>p. snd p = j) ?hz) = card {i. edge ys order i j}"
      by (metis distinct_card length_map)
    with eqs that show ?thesis by simp
  qed
qed

lemma before_asym: "distinct order \<Longrightarrow> before order i j \<Longrightarrow> \<not> before order j i"
  by (auto simp: before_def) (metis less_trans nth_eq_iff_index_eq order.asym)

lemma before_irrefl: "distinct order \<Longrightarrow> \<not> before order i i"
  using before_asym by blast

lemma before_split:
  assumes "order = xs @ i # ys" "x \<in> set xs"
  shows "before order x i"
proof -
  obtain k where "k < length xs" "xs ! k = x" using assms(2) by (auto simp: in_set_conv_nth)
  then show ?thesis unfolding before_def assms(1)
    by (intro exI [of _ k] exI [of _ "length xs"]) (simp add: nth_append)
qed


section \<open>Every system is dispatched once\<close>

abbreviation n_systems :: "'s scheduler \<Rightarrow> nat" where
  "n_systems s \<equiv> length (sc_systems s)"

definition graph_ok :: "'s scheduler \<Rightarrow> bool" where
  "graph_ok s \<longleftrightarrow> distinct (sc_order s) \<and> set (sc_order s) = {..<n_systems s}
     \<and> length (sc_in_degree_initial s) = n_systems s
     \<and> (\<forall>i < n_systems s. set (sc_dependents s ! i) = {j. edge (sc_systems s) (sc_order s) i j} \<and> distinct (sc_dependents s ! i))
     \<and> (\<forall>j < n_systems s. sc_in_degree_initial s ! j = int (card {i. edge (sc_systems s) (sc_order s) i j}))"

text \<open>The actions a system still has to perform, and the dependents it still has to release.\<close>

definition rem :: "'s scheduler \<Rightarrow> 's pconf \<Rightarrow> nat \<Rightarrow> ('s \<Rightarrow> 's) list" where
  "rem s c i =
     (if i \<in> set (p_finished c) then []
      else case map_of (p_workers c) i of
        Some (Ticking as) \<Rightarrow> as | Some (Releasing _) \<Rightarrow> [] | None \<Rightarrow> sys_actions (sc_systems s ! i))"

definition pend :: "'s scheduler \<Rightarrow> 's pconf \<Rightarrow> nat \<Rightarrow> nat list" where
  "pend s c i =
     (if i \<in> set (p_finished c) then []
      else case map_of (p_workers c) i of Some (Releasing ds) \<Rightarrow> ds | _ \<Rightarrow> sc_dependents s ! i)"

definition started :: "'s pconf \<Rightarrow> nat list" where
  "started c = p_queue c @ map fst (p_workers c) @ p_finished c"

definition blockers :: "'s scheduler \<Rightarrow> 's pconf \<Rightarrow> nat \<Rightarrow> nat set" where
  "blockers s c j = {i. i < n_systems s \<and> j \<in> set (pend s c i)}"

definition pinv :: "'s scheduler \<Rightarrow> 's pconf \<Rightarrow> bool" where
  "pinv s c \<longleftrightarrow> p_seed c = n_systems s \<and> distinct (started c) \<and> set (started c) \<subseteq> {..<n_systems s}
     \<and> length (p_in_degree c) = n_systems s
     \<and> (\<forall>i < n_systems s. distinct (pend s c i) \<and> set (pend s c i) \<subseteq> {j. edge (sc_systems s) (sc_order s) i j})
     \<and> (\<forall>j < n_systems s. p_in_degree c ! j = int (card (blockers s c j)))
     \<and> (\<forall>j < n_systems s. blockers s c j = {} \<longleftrightarrow> j \<in> set (started c))"

lemma edge_range: "graph_ok s \<Longrightarrow> edge (sc_systems s) (sc_order s) i j \<Longrightarrow> i < n_systems s \<and> j < n_systems s \<and> i \<noteq> j"
proof -
  assume g: "graph_ok s" and "edge (sc_systems s) (sc_order s) i j"
  then have b: "before (sc_order s) i j" by (simp add: edge_def)
  then have "i \<in> set (sc_order s)" "j \<in> set (sc_order s)" by (auto simp: before_def)
  with g b show ?thesis using before_irrefl by (auto simp: graph_ok_def)
qed

lemma finite_blockers [simp]: "finite (blockers s c j)"
  by (simp add: blockers_def)

text \<open>The proofs compare a configuration with the one in which the rest of the seeding loop has run: the
  systems without predecessors that the loop has not reached yet are put at the end of the queue.\<close>

definition seed_rest :: "'s scheduler \<Rightarrow> 's pconf \<Rightarrow> nat list" where
  "seed_rest s c = filter (\<lambda>i. sc_in_degree_initial s ! i = 0) [p_seed c..<n_systems s]"

definition seeded :: "'s scheduler \<Rightarrow> 's pconf \<Rightarrow> 's pconf" where
  "seeded s c = c\<lparr>p_seed := n_systems s, p_queue := p_queue c @ seed_rest s c\<rparr>"

lemma seeded_sel [simp]:
  "p_seed (seeded s c) = n_systems s" "p_queue (seeded s c) = p_queue c @ seed_rest s c"
  "p_in_degree (seeded s c) = p_in_degree c" "p_workers (seeded s c) = p_workers c"
  "p_finished (seeded s c) = p_finished c" "p_state (seeded s c) = p_state c"
  by (simp_all add: seeded_def)

lemma seeded_same [simp]: "pend s (seeded s c) = pend s c" "rem s (seeded s c) = rem s c"
  by (simp_all add: pend_def rem_def fun_eq_iff)

lemma mset_started_seeded: "mset (started (seeded s c)) = mset (started c) + mset (seed_rest s c)"
  by (simp add: started_def)

lemma set_started_seeded: "set (started (seeded s c)) = set (started c) \<union> set (seed_rest s c)"
  using mset_started_seeded [of s c] by (metis set_mset_mset set_mset_union)

lemma distinct_started_seeded: "distinct (started (seeded s c)) \<longleftrightarrow> distinct (started c @ seed_rest s c)"
  by (rule mset_eq_imp_distinct_iff) (simp add: mset_started_seeded)

lemma pinv_seeded: "graph_ok s \<Longrightarrow> pinv s (seeded s (pstart s w))"
proof -
  assume g: "graph_ok s"
  have p: "pend s (seeded s (pstart s w)) = (\<lambda>i. sc_dependents s ! i)"
    by (simp add: pend_def pstart_def fun_eq_iff)
  have b: "blockers s (seeded s (pstart s w)) j = {i. edge (sc_systems s) (sc_order s) i j}" for j
  proof -
    have "i < n_systems s \<and> j \<in> set (sc_dependents s ! i) \<longleftrightarrow> edge (sc_systems s) (sc_order s) i j" for i
    proof (cases "i < n_systems s")
      case True
      then show ?thesis using g by (simp add: graph_ok_def)
    next
      case False
      then show ?thesis using edge_range [OF g, of i j] by blast
    qed
    then show ?thesis by (simp only: blockers_def p)
  qed
  have f: "finite {i. edge (sc_systems s) (sc_order s) i j}" for j
    using finite_blockers [of s "seeded s (pstart s w)" j] unfolding b .
  have st: "started (seeded s (pstart s w)) = filter (\<lambda>i. sc_in_degree_initial s ! i = 0) [0..<n_systems s]"
    by (simp add: started_def seeded_def seed_rest_def pstart_def)
  have z: "{i. edge (sc_systems s) (sc_order s) i j} = {} \<longleftrightarrow> sc_in_degree_initial s ! j = 0" if "j < n_systems s" for j
    using g that f [of j] by (simp add: graph_ok_def)
  show ?thesis unfolding pinv_def p b st
  proof (intro conjI allI impI)
    fix i assume iN: "i < n_systems s"
    then show "distinct (sc_dependents s ! i)" "set (sc_dependents s ! i) \<subseteq> {j. edge (sc_systems s) (sc_order s) i j}"
      "p_in_degree (seeded s (pstart s w)) ! i = int (card {j. edge (sc_systems s) (sc_order s) j i})"
      using g by (simp_all add: graph_ok_def seeded_def seed_rest_def pstart_def)
    show "{j. edge (sc_systems s) (sc_order s) j i} = {} \<longleftrightarrow>
        i \<in> set (filter (\<lambda>i. sc_in_degree_initial s ! i = 0) [0..<n_systems s])" using z [OF iN] iN by simp
  next
    show "length (p_in_degree (seeded s (pstart s w))) = n_systems s" using g by (simp add: seeded_def seed_rest_def pstart_def graph_ok_def)
  qed (auto simp: seeded_def seed_rest_def pstart_def)
qed

lemma map_of_mid:
  assumes "distinct (map fst (ws1 @ (i, ph) # ws2))"
  shows "map_of (ws1 @ (i, ph') # ws2) = (map_of (ws1 @ ws2))(i \<mapsto> ph')" "map_of (ws1 @ ws2) i = None"
proof -
  from assms have "map_of ws1 i = None" "map_of ws2 i = None" by (auto simp: map_of_eq_None_iff)
  then show "map_of (ws1 @ (i, ph') # ws2) = (map_of (ws1 @ ws2))(i \<mapsto> ph')" "map_of (ws1 @ ws2) i = None"
    by (auto simp: fun_eq_iff map_add_def split: option.split)
qed

text \<open>How a step of a worker changes what is left to do.\<close>

lemma pinv_worker:
  assumes "pinv s c" "p_workers c = ws1 @ (i, ph) # ws2"
  shows "i < n_systems s" "i \<notin> set (p_finished c)" "map_of (ws1 @ (i, ph') # ws2) = (map_of (ws1 @ ws2))(i \<mapsto> ph')"
    "map_of (ws1 @ ws2) i = None"
proof -
  from assms have "distinct (map fst (ws1 @ (i, ph) # ws2))" by (auto simp: pinv_def started_def)
  then show "map_of (ws1 @ (i, ph') # ws2) = (map_of (ws1 @ ws2))(i \<mapsto> ph')" "map_of (ws1 @ ws2) i = None"
    by (rule map_of_mid)+
  show "i < n_systems s" "i \<notin> set (p_finished c)" using assms by (auto simp: pinv_def started_def)
qed

lemma pinv_take:
  assumes "pinv s c" "p_queue c = i # q"
  shows "map_of (p_workers c) i = None" "i \<notin> set (p_finished c)"
  using assms by (auto simp: pinv_def started_def map_of_eq_None_iff)

lemma pinv_same_pend:
  assumes "pinv s c" "pend s c' = pend s c" "p_seed c' = p_seed c" "p_in_degree c' = p_in_degree c"
    and "mset (started c') = mset (started c)"
  shows "pinv s c'"
proof -
  have "blockers s c' = blockers s c" by (simp add: blockers_def assms(2) fun_eq_iff)
  moreover have "distinct (started c') = distinct (started c)" "set (started c') = set (started c)"
    using assms(5) by (metis mset_eq_imp_distinct_iff, metis mset_eq_setD)
  ultimately show ?thesis using assms(1-4) by (simp add: pinv_def)
qed

lemma pstep_pinv:
  assumes g: "graph_ok s" and "pstep s c c'" "pinv s c"
  shows "pinv s c'"
  using assms(2,3)
proof cases
  case Seed
  with assms(3) show ?thesis by (simp add: pinv_def)
next
  case (Take i q n)
  note t = pinv_take [OF assms(3) Take(2)]
  show ?thesis using assms(3)
  proof (rule pinv_same_pend)
    show "pend s c' = pend s c" using t Take by (auto simp: pend_def fun_eq_iff map_add_def split: option.split)
  qed (use Take in \<open>simp_all add: started_def\<close>)
next
  case (Act ws1 i a as ws2)
  note w = pinv_worker [OF assms(3) Act(2)]
  show ?thesis using assms(3)
  proof (rule pinv_same_pend)
    show "pend s c' = pend s c" using Act w by (auto simp: pend_def fun_eq_iff)
  qed (use Act in \<open>simp_all add: started_def\<close>)
next
  case (Ticked ws1 i ws2)
  note w = pinv_worker [OF assms(3) Ticked(2)]
  show ?thesis using assms(3)
  proof (rule pinv_same_pend)
    show "pend s c' = pend s c" using Ticked w by (auto simp: pend_def fun_eq_iff)
  qed (use Ticked in \<open>simp_all add: started_def\<close>)
next
  case (Complete ws1 i ws2)
  note w = pinv_worker [OF assms(3) Complete(2)]
  show ?thesis using assms(3)
  proof (rule pinv_same_pend)
    show "pend s c' = pend s c" using Complete w by (auto simp: pend_def fun_eq_iff)
  qed (use Complete in \<open>simp_all add: started_def\<close>)
next
  case (Release ws1 i d ds ws2)
  note w = pinv_worker [OF assms(3) Release(2)]
  have pi: "pend s c i = d # ds" using Release w by (simp add: pend_def)
  have p': "pend s c' = (pend s c)(i := ds)" using Release w by (auto simp: pend_def fun_eq_iff)
  have dd: "d \<notin> set ds" "distinct ds" "edge (sc_systems s) (sc_order s) i d" "set ds \<subseteq> {j. edge (sc_systems s) (sc_order s) i j}"
    using assms(3) w(1) pi by (auto simp: pinv_def dest!: spec [of _ i])
  have dN: "d < n_systems s" using edge_range [OF g dd(3)] by simp
  have bd: "blockers s c' d = blockers s c d - {i}" "i \<in> blockers s c d"
    using dd(1) w(1) pi by (auto simp: blockers_def p')
  have bo: "blockers s c' j = blockers s c j" if "j \<noteq> d" for j
    using that pi by (auto simp: blockers_def p')
  have cd: "int (card (blockers s c' d)) = int (card (blockers s c d)) - 1" "0 < card (blockers s c d)"
    using bd by (auto simp: card_gt_0_iff card_Diff_singleton int_ops)
  have inD: "p_in_degree c ! d = int (card (blockers s c d))" using assms(3) dN by (simp add: pinv_def)
  have ns: "d \<notin> set (started c)" using bd(2) assms(3) dN by (auto simp: pinv_def)
  have st: "set (started c') = (if p_in_degree c ! d = 1 then insert d (set (started c)) else set (started c))"
    "distinct (started c')"
    using Release ns assms(3) by (auto simp: started_def pinv_def)
  show ?thesis unfolding pinv_def
  proof (intro conjI allI impI)
    show "p_seed c' = n_systems s" "length (p_in_degree c') = n_systems s" using Release assms(3) by (simp_all add: pinv_def)
    show "distinct (started c')" by (rule st)
    show "set (started c') \<subseteq> {..<n_systems s}" using st(1) dN assms(3) by (auto simp: pinv_def)
    fix j assume j: "j < n_systems s"
    show "distinct (pend s c' j)" "set (pend s c' j) \<subseteq> {k. edge (sc_systems s) (sc_order s) j k}"
      using assms(3) j dd by (auto simp: pinv_def p')
    show deg: "p_in_degree c' ! j = int (card (blockers s c' j))"
      using Release j inD cd(1) bo assms(3) dN by (cases "j = d") (simp_all add: pinv_def)
    show "blockers s c' j = {} \<longleftrightarrow> j \<in> set (started c')"
    proof (cases "j = d")
      case True
      have "blockers s c' d = {} \<longleftrightarrow> p_in_degree c ! d = 1"
        using inD cd(1) by (metis card_eq_0_iff eq_iff_diff_eq_0 finite_blockers of_nat_eq_0_iff)
      then show ?thesis using True st(1) ns by simp
    next
      case False
      then show ?thesis using bo [OF False] assms(3) j st(1) by (simp add: pinv_def)
    qed
  qed
qed

section \<open>A parallel tick computes the sequential one\<close>

definition commute :: "('s \<Rightarrow> 's) \<Rightarrow> ('s \<Rightarrow> 's) \<Rightarrow> bool" where
  "commute a b \<longleftrightarrow> (\<forall>w. a (b w) = b (a w))"

text \<open>The declarations cover the accesses: systems without a hazard have commuting actions.\<close>

definition hazards_declared :: "'s scheduler \<Rightarrow> bool" where
  "hazards_declared s \<longleftrightarrow> (\<forall>i < n_systems s. \<forall>j < n_systems s. i \<noteq> j \<longrightarrow>
     \<not> have_hazard (sys_describe (sc_systems s ! i)) (sys_describe (sc_systems s ! j)) \<longrightarrow>
     (\<forall>a \<in> set (sys_actions (sc_systems s ! i)). \<forall>b \<in> set (sys_actions (sc_systems s ! j)). commute a b))"

definition seq_rest :: "'s scheduler \<Rightarrow> 's pconf \<Rightarrow> 's" where
  "seq_rest s c = fold (\<lambda>i w. run_actions (rem s c i) w) (sc_order s) (p_state c)"

lemma run_actions_Cons: "run_actions (a # as) w = run_actions as (a w)"
  by (simp add: run_actions_def)

lemma run_actions_commute: "(\<And>b. b \<in> set bs \<Longrightarrow> commute a b) \<Longrightarrow> a (run_actions bs w) = run_actions bs (a w)"
  by (induction bs arbitrary: w) (auto simp: run_actions_def commute_def)

lemma fold_run_commute:
  "(\<And>x b. x \<in> set xs \<Longrightarrow> b \<in> set (f x) \<Longrightarrow> commute a b) \<Longrightarrow>
     a (fold (\<lambda>i w. run_actions (f i) w) xs w) = fold (\<lambda>i w. run_actions (f i) w) xs (a w)"
proof (induction xs arbitrary: w)
  case (Cons x xs)
  have "a (run_actions (f x) w) = run_actions (f x) (a w)" by (rule run_actions_commute) (rule Cons.prems [of x]; simp)
  moreover have "a (fold (\<lambda>i w. run_actions (f i) w) xs w') = fold (\<lambda>i w. run_actions (f i) w) xs (a w')" for w'
    by (intro Cons.IH) (meson Cons.prems list.set_intros(2))
  ultimately show ?case by simp
qed simp

definition acts_ok :: "'s scheduler \<Rightarrow> 's pconf \<Rightarrow> bool" where
  "acts_ok s c \<longleftrightarrow> (\<forall>(i, ph) \<in> set (p_workers c). case ph of Ticking as \<Rightarrow> set as \<subseteq> set (sys_actions (sc_systems s ! i)) | _ \<Rightarrow> True)"

lemma pstep_acts_ok: "pstep s c c' \<Longrightarrow> acts_ok s c \<Longrightarrow> acts_ok s c'"
  by (induction rule: pstep.induct) (auto simp: acts_ok_def)

lemma acts_ok_rem: "acts_ok s c \<Longrightarrow> set (rem s c i) \<subseteq> set (sys_actions (sc_systems s ! i))"
proof (cases "map_of (p_workers c) i")
  case (Some ph)
  assume "acts_ok s c"
  then have "case ph of Ticking as \<Rightarrow> set as \<subseteq> set (sys_actions (sc_systems s ! i)) | _ \<Rightarrow> True"
    using map_of_SomeD [OF Some] unfolding acts_ok_def by blast
  then show ?thesis by (simp add: rem_def Some split: worker_phase.splits)
qed (simp add: rem_def)

text \<open>A system that has been dispatched has no predecessor with actions left.\<close>

lemma predecessors_done:
  assumes "graph_ok s" "pinv s c" "i \<in> set (started c)" "edge (sc_systems s) (sc_order s) x i"
  shows "rem s c x = []"
proof -
  note r = edge_range [OF assms(1,4)]
  have "blockers s c i = {}" using assms(2,3) r by (auto simp: pinv_def)
  then have "i \<notin> set (pend s c x)" using r by (auto simp: blockers_def)
  moreover have "i \<in> set (sc_dependents s ! x)" using assms(1,4) r by (simp add: graph_ok_def)
  ultimately show ?thesis
    by (auto simp: pend_def rem_def split: if_splits option.splits worker_phase.splits)
qed

lemma seq_rest_act:
  assumes g: "graph_ok s" and h: "hazards_declared s" and inv: "pinv s c" "acts_ok s c"
    and w: "p_workers c = ws1 @ (i, Ticking (a # as)) # ws2"
  shows "seq_rest s (c\<lparr>p_state := a (p_state c), p_workers := ws1 @ (i, Ticking as) # ws2\<rparr>) = seq_rest s c"
proof -
  let ?c = "c\<lparr>p_state := a (p_state c), p_workers := ws1 @ (i, Ticking as) # ws2\<rparr>"
  note m = pinv_worker [OF inv(1) w]
  have ri: "rem s c i = a # as" "rem s ?c i = as" using w m by (simp_all add: rem_def)
  have ro: "rem s ?c x = rem s c x" if "x \<noteq> i" for x using that w m by (simp add: rem_def)
  have "i \<in> set (sc_order s)" using g m(1) by (simp add: graph_ok_def)
  then obtain xs ys where o: "sc_order s = xs @ i # ys" by (meson split_list)
  have d: "i \<notin> set xs" "i \<notin> set ys" "set xs \<subseteq> {..<n_systems s}" using g o by (auto simp: graph_ok_def)
  have st: "i \<in> set (started c)" using w by (simp add: started_def)
  have com: "commute a b" if "x \<in> set xs" "b \<in> set (rem s c x)" for x b
  proof -
    have nz: "\<not> edge (sc_systems s) (sc_order s) x i" using predecessors_done [OF g inv(1) st] that(2) by auto
    have "before (sc_order s) x i" by (rule before_split [OF o that(1)])
    with nz have nh: "\<not> have_hazard (sys_describe (sc_systems s ! x)) (sys_describe (sc_systems s ! i))" by (simp add: edge_def)
    have "b \<in> set (sys_actions (sc_systems s ! x))" "a \<in> set (sys_actions (sc_systems s ! i))"
      using acts_ok_rem [OF inv(2)] that(2) ri(1) by (auto, metis list.set_intros(1) subsetD)
    then have "commute b a" using h nh m(1) d that(1) unfolding hazards_declared_def by blast
    then show ?thesis by (simp add: commute_def)
  qed
  have same: "fold (\<lambda>x w. run_actions (rem s ?c x) w) zs w = fold (\<lambda>x w. run_actions (rem s c x) w) zs w"
    if "i \<notin> set zs" for zs w
    using that by (intro fold_cong refl) (metis ro)
  have "seq_rest s ?c = fold (\<lambda>x w. run_actions (rem s c x) w) ys
      (run_actions as (fold (\<lambda>x w. run_actions (rem s c x) w) xs (a (p_state c))))"
    using d by (simp add: seq_rest_def o same ri)
  also have "fold (\<lambda>x w. run_actions (rem s c x) w) xs (a (p_state c)) = a (fold (\<lambda>x w. run_actions (rem s c x) w) xs (p_state c))"
    by (rule fold_run_commute [symmetric]) (rule com)
  finally show ?thesis by (simp add: seq_rest_def o ri run_actions_Cons)
qed

lemma pstep_seq_rest:
  assumes "graph_ok s" "hazards_declared s" "pinv s c" "acts_ok s c" "pstep s c c'"
  shows "seq_rest s c' = seq_rest s c"
  using assms(5)
proof cases
  case Seed
  with assms(3) show ?thesis by (simp add: pinv_def)
next
  case (Take i q n)
  have "rem s c' = rem s c" using pinv_take [OF assms(3) Take(2)] Take
    by (auto simp: rem_def fun_eq_iff map_add_def split: option.split)
  with Take show ?thesis by (simp add: seq_rest_def)
next
  case (Act ws1 i a as ws2)
  with seq_rest_act [OF assms(1-4)] show ?thesis by simp
next
  case (Ticked ws1 i ws2)
  have "rem s c' = rem s c" using pinv_worker [OF assms(3) Ticked(2)] Ticked by (auto simp: rem_def fun_eq_iff)
  with Ticked show ?thesis by (simp add: seq_rest_def)
next
  case (Release ws1 i d ds ws2)
  have "rem s c' = rem s c" using pinv_worker [OF assms(3) Release(2)] Release by (auto simp: rem_def fun_eq_iff)
  with Release show ?thesis by (simp add: seq_rest_def)
next
  case (Complete ws1 i ws2)
  have "rem s c' = rem s c" using pinv_worker [OF assms(3) Complete(2)] Complete by (auto simp: rem_def fun_eq_iff)
  with Complete show ?thesis by (simp add: seq_rest_def)
qed

lemma build_graph_ok:
  assumes "build_graph hc s = (Ok, s')" "sc_mode s = Parallel"
  shows "graph_ok s'" "sc_built s'" "sc_systems s' = sc_systems s"
    "sc_order s' = sort_key (system_name (sc_systems s)) [0..<n_systems s]"
proof -
  let ?order = "sort_key (system_name (sc_systems s)) [0..<n_systems s]"
  obtain ds inD where g: "build_hazard_graph (sc_systems s) ?order = (ds, inD)" by fastforce
  have o: "distinct ?order" "set ?order = {..<n_systems s}" "length ?order = n_systems s" by auto
  have s': "sc_order s' = ?order" "sc_systems s' = sc_systems s" "sc_dependents s' = ds" "sc_in_degree_initial s' = inD" "sc_built s'"
    using assms g by (auto simp: build_graph_def Let_def split: if_splits)
  then show "sc_built s'" "sc_systems s' = sc_systems s" "sc_order s' = ?order" by blast+
  show "graph_ok s'"
    unfolding graph_ok_def s' using hazard_graph [OF o g] o by (auto simp del: set_sort)
qed

section \<open>Runs from the first step of the seeding loop\<close>

definition clean :: "'s scheduler \<Rightarrow> 's pconf \<Rightarrow> bool" where
  "clean s c \<longleftrightarrow> p_seed c \<le> n_systems s \<and> pinv s (seeded s c) \<and> acts_ok s c"

lemma clean_started:
  assumes "clean s c"
  shows "distinct (started c)" "set (started c) \<subseteq> {..<n_systems s}"
  using assms by (auto simp: clean_def pinv_def distinct_started_seeded set_started_seeded)

text \<open>A step of a worker is also a step after the rest of the seeding loop, up to the order of the queue.\<close>

lemma seeded_stepI:
  assumes "pstep s (seeded s c) x" "p_seed x = n_systems s" "p_in_degree x = p_in_degree c'" "p_workers x = p_workers c'"
    "p_finished x = p_finished c'" "p_state x = p_state c'" "mset (p_queue x) = mset (p_queue (seeded s c'))"
  shows "\<exists>q. pstep s (seeded s c) ((seeded s c')\<lparr>p_queue := q\<rparr>) \<and> mset q = mset (p_queue (seeded s c'))"
proof -
  have "(seeded s c')\<lparr>p_queue := p_queue x\<rparr> = x" by (rule pconf.equality) (simp_all add: assms)
  with assms(1,7) show ?thesis by metis
qed

lemma worker_step_seeded:
  assumes "pstep s c c'" "p_seed c' = p_seed c"
  shows "\<exists>q. pstep s (seeded s c) ((seeded s c')\<lparr>p_queue := q\<rparr>) \<and> mset q = mset (p_queue (seeded s c'))"
  using assms(1)
proof cases
  case Seed
  with assms(2) show ?thesis by simp
next
  case (Take i q n)
  then show ?thesis
    by (intro seeded_stepI [OF pstep.Take [of "seeded s c" i "q @ seed_rest s c" s n]]) (simp_all add: seed_rest_def)
next
  case (Act ws1 i a as ws2)
  then show ?thesis
    by (intro seeded_stepI [OF pstep.Act [of "seeded s c" ws1 i a as ws2 s]]) (simp_all add: seed_rest_def)
next
  case (Ticked ws1 i ws2)
  then show ?thesis
    by (intro seeded_stepI [OF pstep.Ticked [of "seeded s c" ws1 i ws2 s]]) (simp_all add: seed_rest_def)
next
  case (Release ws1 i d ds ws2)
  then show ?thesis
    by (intro seeded_stepI [OF pstep.Release [of "seeded s c" ws1 i d ds ws2 s]]) (simp_all add: seed_rest_def)
next
  case (Complete ws1 i ws2)
  then show ?thesis
    by (intro seeded_stepI [OF pstep.Complete [of "seeded s c" ws1 i ws2 s]]) (simp_all add: seed_rest_def)
qed

lemma pinv_queue_order:
  assumes "pinv s (c\<lparr>p_queue := q\<rparr>)" "mset q = mset (p_queue c)"
  shows "pinv s c"
  using assms(1) by (rule pinv_same_pend) (simp_all add: pend_def fun_eq_iff started_def assms(2))

text \<open>The seeding loop agrees with the rest of the loop as long as it does not come upon a system that a
  worker has released.\<close>

lemma seed_step_seeded:
  assumes "clean s c" "p_seed c < n_systems s" "p_seed c \<notin> set (started c)"
  shows "seeded s (c\<lparr>p_seed := p_seed c + 1,
      p_queue := (if p_in_degree c ! p_seed c = 0 then p_queue c @ [p_seed c] else p_queue c)\<rparr>) = seeded s c"
proof -
  let ?i = "p_seed c"
  have inv: "pinv s (seeded s c)" using assms(1) by (simp add: clean_def)
  have up: "[?i..<n_systems s] = ?i # [Suc ?i..<n_systems s]" using assms(2) by (rule upt_conv_Cons)
  have "p_in_degree c ! ?i = int (card (blockers s (seeded s c) ?i))"
    "blockers s (seeded s c) ?i = {} \<longleftrightarrow> ?i \<in> set (started (seeded s c))"
    using inv assms(2) by (simp_all add: pinv_def)
  then have "p_in_degree c ! ?i = 0 \<longleftrightarrow> ?i \<in> set (seed_rest s c)"
    using assms(3) by (simp add: set_started_seeded)
  also have "\<dots> \<longleftrightarrow> sc_in_degree_initial s ! ?i = 0" using assms(2) by (simp add: seed_rest_def)
  finally show ?thesis by (simp add: seeded_def seed_rest_def up)
qed

lemma pstep_clean:
  assumes "graph_ok s" "clean s c" "pstep s c c'" "p_seed c' \<noteq> p_seed c \<longrightarrow> p_seed c \<notin> set (started c)"
  shows "clean s c'"
proof -
  have inv: "pinv s (seeded s c)" and ok: "acts_ok s c'"
    using assms(2) pstep_acts_ok [OF assms(3)] by (auto simp: clean_def)
  show ?thesis
  proof (cases "p_seed c' = p_seed c")
    case True
    then obtain q where q: "pstep s (seeded s c) ((seeded s c')\<lparr>p_queue := q\<rparr>)" "mset q = mset (p_queue (seeded s c'))"
      using worker_step_seeded [OF assms(3)] by blast
    have "pinv s (seeded s c')" using pstep_pinv [OF assms(1) q(1) inv] q(2) by (rule pinv_queue_order)
    with ok True assms(2) show ?thesis by (simp add: clean_def)
  next
    case False
    with assms(3) have i: "p_seed c < n_systems s" and c': "c' = c\<lparr>p_seed := p_seed c + 1,
        p_queue := (if p_in_degree c ! p_seed c = 0 then p_queue c @ [p_seed c] else p_queue c)\<rparr>"
      by (auto elim: pstep.cases)
    have "seeded s c' = seeded s c" using seed_step_seeded [OF assms(2) i] False assms(4) unfolding c' by blast
    moreover have "p_seed c' \<le> n_systems s" using i c' by simp
    ultimately show ?thesis using ok inv by (simp add: clean_def)
  qed
qed

lemma pstep_clean_seq_rest:
  assumes "graph_ok s" "hazards_declared s" "clean s c" "pstep s c c'"
  shows "seq_rest s c' = seq_rest s c"
proof (cases "p_seed c' = p_seed c")
  case True
  then obtain q where "pstep s (seeded s c) ((seeded s c')\<lparr>p_queue := q\<rparr>)"
    using worker_step_seeded [OF assms(4)] by blast
  moreover have "rem s ((seeded s c')\<lparr>p_queue := q\<rparr>) = rem s c'" by (auto simp: rem_def fun_eq_iff)
  ultimately show ?thesis using pstep_seq_rest [OF assms(1,2), of "seeded s c"] assms(3)
    by (fastforce simp: clean_def seq_rest_def acts_ok_def)
next
  case False
  with assms(4) have "rem s c' = rem s c" "p_state c' = p_state c" by (auto simp: rem_def fun_eq_iff elim!: pstep.cases)
  then show ?thesis by (simp add: seq_rest_def)
qed

lemma started_mono: "pstep s c c' \<Longrightarrow> mset (started c) \<subseteq># mset (started c')"
  by (induction rule: pstep.induct) (simp_all add: started_def)

lemma distinct_started_step:
  assumes "pstep s c c'" "distinct (started c')"
  shows "distinct (started c)"
  unfolding distinct_count_atmost_1
proof
  fix x
  have "count (mset (started c)) x \<le> count (mset (started c')) x"
    using started_mono [OF assms(1)] by (rule mset_subset_eq_count)
  also have "\<dots> = (if x \<in> set (started c') then 1 else 0)"
    using assms(2) unfolding distinct_count_atmost_1 by blast
  finally show "count (mset (started c)) x = (if x \<in> set (started c) then 1 else 0)"
    by (cases "x \<in> set (started c)") (auto simp: count_eq_zero_iff simp flip: set_mset_mset split: if_splits,
        metis Suc_leI count_greater_zero_iff le_antisym)
qed

lemma distinct_step_no_race:
  assumes "clean s c" "pstep s c c'" "distinct (started c')" "p_seed c' \<noteq> p_seed c"
  shows "p_seed c \<notin> set (started c)"
proof
  assume i: "p_seed c \<in> set (started c)"
  from assms(2,4) have iN: "p_seed c < n_systems s" and c': "c' = c\<lparr>p_seed := p_seed c + 1,
      p_queue := (if p_in_degree c ! p_seed c = 0 then p_queue c @ [p_seed c] else p_queue c)\<rparr>"
    by (auto elim: pstep.cases)
  have "p_in_degree c ! p_seed c = int (card (blockers s (seeded s c) (p_seed c)))" "blockers s (seeded s c) (p_seed c) = {}"
    using assms(1) iN i by (auto simp: clean_def pinv_def set_started_seeded)
  then have "p_queue c' = p_queue c @ [p_seed c]" "p_workers c' = p_workers c" "p_finished c' = p_finished c"
    unfolding c' by simp_all
  with assms(3) i show False by (auto simp: started_def)
qed

lemma clean_start: "graph_ok s \<Longrightarrow> clean s (pstart s w)"
  using pinv_seeded [of s w] by (simp add: clean_def pstart_def acts_ok_def)

lemma distinct_run_clean:
  assumes "(pstep s)\<^sup>*\<^sup>* (pstart s w) c" "graph_ok s" "distinct (started c)"
  shows "clean s c \<and> (hazards_declared s \<longrightarrow> seq_rest s c = seq_rest s (pstart s w))"
  using assms(1,3)
proof (induction rule: rtranclp_induct)
  case base
  then show ?case using clean_start [OF assms(2)] by blast
next
  case (step c c')
  have d: "distinct (started c)" using distinct_started_step [OF step.hyps(2) step.prems] .
  with step.IH have c: "clean s c" by blast
  have "clean s c'"
    by (rule pstep_clean [OF assms(2) c step.hyps(2)])
      (use distinct_step_no_race [OF c step.hyps(2) step.prems] in blast)
  with step.IH d pstep_clean_seq_rest [OF assms(2) _ c step.hyps(2)] show ?case by simp
qed

text \<open>A registration order in which the seeding loop cannot be overtaken: every system that has to wait
  is registered before one of the systems it waits for.\<close>

definition seed_safe :: "'s scheduler \<Rightarrow> bool" where
  "seed_safe s \<longleftrightarrow> (\<forall>i < n_systems s. sc_in_degree_initial s ! i \<noteq> 0 \<longrightarrow>
     (\<exists>j < n_systems s. i < j \<and> i \<in> set (sc_dependents s ! j)))"

lemma released_after_later:
  assumes "graph_ok s" "seed_safe s" "clean s c'" "d \<in> set (started c')" "sc_in_degree_initial s ! d \<noteq> 0"
  shows "\<exists>j \<in> set (map fst (p_workers c') @ p_finished c'). d < j"
proof -
  have dN: "d < n_systems s" using clean_started(2) [OF assms(3)] assms(4) by auto
  then obtain j where j: "j < n_systems s" "d < j" "d \<in> set (sc_dependents s ! j)"
    using assms(2,5) by (auto simp: seed_safe_def)
  have "blockers s (seeded s c') d = {}"
    using assms(3,4) dN by (simp add: clean_def pinv_def set_started_seeded)
  then have "d \<notin> set (pend s c' j)" using j(1) by (auto simp: blockers_def)
  with j(3) have "j \<in> set (p_finished c') \<or> map_of (p_workers c') j \<noteq> None"
    by (auto simp: pend_def split: if_splits option.splits)
  then have "j \<in> set (map fst (p_workers c') @ p_finished c')" by (auto simp: map_of_eq_None_iff)
  with j(2) show ?thesis by blast
qed

lemma released_has_predecessor:
  assumes "graph_ok s" "clean s c" "p_workers c = ws1 @ (i, Releasing (d # ds)) # ws2"
  shows "d < n_systems s" "sc_in_degree_initial s ! d \<noteq> 0"
proof -
  have inv: "pinv s (seeded s c)" and w: "p_workers (seeded s c) = ws1 @ (i, Releasing (d # ds)) # ws2"
    using assms(2,3) by (simp_all add: clean_def)
  have "d \<in> set (pend s (seeded s c) i)" using pinv_worker [OF inv w] w by (simp add: pend_def)
  then have e: "edge (sc_systems s) (sc_order s) i d" using inv pinv_worker(1) [OF inv w] by (auto simp: pinv_def)
  then show d: "d < n_systems s" using edge_range [OF assms(1)] by blast
  have "{i. edge (sc_systems s) (sc_order s) i d} \<subseteq> {..<n_systems s}" using edge_range [OF assms(1)] by blast
  then have "finite {i. edge (sc_systems s) (sc_order s) i d}" by (rule finite_subset) simp
  with e have "card {i. edge (sc_systems s) (sc_order s) i d} \<noteq> 0" by auto
  with assms(1) d show "sc_in_degree_initial s ! d \<noteq> 0" by (simp add: graph_ok_def)
qed

lemma seed_safe_step:
  assumes "graph_ok s" "seed_safe s" "clean s c" "set (started c) \<subseteq> {..<p_seed c}" "pstep s c c'"
  shows "clean s c' \<and> set (started c') \<subseteq> {..<p_seed c'}"
proof
  show c': "clean s c'" by (rule pstep_clean [OF assms(1,3,5)]) (use assms(4) in auto)
  have sub: "x < p_seed c" if "x \<in> set (started c)" for x using assms(4) that by auto
  show "set (started c') \<subseteq> {..<p_seed c'}" using assms(5)
  proof cases
    case Seed
    then have "set (started c') \<subseteq> insert (p_seed c) (set (started c))" "p_seed c' = Suc (p_seed c)" by (auto simp: started_def)
    then show ?thesis using sub by (auto simp: less_Suc_eq)
  next
    case (Release ws1 i d ds ws2)
    have st: "set (started c') \<subseteq> insert d (set (started c))" "p_seed c' = p_seed c"
      "set (map fst (p_workers c') @ p_finished c') \<subseteq> set (started c)"
      using Release by (auto simp: started_def)
    have "d < p_seed c" if "d \<in> set (started c')"
      using released_after_later [OF assms(1,2) c' that] released_has_predecessor(2) [OF assms(1,3) Release(2)] st(3) sub
      by (meson less_trans subsetD)
    then show ?thesis using st sub by auto
  next
    case (Take i q n)
    then have "set (started c') = set (started c)" "p_seed c' = p_seed c" by (auto simp: started_def)
    then show ?thesis using assms(4) by simp
  next
    case (Act ws1 i a as ws2)
    then have "set (started c') = set (started c)" "p_seed c' = p_seed c" by (auto simp: started_def)
    then show ?thesis using assms(4) by simp
  next
    case (Ticked ws1 i ws2)
    then have "set (started c') = set (started c)" "p_seed c' = p_seed c" by (auto simp: started_def)
    then show ?thesis using assms(4) by simp
  next
    case (Complete ws1 i ws2)
    then have "set (started c') = set (started c)" "p_seed c' = p_seed c" by (auto simp: started_def)
    then show ?thesis using assms(4) by simp
  qed
qed

lemma seed_safe_distinct:
  assumes "(pstep s)\<^sup>*\<^sup>* (pstart s w) c" "graph_ok s" "seed_safe s"
  shows "distinct (started c)"
proof -
  have "clean s c \<and> set (started c) \<subseteq> {..<p_seed c}" using assms(1)
  proof (induction rule: rtranclp_induct)
    case base
    show ?case using clean_start [OF assms(2)] by (simp add: started_def pstart_def)
  next
    case (step c c')
    with seed_safe_step [OF assms(2,3)] show ?case by blast
  qed
  then show ?thesis using clean_started by blast
qed

section \<open>All runs, with or without a race\<close>

text \<open>How often the counter of \<open>j\<close> has been decremented: once for every completed run of a predecessor and for
  every run that has released \<open>j\<close> already.\<close>

definition releases :: "'s scheduler \<Rightarrow> nat \<Rightarrow> nat \<times> 's worker_phase \<Rightarrow> bool" where
  "releases s j wk = (case wk of (i, Ticking _) \<Rightarrow> False
     | (i, Releasing ds) \<Rightarrow> j \<in> set (sc_dependents s ! i) \<and> j \<notin> set ds)"

definition released :: "'s scheduler \<Rightarrow> 's pconf \<Rightarrow> nat \<Rightarrow> nat" where
  "released s c j = length (filter (\<lambda>i. j \<in> set (sc_dependents s ! i)) (p_finished c))
     + length (filter (releases s j) (p_workers c))"

definition phase_ok :: "'s scheduler \<Rightarrow> nat \<times> 's worker_phase \<Rightarrow> bool" where
  "phase_ok s wk = (case wk of (i, Ticking _) \<Rightarrow> i < n_systems s
     | (i, Releasing ds) \<Rightarrow> i < n_systems s \<and> distinct ds \<and> set ds \<subseteq> set (sc_dependents s ! i))"

text \<open>A system is dispatched by the seeding loop at most once, and at most once by the worker that takes its
  counter to zero; a system with no predecessors is dispatched when the loop passes it, any other when its
  counter has reached zero.\<close>

definition dispatched_by :: "'s scheduler \<Rightarrow> 's pconf \<Rightarrow> nat \<Rightarrow> bool" where
  "dispatched_by s c j \<longleftrightarrow> 0 < sc_in_degree_initial s ! j \<and> p_in_degree c ! j \<le> 0"

definition all_runs_inv :: "'s scheduler \<Rightarrow> 's pconf \<Rightarrow> bool" where
  "all_runs_inv s c \<longleftrightarrow> p_seed c \<le> n_systems s \<and> length (p_in_degree c) = n_systems s
     \<and> set (p_queue c) \<subseteq> {..<n_systems s} \<and> set (p_finished c) \<subseteq> {..<n_systems s} \<and> list_all (phase_ok s) (p_workers c)
     \<and> (\<forall>j < n_systems s. p_in_degree c ! j = sc_in_degree_initial s ! j - int (released s c j))
     \<and> (\<forall>j < n_systems s. (j < p_seed c \<and> sc_in_degree_initial s ! j = 0) \<or> dispatched_by s c j \<longrightarrow> j \<in> set (started c))
     \<and> (\<forall>j < n_systems s. count (mset (started c)) j \<le> of_bool (j < p_seed c) + of_bool (dispatched_by s c j))"

lemma graph_dependents:
  assumes "graph_ok s" "i < n_systems s" "j \<in> set (sc_dependents s ! i)"
  shows "j < n_systems s" "0 < sc_in_degree_initial s ! j" "distinct (sc_dependents s ! i)"
proof -
  have e: "edge (sc_systems s) (sc_order s) i j" using assms by (simp add: graph_ok_def)
  then show j: "j < n_systems s" using edge_range [OF assms(1)] by blast
  have "{i. edge (sc_systems s) (sc_order s) i j} \<subseteq> {..<n_systems s}" using edge_range [OF assms(1)] by blast
  then have "finite {i. edge (sc_systems s) (sc_order s) i j}" by (rule finite_subset) simp
  with e have "card {i. edge (sc_systems s) (sc_order s) i j} \<noteq> 0" by auto
  with assms(1) j show "0 < sc_in_degree_initial s ! j" by (simp add: graph_ok_def)
  show "distinct (sc_dependents s ! i)" using assms(1,2) by (simp add: graph_ok_def)
qed

lemma no_predecessor_not_released:
  assumes "graph_ok s" "all_runs_inv s c" "sc_in_degree_initial s ! j = 0"
  shows "released s c j = 0"
proof -
  have no: "j \<notin> set (sc_dependents s ! i)" if "i < n_systems s" for i
    using graph_dependents(2) [OF assms(1) that] assms(3) by fastforce
  have "\<not> releases s j wk" if "wk \<in> set (p_workers c)" for wk
    using assms(2) that no by (auto simp: all_runs_inv_def list_all_iff phase_ok_def releases_def split: prod.splits worker_phase.splits)
  moreover have "\<forall>i \<in> set (p_finished c). j \<notin> set (sc_dependents s ! i)"
    using assms(2) no by (auto simp: all_runs_inv_def)
  ultimately show ?thesis by (simp add: released_def filter_empty_conv)
qed

text \<open>A step that dispatches nothing and counts nothing down.\<close>

lemma all_runs_inv_same:
  assumes "all_runs_inv s c" "p_seed c' = p_seed c" "p_in_degree c' = p_in_degree c" "mset (started c') = mset (started c)"
    "\<And>j. released s c' j = released s c j" "set (p_queue c') \<subseteq> {..<n_systems s}" "set (p_finished c') \<subseteq> {..<n_systems s}"
    "list_all (phase_ok s) (p_workers c')"
  shows "all_runs_inv s c'"
proof -
  have "set (started c') = set (started c)" using assms(4) by (metis set_mset_mset)
  moreover have "dispatched_by s c' = dispatched_by s c" "released s c' = released s c"
    using assms(3,5) by (simp_all add: dispatched_by_def fun_eq_iff)
  ultimately show ?thesis using assms(1,6-8) unfolding all_runs_inv_def by (simp only: assms(2-4) simp_thms) blast
qed

lemma all_runs_inv_start:
  assumes "graph_ok s"
  shows "all_runs_inv s (pstart s w)"
  using assms by (auto simp: all_runs_inv_def pstart_def started_def released_def dispatched_by_def graph_ok_def)

lemma all_runs_inv_seed:
  assumes "graph_ok s" "all_runs_inv s c" "p_seed c < n_systems s"
  shows "all_runs_inv s (c\<lparr>p_seed := p_seed c + 1,
      p_queue := (if p_in_degree c ! p_seed c = 0 then p_queue c @ [p_seed c] else p_queue c)\<rparr>)"
    (is "all_runs_inv s ?c")
proof -
  have rel: "released s ?c = released s c" by (simp add: released_def fun_eq_iff)
  have ms: "mset (started ?c) = mset (started c) + (if p_in_degree c ! p_seed c = 0 then {#p_seed c#} else {#})"
    by (simp add: started_def)
  have st: "set (started c) \<subseteq> set (started ?c)" "p_in_degree c ! p_seed c = 0 \<Longrightarrow> p_seed c \<in> set (started ?c)"
    by (auto simp: started_def)
  have zero: "p_in_degree c ! p_seed c = 0" if "sc_in_degree_initial s ! p_seed c = 0"
    using no_predecessor_not_released [OF assms(1,2) that] assms(2,3) that by (simp add: all_runs_inv_def)
  have dis: "dispatched_by s ?c j = dispatched_by s c j" for j by (simp add: dispatched_by_def)
  show ?thesis unfolding all_runs_inv_def rel dis
  proof (intro conjI allI impI)
    fix j assume j: "j < n_systems s"
    show "p_in_degree ?c ! j = sc_in_degree_initial s ! j - int (released s c j)" using assms(2) j by (simp add: all_runs_inv_def)
    show "j \<in> set (started ?c)" if "j < p_seed ?c \<and> sc_in_degree_initial s ! j = 0 \<or> dispatched_by s c j"
      using that assms(2) j st zero by (cases "j = p_seed c") (auto simp: all_runs_inv_def less_Suc_eq)
    have "count (mset (started c)) j \<le> of_bool (j < p_seed c) + of_bool (dispatched_by s c j)"
      using assms(2) j by (simp add: all_runs_inv_def)
    moreover have "count (mset (started ?c)) j \<le> count (mset (started c)) j + of_bool (j = p_seed c)" unfolding ms by simp
    moreover have "of_bool (j < p_seed ?c) = (of_bool (j < p_seed c) + of_bool (j = p_seed c) :: nat)" by (auto simp: less_Suc_eq)
    ultimately show "count (mset (started ?c)) j \<le> of_bool (j < p_seed ?c) + of_bool (dispatched_by s c j)" by linarith
  qed (use assms in \<open>auto simp: all_runs_inv_def\<close>)
qed

lemma all_runs_inv_release:
  assumes "graph_ok s" "all_runs_inv s c" "p_workers c = ws1 @ (i, Releasing (d # ds)) # ws2"
  shows "all_runs_inv s (c\<lparr>p_in_degree := (p_in_degree c)[d := p_in_degree c ! d - 1],
       p_queue := (if p_in_degree c ! d = 1 then p_queue c @ [d] else p_queue c),
       p_workers := ws1 @ (i, Releasing ds) # ws2\<rparr>)"
    (is "all_runs_inv s ?c")
proof -
  have wk: "i < n_systems s" "d \<in> set (sc_dependents s ! i)" "d \<notin> set ds" "distinct ds" "set ds \<subseteq> set (sc_dependents s ! i)"
    using assms(2,3) by (auto simp: all_runs_inv_def phase_ok_def)
  note dN = graph_dependents [OF assms(1) wk(1,2)]
  have len: "length (p_in_degree c) = n_systems s" using assms(2) by (simp add: all_runs_inv_def)
  have rel: "released s ?c j = released s c j + of_bool (j = d)" for j
    using wk by (auto simp: released_def assms(3) releases_def)
  have ms: "mset (started ?c) = mset (started c) + (if p_in_degree c ! d = 1 then {#d#} else {#})"
    by (simp add: started_def assms(3))
  have st: "set (started ?c) = set (started c) \<union> (if p_in_degree c ! d = 1 then {d} else {})"
    by (auto simp: started_def assms(3))
  have dis: "dispatched_by s ?c j \<longleftrightarrow> dispatched_by s c j \<or> j = d \<and> p_in_degree c ! d = 1" for j
    using dN len by (cases "j = d") (auto simp: dispatched_by_def)
  show ?thesis unfolding all_runs_inv_def rel dis
  proof (intro conjI allI impI)
    fix j assume j: "j < n_systems s"
    have old: "p_in_degree c ! j = sc_in_degree_initial s ! j - int (released s c j)"
      "count (mset (started c)) j \<le> of_bool (j < p_seed c) + of_bool (dispatched_by s c j)"
      using assms(2) j by (simp_all add: all_runs_inv_def)
    show "p_in_degree ?c ! j = sc_in_degree_initial s ! j - int (released s c j + of_bool (j = d))"
      using old(1) j len by (cases "j = d") simp_all
    show "j \<in> set (started ?c)" if "j < p_seed ?c \<and> sc_in_degree_initial s ! j = 0 \<or> dispatched_by s c j \<or> j = d \<and> p_in_degree c ! d = 1"
      using that assms(2) j unfolding st by (auto simp: all_runs_inv_def)
    have "\<not> dispatched_by s c d" if "p_in_degree c ! d = 1" using that by (simp add: dispatched_by_def)
    then show "count (mset (started ?c)) j \<le> of_bool (j < p_seed ?c) + of_bool (dispatched_by s c j \<or> j = d \<and> p_in_degree c ! d = 1)"
      using old(2) unfolding ms by auto
  qed (use assms dN wk in \<open>auto simp: all_runs_inv_def phase_ok_def\<close>)
qed

lemma pstep_all_runs_inv:
  assumes "graph_ok s" "pstep s c c'" "all_runs_inv s c"
  shows "all_runs_inv s c'"
  using assms(2)
proof cases
  case Seed
  then show ?thesis using all_runs_inv_seed [OF assms(1,3)] by simp
next
  case (Release ws1 i d ds ws2)
  then show ?thesis using all_runs_inv_release [OF assms(1,3)] by simp
next
  case (Take i q n)
  show ?thesis using assms(3)
    by (rule all_runs_inv_same)
      (use Take assms(3) in \<open>auto simp: all_runs_inv_def started_def released_def releases_def phase_ok_def\<close>)
next
  case (Act ws1 i a as ws2)
  show ?thesis using assms(3)
    by (rule all_runs_inv_same)
      (use Act assms(3) in \<open>auto simp: all_runs_inv_def started_def released_def releases_def phase_ok_def\<close>)
next
  case (Ticked ws1 i ws2)
  show ?thesis using assms(3)
    by (rule all_runs_inv_same)
      (use Ticked assms(1,3) in \<open>auto simp: all_runs_inv_def started_def released_def releases_def phase_ok_def graph_ok_def\<close>)
next
  case (Complete ws1 i ws2)
  show ?thesis using assms(3)
    by (rule all_runs_inv_same)
      (use Complete assms(3) in \<open>auto simp: all_runs_inv_def started_def released_def releases_def phase_ok_def\<close>)
qed

lemma psteps_all_runs_inv: "(pstep s)\<^sup>*\<^sup>* (pstart s w) c \<Longrightarrow> graph_ok s \<Longrightarrow> all_runs_inv s c"
  by (induction rule: rtranclp_induct) (auto intro: pstep_all_runs_inv all_runs_inv_start)

text \<open>When the loop is through and the pool is idle, every system has run: the first in name order that had
  not would have had all its predecessors completed.\<close>

lemma idle_all_finished:
  assumes "graph_ok s" "all_runs_inv s c" "p_seed c = n_systems s" "p_queue c = []" "p_workers c = []"
  shows "set (p_finished c) = {..<n_systems s}"
proof -
  have len: "length (sc_order s) = n_systems s" using assms(1) by (metis card_lessThan distinct_card graph_ok_def)
  have st: "started c = p_finished c" using assms(4,5) by (simp add: started_def)
  have "sc_order s ! p \<in> set (p_finished c)" if "p < n_systems s" for p
    using that
  proof (induction p rule: less_induct)
    case (less p)
    let ?j = "sc_order s ! p" and ?pre = "{i. edge (sc_systems s) (sc_order s) i (sc_order s ! p)}"
    have j: "?j < n_systems s" using assms(1) less.prems len by (metis graph_ok_def lessThan_iff nth_mem)
    have pre: "?pre \<subseteq> set (filter (\<lambda>i. ?j \<in> set (sc_dependents s ! i)) (p_finished c))"
    proof
      fix i assume "i \<in> ?pre"
      then have e: "edge (sc_systems s) (sc_order s) i ?j" by simp
      then obtain pa pb where ab: "pa < pb" "pb < length (sc_order s)" "sc_order s ! pa = i" "sc_order s ! pb = ?j"
        by (auto simp: edge_def before_def)
      then have "pb = p" using assms(1) less.prems len by (metis graph_ok_def nth_eq_iff_index_eq)
      with less.IH [of pa] ab less.prems have "i \<in> set (p_finished c)" by auto
      moreover have "?j \<in> set (sc_dependents s ! i)" using assms(1) e edge_range [OF assms(1) e] by (simp add: graph_ok_def)
      ultimately show "i \<in> set (filter (\<lambda>i. ?j \<in> set (sc_dependents s ! i)) (p_finished c))" by simp
    qed
    have "card ?pre \<le> card (set (filter (\<lambda>i. ?j \<in> set (sc_dependents s ! i)) (p_finished c)))"
      using pre by (rule card_mono [rotated]) simp
    also have "\<dots> \<le> released s c ?j" unfolding released_def assms(5) using card_length by (rule order_trans) simp
    finally have "p_in_degree c ! ?j \<le> 0" using assms(1,2) j by (simp add: all_runs_inv_def graph_ok_def)
    then show ?case using assms(2,3) j assms(1)
      by (cases "sc_in_degree_initial s ! ?j = 0") (auto simp: all_runs_inv_def dispatched_by_def graph_ok_def st)
  qed
  then have "set (sc_order s) \<subseteq> set (p_finished c)" by (auto simp: in_set_conv_nth len)
  with assms(1,2) show ?thesis by (auto simp: all_runs_inv_def graph_ok_def)
qed

lemma tick_over_idle_iff:
  assumes "graph_ok s" "(pstep s)\<^sup>*\<^sup>* (pstart s w) c" "tick_over s c"
  shows "p_queue c = [] \<and> p_workers c = [] \<longleftrightarrow> distinct (started c)"
proof
  assume idle: "p_queue c = [] \<and> p_workers c = []"
  have "set (p_finished c) = {..<n_systems s}"
    using idle_all_finished [OF assms(1) psteps_all_runs_inv [OF assms(2,1)]] idle assms(3) by (simp add: tick_over_def)
  then have "card (set (p_finished c)) = length (p_finished c)" using assms(3) by (simp add: tick_over_def)
  then show "distinct (started c)" using idle by (simp add: started_def card_distinct)
next
  assume d: "distinct (started c)"
  have sub: "set (started c) \<subseteq> {..<n_systems s}" using clean_started(2) distinct_run_clean [OF assms(2,1) d] by blast
  have "length (started c) = card (set (started c))" using d by (simp add: distinct_card)
  also have "\<dots> \<le> n_systems s" using card_mono [OF _ sub] by simp
  finally show "p_queue c = [] \<and> p_workers c = []" using assms(3) by (simp add: tick_over_def started_def)
qed

lemma tick_over_finished:
  assumes "graph_ok s" "(pstep s)\<^sup>*\<^sup>* (pstart s w) c" "tick_over s c" "distinct (started c)"
  shows "set (p_finished c) = {..<n_systems s}" "distinct (p_finished c)"
  using idle_all_finished [OF assms(1) psteps_all_runs_inv [OF assms(2,1)]] tick_over_idle_iff [OF assms(1-3)] assms(3,4)
  by (auto simp: tick_over_def started_def)


section \<open>Termination and progress\<close>

text \<open>A potential that every step lowers: what the loop, the queue and the workers have left to do, and the
  dispatches that counters above zero may still cause.\<close>

definition dispatch_cost :: "'s scheduler \<Rightarrow> nat \<Rightarrow> nat" where
  "dispatch_cost s i = length (sys_actions (sc_systems s ! i)) + length (sc_dependents s ! i) + 3"

definition worker_cost :: "'s scheduler \<Rightarrow> nat \<times> 's worker_phase \<Rightarrow> nat" where
  "worker_cost s wk = (case wk of (i, Ticking as) \<Rightarrow> length as + length (sc_dependents s ! i) + 2
     | (i, Releasing ds) \<Rightarrow> length ds + 1)"

definition potential :: "'s scheduler \<Rightarrow> 's pconf \<Rightarrow> nat" where
  "potential s c = sum_list (map (\<lambda>i. Suc (dispatch_cost s i)) [p_seed c..<n_systems s])
     + sum_list (map (dispatch_cost s) (p_queue c)) + sum_list (map (worker_cost s) (p_workers c))
     + (\<Sum>j < n_systems s. if 0 < p_in_degree c ! j then dispatch_cost s j else 0)"

lemma potential_release:
  fixes inD :: "int list"
  assumes "d < n_systems s" "length inD = n_systems s"
  shows "(\<Sum>j < n_systems s. if 0 < inD[d := inD ! d - 1] ! j then dispatch_cost s j else 0) + (if inD ! d = 1 then dispatch_cost s d else 0)
    = (\<Sum>j < n_systems s. if 0 < inD ! j then dispatch_cost s j else 0)"
proof -
  have "(\<Sum>j \<in> {..<n_systems s} - {d}. if 0 < inD[d := inD ! d - 1] ! j then dispatch_cost s j else 0)
      = (\<Sum>j \<in> {..<n_systems s} - {d}. if 0 < inD ! j then dispatch_cost s j else 0)" by (intro sum.cong) auto
  with assms show ?thesis by (auto simp: sum.remove [of "{..<n_systems s}" d])
qed

lemma pstep_potential:
  assumes "graph_ok s" "all_runs_inv s c" "pstep s c c'"
  shows "potential s c' < potential s c"
  using assms(3)
proof cases
  case Seed
  then show ?thesis by (simp add: potential_def upt_conv_Cons)
next
  case (Take i q n)
  then show ?thesis by (simp add: potential_def worker_cost_def dispatch_cost_def)
next
  case (Act ws1 i a as ws2)
  then show ?thesis by (simp add: potential_def worker_cost_def)
next
  case (Ticked ws1 i ws2)
  then show ?thesis by (simp add: potential_def worker_cost_def)
next
  case (Release ws1 i d ds ws2)
  have "i < n_systems s" "d \<in> set (sc_dependents s ! i)" "length (p_in_degree c) = n_systems s"
    using assms(2) Release by (auto simp: all_runs_inv_def phase_ok_def)
  with potential_release [of d s "p_in_degree c"] graph_dependents(1) [OF assms(1)] Release show ?thesis
    by (auto simp: potential_def worker_cost_def)
next
  case (Complete ws1 i ws2)
  then show ?thesis by (simp add: potential_def worker_cost_def)
qed

lemma psteps_potential:
  "(pstep s ^^ k) c c' \<Longrightarrow> graph_ok s \<Longrightarrow> all_runs_inv s c \<Longrightarrow> all_runs_inv s c' \<and> potential s c' + k \<le> potential s c"
proof (induction k arbitrary: c')
  case (Suc k)
  then obtain c1 where c1: "(pstep s ^^ k) c c1" "pstep s c1 c'" by auto
  with Suc have "potential s c1 + k \<le> potential s c" "all_runs_inv s c1" by blast+
  with pstep_potential [OF Suc.prems(2) this(2) c1(2)] pstep_all_runs_inv [OF Suc.prems(2) c1(2)] show ?case by simp
qed simp

lemma stuck_idle:
  assumes "\<nexists>c'. pstep s c c'" "sc_pool s = Some n" "0 < n" "p_seed c \<le> n_systems s"
  shows "p_seed c = n_systems s \<and> p_queue c = [] \<and> p_workers c = []"
proof (intro conjI)
  show w: "p_workers c = []"
  proof (rule ccontr)
    assume "p_workers c \<noteq> []"
    then obtain i ph ws where "p_workers c = [] @ (i, ph) # ws" by (cases "p_workers c") auto
    with assms(1) show False
      using Act [of c "[]" i _ _ ws s] Ticked [of c "[]" i ws s] Release [of c "[]" i _ _ ws s] Complete [of c "[]" i ws s]
      by (cases ph) (metis neq_Nil_conv)+
  qed
  show "p_queue c = []" using assms(1-3) w Take [of c _ _ s n] by (cases "p_queue c") auto
  show "p_seed c = n_systems s" using assms(1,4) Seed [of c s] by fastforce
qed

lemma build_graph_pool:
  "build_graph hc s = (Ok, s') \<Longrightarrow> sc_mode s = Parallel \<Longrightarrow> sc_pool s = None \<Longrightarrow>
     sc_pool s' = Some (resolve_pool_size hc (sc_thread_pool_size s)) \<and> 0 < resolve_pool_size hc (sc_thread_pool_size s)"
  by (auto simp: build_graph_def Let_def resolve_pool_size_def split: if_splits)

lemma eventually_stuck:
  assumes "graph_ok s" "all_runs_inv s c"
  shows "\<exists>c'. (pstep s)\<^sup>*\<^sup>* c c' \<and> (\<nexists>c''. pstep s c' c'')"
  using assms(2)
proof (induction "potential s c" arbitrary: c rule: less_induct)
  case less
  show ?case
  proof (cases "\<exists>c1. pstep s c c1")
    case True
    then obtain c1 where c1: "pstep s c c1" by blast
    with less.hyps [OF pstep_potential [OF assms(1) less.prems c1] pstep_all_runs_inv [OF assms(1) c1 less.prems]]
    show ?thesis by (meson converse_rtranclp_into_rtranclp)
  qed blast
qed

lemma potential_start:
  assumes "graph_ok s"
  shows "potential s (pstart s w) =
    (\<Sum>i < n_systems s. 1 + dispatch_cost s i * (if sc_in_degree_initial s ! i = 0 then 1 else 2))"
proof -
  have "sum_list (map (\<lambda>i. Suc (dispatch_cost s i)) [0..<n_systems s]) = (\<Sum>i < n_systems s. Suc (dispatch_cost s i))"
    by (simp add: sum_list_distinct_conv_sum_set lessThan_atLeast0)
  then have "potential s (pstart s w) =
      (\<Sum>i < n_systems s. Suc (dispatch_cost s i) + (if 0 < sc_in_degree_initial s ! i then dispatch_cost s i else 0))"
    by (simp only: sum.distrib) (simp add: potential_def pstart_def)
  also have "\<dots> = (\<Sum>i < n_systems s. 1 + dispatch_cost s i * (if sc_in_degree_initial s ! i = 0 then 1 else 2))"
    using assms by (intro sum.cong) (auto simp: graph_ok_def)
  finally show ?thesis .
qed

text \<open>
  Claim C21.  Every run of a parallel tick, from the first step of the seeding loop and with any number of workers,
  is finite, with a bound on its steps, and dispatches no system more than twice.  It only stops when the
  loop is through and the pool is idle, and then every system has completed at least once.  The wait of the
  main thread for \<open>completed == N\<close> is then satisfied exactly when no system has run twice: this is certain
  when every system that has to wait is registered before one of the systems it waits for, and otherwise a
  run can end with a counter that has gone past \<open>N\<close>.
\<close>

theorem parallel_tick_terminates:
  assumes "build_graph hc s = (Ok, s')" "sc_mode s = Parallel" "sc_pool s = None"
    and "(pstep s' ^^ k) (pstart s' w) c"
  shows "k \<le> (\<Sum>i < n_systems s'. 1 + dispatch_cost s' i * (if sc_in_degree_initial s' ! i = 0 then 1 else 2))
    \<and> (\<forall>i < n_systems s'. count (mset (started c)) i \<le> 2)
    \<and> ((\<nexists>c'. pstep s' c c') \<longrightarrow>
        p_seed c = n_systems s' \<and> p_queue c = [] \<and> p_workers c = [] \<and> set (p_finished c) = {..<n_systems s'}
        \<and> (tick_over s' c \<longleftrightarrow> distinct (p_finished c)) \<and> (seed_safe s' \<longrightarrow> tick_over s' c))"
proof (intro conjI impI)
  note b = build_graph_ok [OF assms(1,2)] and p = build_graph_pool [OF assms(1-3)]
  note r = psteps_potential [OF assms(4) b(1) all_runs_inv_start [OF b(1)]]
  show "k \<le> (\<Sum>i < n_systems s'. 1 + dispatch_cost s' i * (if sc_in_degree_initial s' ! i = 0 then 1 else 2))"
    using r by (simp only: potential_start [OF b(1)]) linarith
  have "count (mset (started c)) i \<le> of_bool (i < p_seed c) + of_bool (dispatched_by s' c i)" if "i < n_systems s'" for i
    using r that by (simp add: all_runs_inv_def)
  moreover have "of_bool (i < p_seed c) + of_bool (dispatched_by s' c i) \<le> (2 :: nat)" for i by simp
  ultimately show "\<forall>i < n_systems s'. count (mset (started c)) i \<le> 2" using le_trans by blast
  assume stuck: "\<nexists>c'. pstep s' c c'"
  have le: "p_seed c \<le> n_systems s'" using r by (simp add: all_runs_inv_def)
  obtain n where n: "sc_pool s' = Some n" "0 < n" using p by blast
  note idle = stuck_idle [OF stuck n le]
  then show "p_seed c = n_systems s'" "p_queue c = []" "p_workers c = []" by blast+
  show fin: "set (p_finished c) = {..<n_systems s'}" using idle_all_finished [OF b(1)] r idle by blast
  then show over: "tick_over s' c \<longleftrightarrow> distinct (p_finished c)"
    using idle by (metis card_distinct card_lessThan distinct_card tick_over_def)
  have "(pstep s')\<^sup>*\<^sup>* (pstart s' w) c" using assms(4) by (rule relpowp_imp_rtranclp)
  then show "tick_over s' c" if "seed_safe s'"
    using seed_safe_distinct [OF _ b(1) that] over by (auto simp: started_def)
qed

section \<open>Two systems\<close>

text \<open>Two systems that write the same component: the first adds one, the second doubles.\<close>

definition example_system :: "string \<Rightarrow> (nat \<Rightarrow> nat) \<Rightarrow> nat system" where
  "example_system n f =
     \<lparr>sys_describe = \<lparr>sd_name = n, reads_components = [], writes_components = [7], reads_resources = [], writes_resources = []\<rparr>,
      sys_actions = [f]\<rparr>"

definition example_scheduler :: "nat scheduler" where
  "example_scheduler = (scheduler_new Parallel 1)
     \<lparr>sc_systems := [example_system ''a'' (\<lambda>n. n + 1), example_system ''b'' (\<lambda>n. 2 * n)]\<rparr>"

definition example_built :: "nat scheduler" where
  "example_built = snd (build_graph 4 example_scheduler)"

lemma example_systems:
  "sc_systems example_built = [example_system ''a'' (\<lambda>n. n + 1), example_system ''b'' (\<lambda>n. 2 * n)]"
  by (simp add: example_built_def example_scheduler_def build_graph_def scheduler_new_def Let_def)

lemma example_fields:
  "sc_built example_built" "sc_order example_built = [0, 1]" "sc_dependents example_built = [[1], []]"
  "sc_in_degree_initial example_built = [0, 1]" "sc_pool example_built = Some 1" "fst (build_graph 4 example_scheduler) = Ok"
  by code_simp+

lemma example_build: "build_graph 4 example_scheduler = (Ok, example_built)"
  using example_fields(6) by (simp add: example_built_def prod_eq_iff)

lemma example_mode: "sc_mode example_scheduler = Parallel" "sc_pool example_scheduler = None"
  by (simp_all add: example_scheduler_def scheduler_new_def)

text \<open>The same systems registered in the other order: the loop cannot be overtaken.\<close>

definition example_reversed :: "nat scheduler" where
  "example_reversed = (scheduler_new Parallel 1)
     \<lparr>sc_systems := [example_system ''b'' (\<lambda>n. 2 * n), example_system ''a'' (\<lambda>n. n + 1)]\<rparr>"

definition example_safe :: "nat scheduler" where
  "example_safe = snd (build_graph 4 example_reversed)"

lemma safe_systems:
  "sc_systems example_safe = [example_system ''b'' (\<lambda>n. 2 * n), example_system ''a'' (\<lambda>n. n + 1)]"
  by (simp add: example_safe_def example_reversed_def build_graph_def scheduler_new_def Let_def)

lemma safe_fields:
  "sc_built example_safe" "sc_order example_safe = [1, 0]" "sc_dependents example_safe = [[], [0]]"
  "sc_in_degree_initial example_safe = [1, 0]" "sc_pool example_safe = Some 1" "fst (build_graph 4 example_reversed) = Ok"
  by code_simp+

lemma safe_build: "build_graph 4 example_reversed = (Ok, example_safe)"
  using safe_fields(6) by (simp add: example_safe_def prod_eq_iff)

lemma safe_mode: "sc_mode example_reversed = Parallel" "sc_pool example_reversed = None"
  by (simp_all add: example_reversed_def scheduler_new_def)

lemma safe_seed: "seed_safe example_safe"
  by (auto simp: seed_safe_def safe_systems safe_fields less_2_cases_iff numeral_2_eq_2 less_Suc_eq)

lemma safe_declared: "hazards_declared example_safe"
proof -
  have "have_hazard (sys_describe (sc_systems example_safe ! i)) (sys_describe (sc_systems example_safe ! j))"
    if "i < 2" "j < 2" for i j
    using that by (auto simp: safe_systems example_system_def have_hazard_def intersects_def less_2_cases_iff)
  then show ?thesis by (simp add: hazards_declared_def safe_systems)
qed


definition conf :: "nat \<Rightarrow> int list \<Rightarrow> nat list \<Rightarrow> (nat \<times> nat worker_phase) list \<Rightarrow> nat list \<Rightarrow> nat \<Rightarrow> nat pconf" where
  "conf seed inD q ws fin st = \<lparr>p_seed = seed, p_in_degree = inD, p_queue = q, p_workers = ws, p_finished = fin, p_state = st\<rparr>"

lemmas race_simps = conf_def example_systems example_system_def example_fields

lemma race_first_part:
  "(pstep example_built)\<^sup>*\<^sup>* (conf 0 [0, 1] [] [] [] 1)
     (conf 2 [0, 0] [1] [] [0, 1] 4)"
proof -
  note step = converse_rtranclp_into_rtranclp [of "pstep example_built"]
  have s1: "pstep example_built (conf 0 [0, 1] [] [] [] 1)
      (conf 1 [0, 1] [0] [] [] 1)"
    using Seed [of "conf 0 [0, 1] [] [] [] 1" example_built] by (simp add: race_simps)
  have s2: "pstep example_built (conf 1 [0, 1] [0] [] [] 1)
      (conf 1 [0, 1] [] [(0, Ticking [(\<lambda>n. n + 1)])] [] 1)"
    using Take [of "conf 1 [0, 1] [0] [] [] 1" 0 "[]" example_built 1] by (simp add: race_simps)
  have s3: "pstep example_built (conf 1 [0, 1] [] [(0, Ticking [(\<lambda>n. n + 1)])] [] 1)
      (conf 1 [0, 1] [] [(0, Ticking [])] [] 2)"
    using Act [of "conf 1 [0, 1] [] [(0, Ticking [(\<lambda>n. n + 1)])] [] 1" "[]" 0 "(\<lambda>n. n + 1)" "[]" "[]" example_built] by (simp add: race_simps numeral_2_eq_2)
  have s4: "pstep example_built (conf 1 [0, 1] [] [(0, Ticking [])] [] 2)
      (conf 1 [0, 1] [] [(0, Releasing [1])] [] 2)"
    using Ticked [of "conf 1 [0, 1] [] [(0, Ticking [])] [] 2" "[]" 0 "[]" example_built] by (simp add: race_simps)
  have s5: "pstep example_built (conf 1 [0, 1] [] [(0, Releasing [1])] [] 2)
      (conf 1 [0, 0] [1] [(0, Releasing [])] [] 2)"
    using Release [of "conf 1 [0, 1] [] [(0, Releasing [1])] [] 2" "[]" 0 1 "[]" "[]" example_built] by (simp add: race_simps)
  have s6: "pstep example_built (conf 1 [0, 0] [1] [(0, Releasing [])] [] 2)
      (conf 2 [0, 0] [1, 1] [(0, Releasing [])] [] 2)"
    using Seed [of "conf 1 [0, 0] [1] [(0, Releasing [])] [] 2" example_built] by (simp add: race_simps numeral_2_eq_2)
  have s7: "pstep example_built (conf 2 [0, 0] [1, 1] [(0, Releasing [])] [] 2)
      (conf 2 [0, 0] [1, 1] [] [0] 2)"
    using Complete [of "conf 2 [0, 0] [1, 1] [(0, Releasing [])] [] 2" "[]" 0 "[]" example_built] by (simp add: race_simps)
  have s8: "pstep example_built (conf 2 [0, 0] [1, 1] [] [0] 2)
      (conf 2 [0, 0] [1] [(1, Ticking [(\<lambda>n. 2 * n)])] [0] 2)"
    using Take [of "conf 2 [0, 0] [1, 1] [] [0] 2" 1 "[1]" example_built 1] by (simp add: race_simps)
  have s9: "pstep example_built (conf 2 [0, 0] [1] [(1, Ticking [(\<lambda>n. 2 * n)])] [0] 2)
      (conf 2 [0, 0] [1] [(1, Ticking [])] [0] 4)"
    using Act [of "conf 2 [0, 0] [1] [(1, Ticking [(\<lambda>n. 2 * n)])] [0] 2" "[]" 1 "(\<lambda>n. 2 * n)" "[]" "[]" example_built] by (simp add: race_simps)
  have s10: "pstep example_built (conf 2 [0, 0] [1] [(1, Ticking [])] [0] 4)
      (conf 2 [0, 0] [1] [(1, Releasing [])] [0] 4)"
    using Ticked [of "conf 2 [0, 0] [1] [(1, Ticking [])] [0] 4" "[]" 1 "[]" example_built] by (simp add: race_simps)
  have s11: "pstep example_built (conf 2 [0, 0] [1] [(1, Releasing [])] [0] 4)
      (conf 2 [0, 0] [1] [] [0, 1] 4)"
    using Complete [of "conf 2 [0, 0] [1] [(1, Releasing [])] [0] 4" "[]" 1 "[]" example_built] by (simp add: race_simps)
  show ?thesis
    by (rule step [OF s1], rule step [OF s2], rule step [OF s3], rule step [OF s4], rule step [OF s5], rule step [OF s6], rule step [OF s7], rule step [OF s8], rule step [OF s9], rule step [OF s10], rule step [OF s11], rule rtranclp.rtrancl_refl)
qed

lemma race_second_part:
  "(pstep example_built)\<^sup>*\<^sup>* (conf 2 [0, 0] [1] [] [0, 1] 4)
     (conf 2 [0, 0] [] [] [0, 1, 1] 8)"
proof -
  note step = converse_rtranclp_into_rtranclp [of "pstep example_built"]
  have s1: "pstep example_built (conf 2 [0, 0] [1] [] [0, 1] 4)
      (conf 2 [0, 0] [] [(1, Ticking [(\<lambda>n. 2 * n)])] [0, 1] 4)"
    using Take [of "conf 2 [0, 0] [1] [] [0, 1] 4" 1 "[]" example_built 1] by (simp add: race_simps)
  have s2: "pstep example_built (conf 2 [0, 0] [] [(1, Ticking [(\<lambda>n. 2 * n)])] [0, 1] 4)
      (conf 2 [0, 0] [] [(1, Ticking [])] [0, 1] 8)"
    using Act [of "conf 2 [0, 0] [] [(1, Ticking [(\<lambda>n. 2 * n)])] [0, 1] 4" "[]" 1 "(\<lambda>n. 2 * n)" "[]" "[]" example_built] by (simp add: race_simps)
  have s3: "pstep example_built (conf 2 [0, 0] [] [(1, Ticking [])] [0, 1] 8)
      (conf 2 [0, 0] [] [(1, Releasing [])] [0, 1] 8)"
    using Ticked [of "conf 2 [0, 0] [] [(1, Ticking [])] [0, 1] 8" "[]" 1 "[]" example_built] by (simp add: race_simps)
  have s4: "pstep example_built (conf 2 [0, 0] [] [(1, Releasing [])] [0, 1] 8)
      (conf 2 [0, 0] [] [] [0, 1, 1] 8)"
    using Complete [of "conf 2 [0, 0] [] [(1, Releasing [])] [0, 1] 8" "[]" 1 "[]" example_built] by (simp add: race_simps)
  show ?thesis
    by (rule step [OF s1], rule step [OF s2], rule step [OF s3], rule step [OF s4], rule rtranclp.rtrancl_refl)
qed

text \<open>
  The seeding loop can be overtaken: it reads the live counters, so when a worker finishes the
  first system and releases the second before the loop has looked at it, the second system is
  dispatched by both.  For two conflicting systems there is a run of one parallel tick in which the main
  thread can see \<open>completed == N\<close> while the duplicate is still queued.  If it does not look at that moment,
  the duplicate runs: the state is not the one the sequential tick computes, the counter is past \<open>N\<close>, nothing is left
  to run, and the wait for \<open>completed == N\<close> never ends.
\<close>

lemma race_start: "pstart example_built 1 = conf 0 [0, 1] [] [] [] 1"
  by (simp add: pstart_def conf_def example_fields)

lemma race_run: "(pstep example_built)\<^sup>*\<^sup>* (pstart example_built 1) (conf 2 [0, 0] [] [] [0, 1, 1] 8)"
  unfolding race_start using race_first_part race_second_part by (rule rtranclp_trans)

lemma race_stuck: "\<not> pstep example_built (conf 2 [0, 0] [] [] [0, 1, 1] 8) c'"
  by (auto simp: race_simps elim!: pstep.cases)

theorem seeding_race_runs_system_twice:
  "(\<exists>c. (pstep example_built)\<^sup>*\<^sup>* (pstart example_built 1) c \<and> tick_over example_built c \<and> p_queue c = [1])
   \<and> (\<exists>c. (pstep example_built)\<^sup>*\<^sup>* (pstart example_built 1) c \<and> p_finished c = [0, 1, 1] \<and> p_state c = 8
        \<and> \<not> tick_over example_built c \<and> (\<nexists>c'. pstep example_built c c'))
   \<and> tick_sequential example_built 1 = Inr 4"
proof (intro conjI)
  have "tick_over example_built (conf 2 [0, 0] [1] [] [0, 1] 4) \<and> p_queue (conf 2 [0, 0] [1] [] [0, 1] 4) = [1]"
    by (simp add: tick_over_def conf_def example_systems)
  with race_first_part [folded race_start]
  show "\<exists>c. (pstep example_built)\<^sup>*\<^sup>* (pstart example_built 1) c \<and> tick_over example_built c \<and> p_queue c = [1]" by blast
  have "p_finished (conf 2 [0, 0] [] [] [0, 1, 1] 8) = [0, 1, 1]" "p_state (conf 2 [0, 0] [] [] [0, 1, 1] 8) = 8"
    "\<not> tick_over example_built (conf 2 [0, 0] [] [] [0, 1, 1] 8)" by (simp_all add: conf_def tick_over_def example_systems)
  with race_run race_stuck
  show "\<exists>c. (pstep example_built)\<^sup>*\<^sup>* (pstart example_built 1) c \<and> p_finished c = [0, 1, 1] \<and> p_state c = 8
        \<and> \<not> tick_over example_built c \<and> (\<nexists>c'. pstep example_built c c')" by blast
  show "tick_sequential example_built 1 = Inr 4"
    by (simp add: tick_sequential_def race_simps system_tick_def run_actions_def)
qed

theorem parallel_tick_terminates_witness:
  "\<exists>k c. (pstep example_built ^^ k) (pstart example_built 1) c \<and> (\<nexists>c'. pstep example_built c c') \<and> 0 < k \<and> k \<le> 15
     \<and> set (p_finished c) = {0, 1} \<and> \<not> tick_over example_built c"
proof -
  let ?c = "conf 2 [0, 0] [] [] [0, 1, 1] 8"
  obtain k where k: "(pstep example_built ^^ k) (pstart example_built 1) ?c"
    using race_run rtranclp_imp_relpowp by metis
  have "k \<noteq> 0"
  proof
    assume "k = 0"
    with k race_start show False by (simp add: conf_def)
  qed
  moreover have "(\<Sum>i < n_systems example_built. 1 + dispatch_cost example_built i * (if sc_in_degree_initial example_built ! i = 0 then 1 else 2)) = 15"
    by (simp add: dispatch_cost_def race_simps numeral_2_eq_2)
  moreover have "\<not> distinct (p_finished ?c)" "n_systems example_built = 2" by (simp_all add: conf_def example_systems)
  moreover have "{..<2} = {0, 1 :: nat}" by auto
  ultimately show ?thesis
    using parallel_tick_terminates [OF example_build example_mode k] race_stuck k by (intro exI [of _ k] exI [of _ ?c]) auto
qed

section \<open>Declared accesses make actions commute\<close>

datatype location = Component u64 | Resource u16

definition reads_of :: "descriptor \<Rightarrow> location set" where
  "reads_of d = Component ` set (reads_components d) \<union> Resource ` set (reads_resources d)"

definition writes_of :: "descriptor \<Rightarrow> location set" where
  "writes_of d = Component ` set (writes_components d) \<union> Resource ` set (writes_resources d)"

text \<open>An action respects a descriptor when it changes no location that is not declared as written, and
  what it writes depends on the declared locations only.  \<open>view\<close> reads a location of the state.\<close>

definition stays_within :: "('s \<Rightarrow> location \<Rightarrow> 'v) \<Rightarrow> descriptor \<Rightarrow> ('s \<Rightarrow> 's) \<Rightarrow> bool" where
  "stays_within view d a \<longleftrightarrow>
     (\<forall>w l. l \<notin> writes_of d \<longrightarrow> view (a w) l = view w l)
     \<and> (\<forall>w w'. (\<forall>l \<in> reads_of d \<union> writes_of d. view w l = view w' l) \<longrightarrow> (\<forall>l \<in> writes_of d. view (a w) l = view (a w') l))"

lemma intersects_iff: "intersects xs ys \<longleftrightarrow> set xs \<inter> set ys \<noteq> {}"
  by (auto simp: intersects_def list_ex_iff)

lemma have_hazard_iff:
  "have_hazard a b \<longleftrightarrow> writes_of a \<inter> (reads_of b \<union> writes_of b) \<noteq> {} \<or> reads_of a \<inter> writes_of b \<noteq> {}"
  unfolding have_hazard_def intersects_iff writes_of_def reads_of_def by (auto simp: image_iff)

lemma have_hazard_sym: "have_hazard a b \<longleftrightarrow> have_hazard b a"
  unfolding have_hazard_iff by blast

text \<open>The interface between the scheduler and a shared state: reading all locations determines it.\<close>

locale shared_state =
  fixes view :: "'s \<Rightarrow> location \<Rightarrow> 'v"
  assumes view_ext: "(\<And>l. view w l = view w' l) \<Longrightarrow> w = w'"
begin

lemma respects_commute:
  assumes "stays_within view d a" "stays_within view e b" "\<not> have_hazard d e"
  shows "commute a b"
  unfolding commute_def
proof (intro allI view_ext)
  fix w l
  have dis: "writes_of d \<inter> (reads_of e \<union> writes_of e) = {}" "writes_of e \<inter> (reads_of d \<union> writes_of d) = {}"
    using assms(3) unfolding have_hazard_iff by blast+
  have keep_a: "view (a v) m = view v m" if "m \<notin> writes_of d" for v m using assms(1) that by (simp add: stays_within_def)
  have keep_b: "view (b v) m = view v m" if "m \<notin> writes_of e" for v m using assms(2) that by (simp add: stays_within_def)
  have "\<forall>m \<in> reads_of d \<union> writes_of d. view (b w) m = view w m" "\<forall>m \<in> reads_of e \<union> writes_of e. view (a w) m = view w m"
    using dis keep_a keep_b by blast+
  then have "\<forall>m \<in> writes_of d. view (a (b w)) m = view (a w) m" "\<forall>m \<in> writes_of e. view (b (a w)) m = view (b w) m"
    using assms(1,2) unfolding stays_within_def by simp_all
  then show "view (a (b w)) l = view (b (a w)) l"
    using keep_a keep_b dis by (metis disjoint_iff UnCI)
qed

lemma respects_declared:
  assumes "\<And>i a. i < n_systems s \<Longrightarrow> a \<in> set (sys_actions (sc_systems s ! i)) \<Longrightarrow>
      stays_within view (sys_describe (sc_systems s ! i)) a"
  shows "hazards_declared s"
  unfolding hazards_declared_def using assms respects_commute by blast

end

text \<open>A state that is a function of the locations, as a plain store is.\<close>

interpretation store: shared_state "\<lambda>w :: location \<Rightarrow> 'v. w"
  by unfold_locales (auto simp: fun_eq_iff)

text \<open>
  The hazard test is sound and symmetric: it reports a hazard exactly when one system declares
  a write to a location the other declares to read or write; and two actions that respect descriptors
  without a hazard can be exchanged in every store.
\<close>

theorem hazard_free_actions_commute:
  "(have_hazard d e \<longleftrightarrow> have_hazard e d)
   \<and> (have_hazard d e \<longleftrightarrow> (\<exists>l. (l \<in> writes_of d \<and> l \<in> reads_of e \<union> writes_of e) \<or> (l \<in> reads_of d \<and> l \<in> writes_of e)))
   \<and> (stays_within (\<lambda>w. w) d a \<and> stays_within (\<lambda>w. w) e b \<and> \<not> have_hazard d e \<longrightarrow> (\<forall>w. a (b w) = b (a w)))"
  using have_hazard_sym [of d e] store.respects_commute [of d a e b] unfolding have_hazard_iff commute_def by blast

theorem hazard_free_actions_commute_witness:
  "(\<lambda>w :: location \<Rightarrow> nat. w(Component 1 := w (Component 2))) ((\<lambda>w. w(Component 3 := w (Component 2))) (\<lambda>_. 5))
   = (\<lambda>w. w(Component 3 := w (Component 2))) ((\<lambda>w. w(Component 1 := w (Component 2))) (\<lambda>_. 5))"
proof -
  let ?d = "\<lambda>c. \<lparr>sd_name = [], reads_components = [2], writes_components = [c], reads_resources = [], writes_resources = []\<rparr>"
  have "stays_within (\<lambda>w :: location \<Rightarrow> nat. w) (?d c) (\<lambda>w. w(Component c := w (Component 2)))" for c
    by (auto simp: stays_within_def reads_of_def writes_of_def)
  moreover have "\<not> have_hazard (?d 1) (?d 3)" by (simp add: have_hazard_def intersects_def)
  ultimately show ?thesis using hazard_free_actions_commute [of "?d 1" "?d 3"] by blast
qed

end
