(* ===== verification/Registry.thy ===== *)
theory Registry
  imports Components
begin

text \<open>
  Component identity (include/mith/core/component.h) and \<open>EntityRegistry\<close>
  (include/mith/core/registry.h, src/core/registry.cpp).

  A component type is its name, as the compiler prints it, and the address of its type tag; the
  templates of the source take it as an argument.  Values of all component types are in one type
  \<open>'v\<close>.  Misuse aborts; using a store through a type with another tag is undefined behaviour, because
  the code casts the store without a check.  The trace sink is the list of emitted events, \<open>None\<close>
  where no sink is set.

  The contract of the systems with the registry is the locale \<open>typed_store\<close>, interpreted on the
  registry: after \<open>emplace\<close> a \<open>get\<close> of the type returns the value, and the other types keep theirs.
\<close>

section \<open>Component identity\<close>

definition fnv1a_64 :: "string \<Rightarrow> u64" where
  "fnv1a_64 s = fold (\<lambda>c hash. (hash XOR of_char c) * 0x100000001b3) s 0xcbf29ce484222325"

text \<open>\<open>std::string_view::find\<close>, from a position on.\<close>

fun find_from :: "string \<Rightarrow> string \<Rightarrow> nat \<Rightarrow> nat option" where
  "find_from m [] pos = (if m = [] then Some pos else None)"
| "find_from m (c # cs) pos = (if take (length m) (c # cs) = m then Some pos else find_from m cs (Suc pos))"

definition extract_type_name :: "string \<Rightarrow> string" where
  "extract_type_name pretty =
     (let marker = ''T = '' in
      case find_from marker pretty 0 of
        None \<Rightarrow> pretty
      | Some start \<Rightarrow> takeWhile (\<lambda>c. c \<noteq> CHR '';'' \<and> c \<noteq> CHR '']'') (drop (start + length marker) pretty))"

record ctype =
  ct_pretty :: string
  ct_tag :: nat

definition type_name :: "ctype \<Rightarrow> string" where
  "type_name t = extract_type_name (ct_pretty t)"

definition component_id :: "ctype \<Rightarrow> u64" where
  "component_id t = fnv1a_64 (type_name t)"

section \<open>State\<close>

datatype origin = Built_In | User
datatype registration_policy = Open | LockAfterInit | BuiltInOnly
datatype registration_status = RegOk | AlreadyRegistered | TypeIdCollision | PolicyForbidsUser | PolicyLocked

datatype trace_level = Off | Warn | Info | Debug
datatype trace_field = FStr string string | FI64 string u64 | FU64 string u64 | FF64 string u64 | FBool string bool
datatype trace_event = TraceEvent trace_level string "trace_field list"

record 'v store =
  st_type_tag :: nat
  st_origin :: origin
  st_value :: "'v option"

record 'v registry =
  reg_stores :: "(u64, 'v store) omap"
  reg_policy :: registration_policy
  reg_locked :: bool
  reg_sink :: "trace_event list option"

definition SELF_ENTITY :: u32 where "SELF_ENTITY = 1"
definition INVALID_ENTITY :: u32 where "INVALID_ENTITY = 0"

definition registry_new :: "registration_policy \<Rightarrow> 'v registry" where
  "registry_new policy = \<lparr>reg_stores = [], reg_policy = policy, reg_locked = False, reg_sink = None\<rparr>"

section \<open>Operations\<close>

definition registry_lock :: "'v registry \<Rightarrow> 'v registry" where
  "registry_lock r = r\<lparr>reg_locked := True\<rparr>"

text \<open>\<open>snprintf\<close> with \<open>0x%016llx\<close>.\<close>

definition hex16 :: "u64 \<Rightarrow> string" where
  "hex16 v = ''0x'' @ map (\<lambda>k. hex_char (ucast (drop_bit (4 * (15 - k)) v AND 0xF))) [0..<16]"

definition emit_registered_event :: "origin \<Rightarrow> string \<Rightarrow> u64 \<Rightarrow> 'v registry \<Rightarrow> 'v registry" where
  "emit_registered_event orig name type_id r =
     (case reg_sink r of
        None \<Rightarrow> r
      | Some log \<Rightarrow>
          r\<lparr>reg_sink := Some (log @ [TraceEvent Info ''component_registered''
              [FStr ''origin'' (if orig = Built_In then ''built_in'' else ''user''), FStr ''type_name'' name,
               FStr ''type_id'' (hex16 type_id), FU64 ''tick'' 0]])\<rparr>)"

definition register_impl :: "ctype \<Rightarrow> origin \<Rightarrow> 'v registry \<Rightarrow> registration_status \<times> 'v registry" where
  "register_impl t orig r =
     (if reg_locked r \<and> reg_policy r = LockAfterInit then (PolicyLocked, r)
      else if orig = User \<and> reg_policy r = BuiltInOnly then (PolicyForbidsUser, r)
      else
        let i = component_id t in
        case map_of (reg_stores r) i of
          Some st \<Rightarrow> if st_type_tag st = ct_tag t then (AlreadyRegistered, r) else (TypeIdCollision, r)
        | None \<Rightarrow>
            (RegOk, emit_registered_event orig (type_name t) i
               (r\<lparr>reg_stores := om_emplace i \<lparr>st_type_tag = ct_tag t, st_origin = orig, st_value = None\<rparr> (reg_stores r)\<rparr>)))"

definition register_component :: "ctype \<Rightarrow> 'v registry \<Rightarrow> registration_status \<times> 'v registry" where
  "register_component t r = register_impl t User r"

definition register_builtin_component :: "ctype \<Rightarrow> 'v registry \<Rightarrow> registration_status \<times> 'v registry" where
  "register_builtin_component t r = register_impl t Built_In r"

definition is_registered :: "ctype \<Rightarrow> 'v registry \<Rightarrow> bool" where
  "is_registered t r \<longleftrightarrow> map_of (reg_stores r) (component_id t) \<noteq> None"

definition origin_of :: "ctype \<Rightarrow> 'v registry \<Rightarrow> origin res" where
  "origin_of t r =
     (case map_of (reg_stores r) (component_id t) of
        None \<Rightarrow> Inl (Abort ''origin_of<T>: component not registered'')
      | Some st \<Rightarrow> Inr (st_origin st))"

definition reg_has :: "ctype \<Rightarrow> u32 \<Rightarrow> 'v registry \<Rightarrow> bool" where
  "reg_has t i r =
     (if i \<noteq> SELF_ENTITY then False
      else case map_of (reg_stores r) (component_id t) of None \<Rightarrow> False | Some st \<Rightarrow> st_value st \<noteq> None)"

text \<open>The \<open>static_cast\<close> of a store to \<open>ComponentStore<T>\<close>: defined when it is one.\<close>

definition cast_store :: "ctype \<Rightarrow> 'v store \<Rightarrow> 'v store res" where
  "cast_store t st =
     (if st_type_tag st = ct_tag t then Inr st else Inl (Undefined ''static_cast to a store of another type''))"

definition reg_get :: "ctype \<Rightarrow> u32 \<Rightarrow> 'v registry \<Rightarrow> 'v res" where
  "reg_get t i r =
     (if i \<noteq> SELF_ENTITY then Inl (Abort ''get<T>: id != SELF_ENTITY (v0.1 N=1)'')
      else case map_of (reg_stores r) (component_id t) of
        None \<Rightarrow> Inl (Abort ''get<T>: component not registered'')
      | Some st \<Rightarrow>
          rbind (cast_store t st) (\<lambda>typed.
            case st_value typed of
              None \<Rightarrow> Inl (Abort ''get<T>: component not emplaced'')
            | Some v \<Rightarrow> Inr v))"

definition reg_emplace :: "ctype \<Rightarrow> u32 \<Rightarrow> 'v \<Rightarrow> 'v registry \<Rightarrow> 'v registry res" where
  "reg_emplace t i v r =
     (if i \<noteq> SELF_ENTITY then Inl (Abort ''emplace<T>: id != SELF_ENTITY (v0.1 N=1)'')
      else case map_of (reg_stores r) (component_id t) of
        None \<Rightarrow> Inl (Abort ''emplace<T>: component not registered'')
      | Some st \<Rightarrow>
          rmap (\<lambda>typed. r\<lparr>reg_stores := om_set (component_id t) (typed\<lparr>st_value := Some v\<rparr>) (reg_stores r)\<rparr>)
            (cast_store t st))"

definition reg_remove :: "ctype \<Rightarrow> u32 \<Rightarrow> 'v registry \<Rightarrow> 'v registry" where
  "reg_remove t i r =
     (if i \<noteq> SELF_ENTITY then r
      else case map_of (reg_stores r) (component_id t) of
        None \<Rightarrow> r
      | Some st \<Rightarrow> r\<lparr>reg_stores := om_set (component_id t) (st\<lparr>st_value := None\<rparr>) (reg_stores r)\<rparr>)"

definition registered_count :: "'v registry \<Rightarrow> nat" where
  "registered_count r = length (reg_stores r)"

text \<open>\<open>view<Ts...>().for_each(fn)\<close>: \<open>None\<close> where \<open>fn\<close> is not invoked, otherwise its arguments.\<close>

definition view_for_each :: "ctype list \<Rightarrow> 'v registry \<Rightarrow> 'v list option res" where
  "view_for_each ts r =
     (if list_all (\<lambda>t. reg_has t SELF_ENTITY r) ts
      then rmap Some (rfold (\<lambda>t vs. rmap (\<lambda>v. vs @ [v]) (reg_get t SELF_ENTITY r)) ts [])
      else Inr None)"

section \<open>The contract of a typed store\<close>

locale typed_store =
  fixes key :: "'t \<Rightarrow> 'k"
    and get :: "'t \<Rightarrow> 's \<Rightarrow> 'v option"
    and put :: "'t \<Rightarrow> 'v \<Rightarrow> 's \<Rightarrow> 's"
    and ok :: "'t \<Rightarrow> 's \<Rightarrow> bool"
  assumes put_ok: "ok t s \<Longrightarrow> ok u (put t v s) \<longleftrightarrow> ok u s"
    and get_put: "ok t s \<Longrightarrow> ok u s \<Longrightarrow> get u (put t v s) = (if key u = key t then Some v else get u s)"
begin

lemma put_all_get:
  assumes "\<forall>(t, v) \<in> set tvs. ok t s" "ok u s"
  shows "get u (fold (\<lambda>(t, v) s. put t v s) tvs s) =
    (case map_of (rev (map (\<lambda>(t, v). (key t, v)) tvs)) (key u) of Some v \<Rightarrow> Some v | None \<Rightarrow> get u s)"
  using assms
proof (induction tvs arbitrary: s)
  case (Cons tv tvs)
  obtain t v where tv: "tv = (t, v)" by (cases tv)
  have "\<forall>(t', v') \<in> set tvs. ok t' (put t v s)" "ok u (put t v s)"
    using Cons.prems tv by (auto simp: put_ok)
  from Cons.IH [OF this] Cons.prems tv show ?case
    by (auto simp: get_put map_add_def split: option.split)
qed simp

end

section \<open>The registry implements it\<close>

text \<open>A type is bound when the store under its identifier is its own.\<close>

definition bound :: "ctype \<Rightarrow> 'v registry \<Rightarrow> bool" where
  "bound t r \<longleftrightarrow> (\<exists>st. map_of (reg_stores r) (component_id t) = Some st \<and> st_type_tag st = ct_tag t)"

definition reg_value :: "ctype \<Rightarrow> 'v registry \<Rightarrow> 'v option" where
  "reg_value t r = (case reg_get t SELF_ENTITY r of Inr v \<Rightarrow> Some v | Inl _ \<Rightarrow> None)"

definition reg_put :: "ctype \<Rightarrow> 'v \<Rightarrow> 'v registry \<Rightarrow> 'v registry" where
  "reg_put t v r = (case reg_emplace t SELF_ENTITY v r of Inr r' \<Rightarrow> r' | Inl _ \<Rightarrow> r)"

lemma emplace_bound:
  assumes "bound t r"
  obtains st where "map_of (reg_stores r) (component_id t) = Some st" "st_type_tag st = ct_tag t"
    "reg_emplace t SELF_ENTITY v r = Inr (r\<lparr>reg_stores := om_set (component_id t) (st\<lparr>st_value := Some v\<rparr>) (reg_stores r)\<rparr>)"
  using assms by (auto simp: bound_def reg_emplace_def cast_store_def)

lemma get_bound:
  "map_of (reg_stores r) (component_id t) = Some st \<Longrightarrow> st_type_tag st = ct_tag t \<Longrightarrow> reg_value t r = st_value st"
  by (simp add: reg_value_def reg_get_def cast_store_def split: option.split)

lemma put_bound:
  assumes "bound t r"
  shows "bound u (reg_put t v r) \<longleftrightarrow> bound u r"
proof -
  obtain st where st: "map_of (reg_stores r) (component_id t) = Some st" "st_type_tag st = ct_tag t"
    "reg_emplace t SELF_ENTITY v r = Inr (r\<lparr>reg_stores := om_set (component_id t) (st\<lparr>st_value := Some v\<rparr>) (reg_stores r)\<rparr>)"
    using emplace_bound [OF assms] by blast
  then show ?thesis by (auto simp: bound_def reg_put_def)
qed

lemma get_put_bound:
  assumes "bound t r" "bound u r"
  shows "reg_value u (reg_put t v r) = (if component_id u = component_id t then Some v else reg_value u r)"
proof -
  obtain st where st: "map_of (reg_stores r) (component_id t) = Some st" "st_type_tag st = ct_tag t"
    "reg_emplace t SELF_ENTITY v r = Inr (r\<lparr>reg_stores := om_set (component_id t) (st\<lparr>st_value := Some v\<rparr>) (reg_stores r)\<rparr>)"
    using emplace_bound [OF assms(1)] by blast
  obtain su where su: "map_of (reg_stores r) (component_id u) = Some su" "st_type_tag su = ct_tag u"
    using assms(2) by (auto simp: bound_def)
  let ?r = "r\<lparr>reg_stores := om_set (component_id t) (st\<lparr>st_value := Some v\<rparr>) (reg_stores r)\<rparr>"
  show ?thesis
  proof (cases "component_id u = component_id t")
    case True
    then have "map_of (reg_stores ?r) (component_id u) = Some (st\<lparr>st_value := Some v\<rparr>)" "st_type_tag st = ct_tag u"
      using st su by auto
    then show ?thesis using True st(3) get_bound [of ?r u "st\<lparr>st_value := Some v\<rparr>"] by (simp add: reg_put_def)
  next
    case False
    then have "map_of (reg_stores ?r) (component_id u) = Some su" using su by simp
    then show ?thesis using False su st(3) get_bound [of ?r u su] get_bound [of r u su] by (simp add: reg_put_def)
  qed
qed

interpretation components: typed_store component_id reg_value reg_put bound
  by unfold_locales (simp_all only: put_bound get_put_bound)

section \<open>Registration\<close>

lemma emit_keeps [simp]:
  "reg_stores (emit_registered_event og n i r) = reg_stores r" "reg_policy (emit_registered_event og n i r) = reg_policy r"
  "reg_locked (emit_registered_event og n i r) = reg_locked r"
  by (simp_all add: emit_registered_event_def split: option.split)

lemma register_impl_bound: "bound u r \<Longrightarrow> bound u (snd (register_impl t orig r))"
  by (auto simp: register_impl_def bound_def Let_def map_of_om_emplace split: option.split)

lemma register_impl_Ok:
  "fst (register_impl t orig r) = RegOk \<or> fst (register_impl t orig r) = AlreadyRegistered \<Longrightarrow> bound t (snd (register_impl t orig r))"
  by (auto simp: register_impl_def bound_def Let_def map_of_om_emplace split: if_splits option.splits)

text \<open>
  Registration follows the policy on every branch: after \<open>lock()\<close> under \<open>LockAfterInit\<close> every
  registration is refused; under \<open>BuiltInOnly\<close> every user registration is refused; a type whose
  identifier is taken is told apart by its tag; a refused registration changes nothing, not even the
  trace; and a successful one adds exactly one empty store with its tag and origin and logs one event.
\<close>

theorem registration_policy_enforced:
  "(let (status, r') = register_impl t orig r; taken = map_of (reg_stores r) (component_id t) in
     (status = PolicyLocked \<longleftrightarrow> reg_locked r \<and> reg_policy r = LockAfterInit)
   \<and> (status = PolicyForbidsUser \<longleftrightarrow>
        \<not> (reg_locked r \<and> reg_policy r = LockAfterInit) \<and> orig = User \<and> reg_policy r = BuiltInOnly)
   \<and> (status \<in> {AlreadyRegistered, TypeIdCollision} \<longrightarrow> taken \<noteq> None
        \<and> (status = AlreadyRegistered \<longleftrightarrow> st_type_tag (the taken) = ct_tag t))
   \<and> (status \<noteq> RegOk \<longrightarrow> r' = r)
   \<and> (status = RegOk \<longrightarrow> taken = None \<and> registered_count r' = Suc (registered_count r)
        \<and> map_of (reg_stores r') = (map_of (reg_stores r))
            (component_id t \<mapsto> \<lparr>st_type_tag = ct_tag t, st_origin = orig, st_value = None\<rparr>)
        \<and> map_option length (reg_sink r') = map_option (\<lambda>log. Suc (length log)) (reg_sink r)))"
  by (simp add: register_impl_def Let_def om_emplace_def registered_count_def length_om_set_new
      emit_registered_event_def split: option.split)

definition example_type :: "string \<Rightarrow> nat \<Rightarrow> ctype" where
  "example_type n tag = \<lparr>ct_pretty = ''constexpr std::string_view mith::detail::pretty_function() [with T = '' @ n @ ''; std::string_view = x]'',
     ct_tag = tag\<rparr>"

theorem registration_policy_enforced_witness:
  "register_impl (example_type ''A'' 1) User (registry_lock (registry_new LockAfterInit) :: nat registry)
     = (PolicyLocked, registry_lock (registry_new LockAfterInit))"
  using registration_policy_enforced [of "example_type ''A'' 1" User "registry_lock (registry_new LockAfterInit) :: nat registry"]
  by (cases "register_impl (example_type ''A'' 1) User (registry_lock (registry_new LockAfterInit) :: nat registry)")
    (simp add: registry_lock_def registry_new_def Let_def split: prod.splits)

text \<open>A program that registers types and then stores values.\<close>

fun register_all :: "(ctype \<times> origin) list \<Rightarrow> 'v registry \<Rightarrow> registration_status list \<times> 'v registry" where
  "register_all [] r = ([], r)"
| "register_all ((t, orig) # ts) r =
     (let (st, r1) = register_impl t orig r; (sts, r2) = register_all ts r1 in (st # sts, r2))"

lemma register_all_bound:
  assumes "register_all ts r = (sts, r')"
  shows "(\<forall>u. bound u r \<longrightarrow> bound u r')
    \<and> (\<forall>i < length ts. sts ! i = RegOk \<or> sts ! i = AlreadyRegistered \<longrightarrow> bound (fst (ts ! i)) r')"
  using assms
proof (induction ts arbitrary: r sts r')
  case (Cons to ts)
  obtain t orig where to: "to = (t, orig)" by (cases to)
  obtain st r1 where s1: "register_impl t orig r = (st, r1)" by fastforce
  obtain sts2 r2 where s2: "register_all ts r1 = (sts2, r2)" by fastforce
  have e: "sts = st # sts2" "r' = r2" using Cons.prems to s1 s2 by auto
  have 1: "bound u r \<Longrightarrow> bound u r1" for u using register_impl_bound [of u r t orig] s1 by simp
  have 2: "st = RegOk \<or> st = AlreadyRegistered \<Longrightarrow> bound t r1" using register_impl_Ok [of t orig r] s1 by simp
  show ?case using Cons.IH [OF s2] 1 2 e to by (auto simp: nth_Cons split: nat.split)
qed simp

lemma register_all_length: "length (fst (register_all ts r)) = length ts"
  by (induction ts arbitrary: r) (auto simp: split_beta Let_def)

lemma emplace_all_bound:
  "\<forall>(t, v) \<in> set tvs. bound t r \<Longrightarrow>
     rfold (\<lambda>(t, v). reg_emplace t SELF_ENTITY v) tvs r = Inr (fold (\<lambda>(t, v) s. reg_put t v s) tvs r)"
proof (induction tvs arbitrary: r)
  case (Cons tv tvs)
  obtain t v where tv: "tv = (t, v)" by (cases tv)
  with Cons.prems have b: "bound t r" by simp
  have "reg_emplace t SELF_ENTITY v r = Inr (reg_put t v r)" 
    by (rule emplace_bound [OF b, of v]) (simp add: reg_put_def)
  moreover have "\<forall>(t', v') \<in> set tvs. bound t' (reg_put t v r)" using Cons.prems put_bound [OF b] by auto
  ultimately show ?case using Cons.IH tv by simp
qed simp

lemma get_bound_res:
  "bound t r \<Longrightarrow> reg_get t SELF_ENTITY r =
     (case reg_value t r of Some v \<Rightarrow> Inr v | None \<Rightarrow> Inl (Abort ''get<T>: component not emplaced''))"
  by (auto simp: bound_def reg_value_def reg_get_def cast_store_def split: option.split)

text \<open>
  Component access is type safe: when every registration of a list of types was accepted (or
  found the type already there), any sequence of \<open>emplace\<close> calls on those types succeeds, without an
  abort and without casting a store to a wrong type, and a \<open>get\<close> afterwards returns the last value
  that was emplaced for the type; a type that was not emplaced answers as before.
\<close>

theorem registry_get_after_emplace:
  assumes "register_all ts r = (sts, r')" "\<forall>st \<in> set sts. st = RegOk \<or> st = AlreadyRegistered"
    and "\<forall>(t, v) \<in> set tvs. t \<in> fst ` set ts" "u \<in> fst ` set ts"
  shows "\<exists>r2. rfold (\<lambda>(t, v). reg_emplace t SELF_ENTITY v) tvs r' = Inr r2 \<and>
    reg_get u SELF_ENTITY r2 = (case map_of (rev (map (\<lambda>(t, v). (component_id t, v)) tvs)) (component_id u) of
      Some v \<Rightarrow> Inr v | None \<Rightarrow> reg_get u SELF_ENTITY r')"
proof -
  have "bound t r'" if "t \<in> fst ` set ts" for t
  proof -
    from that obtain i where "i < length ts" "fst (ts ! i) = t" by (auto simp: in_set_conv_nth)
    moreover from this(1) have "sts ! i \<in> set sts" using register_all_length [of ts r] assms(1) by simp
    ultimately show ?thesis using register_all_bound [OF assms(1)] assms(2) by blast
  qed
  then have b: "\<forall>(t, v) \<in> set tvs. bound t r'" "bound u r'" using assms(3,4) by (blast, simp)
  let ?r2 = "fold (\<lambda>(t, v) s. reg_put t v s) tvs r'"
  have "bound u ?r2" using b
    by (induction tvs arbitrary: r') (auto simp: put_bound split_beta)
  moreover note components.put_all_get [OF b]
  ultimately have "reg_get u SELF_ENTITY ?r2 = (case map_of (rev (map (\<lambda>(t, v). (component_id t, v)) tvs)) (component_id u) of
      Some v \<Rightarrow> Inr v | None \<Rightarrow> reg_get u SELF_ENTITY r')"
    using b(2) by (simp add: get_bound_res split: option.split)
  with emplace_all_bound [OF b(1)] show ?thesis by blast
qed

theorem registry_get_after_emplace_witness:
  "\<exists>r2. rfold (\<lambda>(t, v). reg_emplace t SELF_ENTITY v) [(example_type ''A'' 1, 5), (example_type ''A'' 1, 6 :: nat)]
      (snd (register_all [(example_type ''A'' 1, User)] (registry_new Open))) = Inr r2
    \<and> reg_get (example_type ''A'' 1) SELF_ENTITY r2 = Inr 6"
proof -
  let ?ts = "[(example_type ''A'' 1, User)]"
  obtain sts r' where r: "register_all ?ts (registry_new Open :: nat registry) = (sts, r')" by fastforce
  have "sts = [RegOk]" using r by (auto simp: register_impl_def registry_new_def Let_def)
  with registry_get_after_emplace [OF r, of "[(example_type ''A'' 1, 5), (example_type ''A'' 1, 6)]" "example_type ''A'' 1"] r
  show ?thesis by auto
qed

end
