(* ===== verification/Float64.thy ===== *)
theory Float64
  imports Float32
begin

text \<open>
  The \<open>double\<close> of the C++ code, as far as it is used: the observability code widens a \<open>float\<close> and
  prints the result.  A double is its 64-bit pattern; every finite value is an integer multiple of
  \<open>2\<^sup>-\<^sup>1\<^sup>0\<^sup>7\<^sup>4\<close>, and \<open>units64\<close> is that integer, for a magnitude pattern.

  Shown here: widening is exact, and two different doubles are further apart than \<open>10\<^sup>-\<^sup>1\<^sup>6\<close> of either,
  which is why seventeen decimal digits tell them apart.
\<close>

type_synonym f64 = "64 word"

section \<open>Patterns\<close>

definition f64_neg :: "f64 \<Rightarrow> bool" where
  "f64_neg x \<longleftrightarrow> 2 ^ 63 \<le> uint x"

definition f64_mag :: "f64 \<Rightarrow> int" where
  "f64_mag x = uint x mod 2 ^ 63"

definition f64_mk :: "bool \<Rightarrow> int \<Rightarrow> f64" where
  "f64_mk neg b = word_of_int (b + (if neg then 2 ^ 63 else 0))"

abbreviation f64_inf_mag :: int where
  "f64_inf_mag \<equiv> 0x7FF0000000000000"

text \<open>\<open>std::isfinite\<close>.\<close>

definition f64_isfinite :: "f64 \<Rightarrow> bool" where
  "f64_isfinite x \<longleftrightarrow> f64_mag x < f64_inf_mag"

definition ulp64 :: "int \<Rightarrow> int" where
  "ulp64 b = 2 ^ nat (b div 2 ^ 52 - 1)"

definition units64 :: "int \<Rightarrow> int" where
  "units64 b = (if b < 2 ^ 52 then b else (2 ^ 52 + b mod 2 ^ 52) * ulp64 b)"

definition f64_int :: "f64 \<Rightarrow> int" where
  "f64_int x = (if f64_neg x then - units64 (f64_mag x) else units64 (f64_mag x))"

text \<open>\<open>static_cast<double>\<close> of a \<open>float\<close>.  A subnormal float with \<open>k\<close> significant bits becomes a normal
  double; a NaN keeps its payload and is made quiet.\<close>

definition f64_of_f32 :: "f32 \<Rightarrow> f64" where
  "f64_of_f32 x =
     (let m = f32_mag x; k = nbits m in
      f64_mk (f32_neg x)
        (if m = 0 then 0
         else if m < 2 ^ 23 then (873 + int k) * 2 ^ 52 + (m - 2 ^ (k - 1)) * 2 ^ (53 - k)
         else if m < f32_inf_mag then m * 2 ^ 29 + 896 * 2 ^ 52
         else if m = f32_inf_mag then f64_inf_mag
         else f64_inf_mag + 2 ^ 51 + (m - f32_inf_mag) mod 2 ^ 22 * 2 ^ 29))"

section \<open>Patterns and their parts\<close>

lemma div_mod_join:
  fixes q r d :: int
  assumes "0 \<le> r" "r < d"
  shows "(q * d + r) div d = q" "(q * d + r) mod d = r"
proof -
  have "q * d + r = r + d * q" "0 < d" using assms by simp_all
  then show "(q * d + r) div d = q" "(q * d + r) mod d = r"
    using assms by (simp_all only: div_mult_self2 mod_mult_self2 div_pos_pos_trivial mod_pos_pos_trivial
        less_imp_neq [THEN not_sym] not_False_eq_True add_0)
qed

lemma f64_mag_bounds [simp]: "0 \<le> f64_mag x" "f64_mag x < 2 ^ 63"
  by (simp_all add: f64_mag_def)

lemma f64_uint_split: "uint x = f64_mag x + (if f64_neg x then 2 ^ 63 else 0)"
proof -
  have "uint x < 2 ^ 64" using uint_lt2p [of x] by simp
  then have "uint x div 2 ^ 63 = (if f64_neg x then 1 else 0)"
    unfolding f64_neg_def by (auto intro: int_div_pos_eq [where r = "uint x - 2 ^ 63"])
  then show ?thesis using div_mult_mod_eq [of "uint x" "2 ^ 63"] by (cases "f64_neg x") (auto simp: f64_mag_def)
qed

lemma f64_eqI: "f64_neg x = f64_neg y \<Longrightarrow> f64_mag x = f64_mag y \<Longrightarrow> x = y"
  by (rule word_uint_eqI) (simp add: f64_uint_split [of x] f64_uint_split [of y])

lemma uint_f64_mk: "0 \<le> b \<Longrightarrow> b < 2 ^ 63 \<Longrightarrow> uint (f64_mk neg b) = b + (if neg then 2 ^ 63 else 0)"
  unfolding f64_mk_def by (subst uint_word_of_int) (auto intro!: mod_pos_pos_trivial)

lemma f64_mk_sel:
  assumes "0 \<le> b" "b < 2 ^ 63"
  shows "f64_neg (f64_mk neg b) = neg" "f64_mag (f64_mk neg b) = b"
  using assms by (auto simp: f64_mag_def f64_neg_def uint_f64_mk)

section \<open>Spacing\<close>

lemma ulp64_pos [simp]: "0 < ulp64 b"
  by (simp add: ulp64_def)

lemma ulp64_small: "b < 2 ^ 53 \<Longrightarrow> ulp64 b = 1"
proof -
  assume "b < 2 ^ 53"
  then have "b div 2 ^ 52 < 2" by (subst int_div_less_iff) auto
  then show ?thesis by (simp add: ulp64_def)
qed

text \<open>A value is at most \<open>2\<^sup>5\<^sup>3 - 1\<close> steps of its own size.\<close>

lemma units64_steps:
  assumes "0 \<le> b"
  obtains s where "units64 b = s * ulp64 b" "0 \<le> s" "s + 1 \<le> 2 ^ 53"
proof (cases "b < 2 ^ 52")
  case True
  with assms that [of b] show ?thesis by (simp add: units64_def ulp64_small)
next
  case False
  have "b mod 2 ^ 52 < 2 ^ 52" "0 \<le> b mod 2 ^ 52" by simp_all
  with False that [of "2 ^ 52 + b mod 2 ^ 52"] show ?thesis by (simp add: units64_def)
qed

lemma units64_Suc:
  assumes "0 \<le> b"
  shows "units64 (b + 1) = units64 b + ulp64 b"
proof (cases "b + 1 < 2 ^ 52")
  case True
  then show ?thesis by (simp add: units64_def ulp64_small)
next
  case False
  show ?thesis
  proof (cases "b + 1 = 2 ^ 52")
    case True
    then have b: "b = 2 ^ 52 - 1" by simp
    show ?thesis unfolding b by (simp add: units64_def ulp64_def)
  next
    case neq: False
    define E f where "E = b div 2 ^ 52" and "f = b mod 2 ^ 52"
    have dm: "b div 2 ^ 52 = E" "b mod 2 ^ 52 = f" by (simp_all add: E_def f_def)
    have b: "b = E * 2 ^ 52 + f" "0 \<le> f" "f < 2 ^ 52" by (simp_all add: E_def f_def)
    from False neq have ge: "2 ^ 52 \<le> b" by simp
    then have E: "1 \<le> E" by (simp add: E_def int_le_div_iff)
    show ?thesis
    proof (cases "f = 2 ^ 52 - 1")
      case True
      then have b1: "b + 1 = (E + 1) * 2 ^ 52" using b by simp
      have "(b + 1) div 2 ^ 52 = E + 1" "(b + 1) mod 2 ^ 52 = 0" unfolding b1 by simp_all
      moreover have "(2 :: int) ^ nat E = 2 * 2 ^ nat (E - 1)"
        using E by (subst power_Suc [symmetric]) (simp add: Suc_nat_eq_nat_zadd1)
      ultimately show ?thesis
        using ge True dm by (simp add: units64_def ulp64_def algebra_simps)
    next
      case f: False
      then have "(b + 1) div 2 ^ 52 = E" "(b + 1) mod 2 ^ 52 = f + 1"
        using b div_mod_join [of "f + 1" "2 ^ 52" E] by (simp_all add: add.assoc)
      then show ?thesis
        using ge dm by (simp add: units64_def ulp64_def algebra_simps)
    qed
  qed
qed

lemma units64_mono: "0 \<le> b \<Longrightarrow> b \<le> c \<Longrightarrow> units64 b \<le> units64 c"
proof -
  assume "b \<le> c" "0 \<le> b"
  then show ?thesis
  proof (induction rule: int_ge_induct)
    case (step c)
    then show ?case using units64_Suc [of c] ulp64_pos [of c] by linarith
  qed simp
qed

lemma units64_nonneg [simp]: "0 \<le> b \<Longrightarrow> 0 \<le> units64 b"
  by (auto simp: units64_def intro!: mult_nonneg_nonneg add_nonneg_nonneg less_imp_le [OF ulp64_pos])

lemma units64_pos: "0 < b \<Longrightarrow> 0 < units64 b"
  using units64_mono [of 1 b] by (simp add: units64_def)

text \<open>The gap to any other double is more than \<open>10\<^sup>-\<^sup>1\<^sup>6\<close> of the value.\<close>

lemma units64_gap:
  assumes "0 \<le> b" "0 \<le> c" "b \<noteq> c"
  shows "units64 b < 10 ^ 16 * \<bar>units64 c - units64 b\<bar>"
proof (cases "b < c")
  case True
  obtain s where s: "units64 b = s * ulp64 b" "s + 1 \<le> 2 ^ 53" using units64_steps [OF assms(1)] by metis
  have gap: "ulp64 b \<le> units64 c - units64 b"
    using units64_mono [of "b + 1" c] units64_Suc [of b] True assms by simp
  have "units64 b < 10 ^ 16 * ulp64 b"
    unfolding s(1) by (rule mult_strict_right_mono) (use s(2) in simp_all)
  also have "\<dots> \<le> 10 ^ 16 * \<bar>units64 c - units64 b\<bar>" using gap by (intro mult_left_mono) simp_all
  finally show ?thesis .
next
  case False
  with assms have le: "c \<le> b - 1" "0 \<le> b - 1" by simp_all
  obtain s where s: "units64 (b - 1) = s * ulp64 (b - 1)" "s + 1 \<le> 2 ^ 53" using units64_steps [OF le(2)] by metis
  have step: "units64 b = (s + 1) * ulp64 (b - 1)"
    using units64_Suc [OF le(2)] s(1) by (simp add: algebra_simps)
  have gap: "ulp64 (b - 1) \<le> units64 b - units64 c"
    using units64_mono [OF assms(2) le(1)] step s(1) by (simp add: algebra_simps)
  have "units64 b < 10 ^ 16 * ulp64 (b - 1)"
    unfolding step by (rule mult_strict_right_mono) (use s(2) in simp_all)
  also have "\<dots> \<le> 10 ^ 16 * \<bar>units64 c - units64 b\<bar>" using gap by (intro mult_left_mono) simp_all
  finally show ?thesis .
qed

lemma units64_inj: "0 \<le> b \<Longrightarrow> 0 \<le> c \<Longrightarrow> units64 b = units64 c \<Longrightarrow> b = c"
  using units64_gap [of b c] units64_nonneg [of b] by (cases "b = c") (simp_all del: units64_nonneg)

section \<open>Widening is exact\<close>

lemma f64_of_f32_subnormal:
  assumes "0 < m" "m < 2 ^ 23"
  defines "k \<equiv> nbits m"
  defines "b \<equiv> (873 + int k) * 2 ^ 52 + (m - 2 ^ (k - 1)) * 2 ^ (53 - k)"
  shows "units64 b = m * 2 ^ 925" "0 \<le> b" "b < f64_inf_mag"
proof -
  have k: "2 ^ (k - 1) \<le> m" "m < 2 ^ k" "0 < k" using nbits_bounds [OF assms(1)] by (auto simp: k_def)
  have k23: "k \<le> 23"
  proof (rule ccontr)
    assume "\<not> k \<le> 23"
    then have "(2 :: int) ^ 23 \<le> 2 ^ (k - 1)" by (intro power_increasing) auto
    with k assms(2) show False by simp
  qed
  let ?f = "(m - 2 ^ (k - 1)) * 2 ^ (53 - k)"
  have pow: "(2 :: int) ^ (k - 1) * 2 ^ (53 - k) = 2 ^ 52" using k(3) k23 by (simp flip: power_add)
  have m2: "m - 2 ^ (k - 1) < 2 ^ (k - 1)" using k(2,3) by (cases k) auto
  have f: "0 \<le> ?f" "?f < 2 ^ 52"
    using k(1) mult_strict_right_mono [OF m2, of "2 ^ (53 - k)"] unfolding pow by simp_all
  then have div_mod: "b div 2 ^ 52 = 873 + int k" "b mod 2 ^ 52 = ?f"
    unfolding b_def by (simp_all only: div_mod_join [OF f])
  have big: "2 ^ 52 \<le> b" using f(1) by (simp add: b_def)
  have "units64 b = (2 ^ 52 + ?f) * 2 ^ (872 + k)"
    using big div_mod by (simp add: units64_def ulp64_def nat_add_distrib)
  also have "2 ^ 52 + ?f = m * 2 ^ (53 - k)" unfolding left_diff_distrib pow by simp
  also have "\<dots> * 2 ^ (872 + k) = m * 2 ^ 925" using k23 by (simp flip: power_add)
  finally show "units64 b = m * 2 ^ 925" .
  show "0 \<le> b" using big by simp
  have "(873 + int k) * 2 ^ 52 \<le> 896 * 2 ^ 52" using k23 by simp
  with f(2) show "b < f64_inf_mag" unfolding b_def by simp
qed

lemma f64_of_f32_normal:
  assumes "2 ^ 23 \<le> m" "m < f32_inf_mag"
  defines "b \<equiv> m * 2 ^ 29 + 896 * 2 ^ 52"
  shows "units64 b = units m * 2 ^ 925" "0 \<le> b" "b < f64_inf_mag"
proof -
  define E f where "E = m div 2 ^ 23" and "f = m mod 2 ^ 23"
  have m: "m = E * 2 ^ 23 + f" "0 \<le> f" "f < 2 ^ 23" by (simp_all add: E_def f_def)
  have dm: "m div 2 ^ 23 = E" "m mod 2 ^ 23 = f" by (simp_all add: E_def f_def)
  have E: "1 \<le> E" using assms(1) by (simp add: E_def int_le_div_iff)
  have b: "b = (E + 896) * 2 ^ 52 + f * 2 ^ 29" by (simp add: b_def m(1))
  have "0 \<le> f * 2 ^ 29" "f * 2 ^ 29 < 2 ^ 52" using m by simp_all
  then have "b div 2 ^ 52 = E + 896" "b mod 2 ^ 52 = f * 2 ^ 29" unfolding b by (simp_all only: div_mod_join)
  moreover have "nat (E + 896 - 1) = nat (E - 1) + 896" using E by simp
  ultimately show "units64 b = units m * 2 ^ 925"
    using assms(1) dm by (simp add: units64_def units_def ulp64_def b_def power_add algebra_simps)
  show "0 \<le> b" "b < f64_inf_mag" using assms by (simp_all add: b_def)
qed

text \<open>A finite float keeps its sign and its value.\<close>

lemma f64_of_f32_exact:
  assumes "f32_isfinite x"
  shows "f64_isfinite (f64_of_f32 x)" "f64_neg (f64_of_f32 x) = f32_neg x" "f64_int (f64_of_f32 x) = f32_int x * 2 ^ 925"
proof -
  define m where "m = f32_mag x"
  have m: "0 \<le> m" "m < f32_inf_mag" using assms by (simp_all add: m_def f32_isfinite_def f32_mag_def)
  obtain b where b: "f64_of_f32 x = f64_mk (f32_neg x) b" "units64 b = units m * 2 ^ 925" "0 \<le> b" "b < f64_inf_mag"
  proof -
    consider "m = 0" | "0 < m" "m < 2 ^ 23" | "2 ^ 23 \<le> m" using m(1) by linarith
    then show thesis
    proof cases
      case 1
      then show thesis using that [of 0] by (simp add: f64_of_f32_def m_def [symmetric] units64_def units_def)
    next
      case 2
      with f64_of_f32_subnormal [OF 2] show thesis
        by (intro that [of "(873 + int (nbits m)) * 2 ^ 52 + (m - 2 ^ (nbits m - 1)) * 2 ^ (53 - nbits m)"])
          (simp_all add: f64_of_f32_def m_def [symmetric] units_def Let_def)
    next
      case 3
      with f64_of_f32_normal [OF 3 m(2)] m(2) show thesis
        by (intro that [of "m * 2 ^ 29 + 896 * 2 ^ 52"]) (simp_all add: f64_of_f32_def m_def [symmetric] Let_def)
    qed
  qed
  then have "f64_neg (f64_of_f32 x) = f32_neg x" "f64_mag (f64_of_f32 x) = b"
    by (simp_all add: f64_mk_sel)
  then show "f64_isfinite (f64_of_f32 x)" "f64_neg (f64_of_f32 x) = f32_neg x" "f64_int (f64_of_f32 x) = f32_int x * 2 ^ 925"
    using b(2,4) by (simp_all add: f64_isfinite_def f64_int_def f32_int_def m_def)
qed

lemma f64_of_f32_nonfinite: "\<not> f32_isfinite x \<Longrightarrow> \<not> f64_isfinite (f64_of_f32 x)"
proof -
  assume "\<not> f32_isfinite x"
  then have m: "f32_inf_mag \<le> f32_mag x" by (simp add: f32_isfinite_def)
  have r: "0 \<le> (f32_mag x - f32_inf_mag) mod 2 ^ 22" "(f32_mag x - f32_inf_mag) mod 2 ^ 22 < 2 ^ 22" by simp_all
  let ?b = "if f32_mag x = f32_inf_mag then f64_inf_mag else f64_inf_mag + 2 ^ 51 + (f32_mag x - f32_inf_mag) mod 2 ^ 22 * 2 ^ 29"
  have eq: "f64_of_f32 x = f64_mk (f32_neg x) ?b" using m by (simp add: f64_of_f32_def Let_def)
  have bnd: "0 \<le> ?b" "?b < 2 ^ 63" "f64_inf_mag \<le> ?b" using r by (auto split: if_split)
  show ?thesis unfolding f64_isfinite_def eq f64_mk_sel(2) [OF bnd(1,2)] using bnd(3) by linarith
qed

end
