(* ===== verification/World_State.thy ===== *)
theory World_State
  imports Transports Neighbour_Table Scheduler Registry Float64
begin

text \<open>
  The state of a \<open>World\<close> (include/mith/core/world.h) as its systems see it: the configuration, the
  components of the self entity, the swarm context, the neighbour table, the pinned keys, the fault
  counter, the clock offset, the merge window and the transports.

  A transport is known to the systems through its interface (include/mith/comms/transport.h) only.
  \<open>port\<close> is that interface: which channels exist and are supported, the packets the next polls return,
  and the packets handed to \<open>send_beacon\<close> and \<open>send_message\<close>, in order.  Each packet is logged with
  the position of the robot at the time of the call, which is what the simulated bus reads.  The
  systems ignore the result of a send.

  The scheduler is not part of the record, because its systems are functions on the world.
\<close>

section \<open>Configuration and context\<close>

datatype rotation_policy = PERMANENT | PER_MISSION | PERIODIC | EVENT_DRIVEN

record world_config =
  cfg_swarm_id :: u16
  cfg_tick_rate_hz :: f32
  cfg_beacon_rate_hz :: f32
  cfg_neighbour_timeout_s :: f32
  cfg_thread_pool_size :: nat
  cfg_enable_flocking :: bool
  cfg_enable_task_alloc :: bool
  cfg_enable_fault_monitor :: bool
  cfg_registration_policy :: registration_policy
  cfg_scheduler_mode :: scheduler_mode
  cfg_identity_rotation_policy :: rotation_policy
  cfg_identity_rotation_period_s :: f32

text \<open>The default member initialisers: 20 Hz, 10 Hz, 0.5 s, 60 s.\<close>

definition world_config_default :: world_config where
  "world_config_default =
     \<lparr>cfg_swarm_id = 1, cfg_tick_rate_hz = 0x41A00000, cfg_beacon_rate_hz = 0x41200000,
      cfg_neighbour_timeout_s = 0x3F000000, cfg_thread_pool_size = 0, cfg_enable_flocking = True,
      cfg_enable_task_alloc = True, cfg_enable_fault_monitor = True, cfg_registration_policy = LockAfterInit,
      cfg_scheduler_mode = Sequential, cfg_identity_rotation_policy = PERMANENT,
      cfg_identity_rotation_period_s = 0x42700000\<rparr>"

record swarm_context =
  ctx_swarm_id :: u16
  ctx_elapsed_time_s :: f32
  ctx_delta_time_s :: f32
  ctx_tick_count :: u64

definition swarm_context_default :: swarm_context where
  "swarm_context_default = \<lparr>ctx_swarm_id = 0, ctx_elapsed_time_s = f32_zero, ctx_delta_time_s = f32_zero, ctx_tick_count = 0\<rparr>"

section \<open>Identity material\<close>

record keypair =
  kp_public_key :: identity_key
  kp_private_key :: private_key

record certificate =
  cert_prev_id :: hid
  cert_new_id :: hid
  cert_new_key :: identity_key
  cert_signature_by_prev :: "byte list"
  cert_issued_at_s :: f32

text \<open>The build: \<open>None\<close> without \<open>MITH_AUTH_ENABLED\<close>, otherwise the two TweetNaCl functions.\<close>

type_synonym auth_build = "(nacl_sign \<times> nacl_open) option"

section \<open>Transports as the systems see them\<close>

record port =
  tp_beacon :: "bool option"
  tp_message :: "bool option"
  tp_in_beacons :: "state_vector list"
  tp_in_messages :: "message list"
  tp_sent :: "(packet \<times> position) list"

definition port_none :: port where
  "port_none = \<lparr>tp_beacon = None, tp_message = None, tp_in_beacons = [], tp_in_messages = [], tp_sent = []\<rparr>"

definition port_unified :: port where
  "port_unified = port_none\<lparr>tp_beacon := Some True, tp_message := Some True\<rparr>"

text \<open>\<open>NullHandler\<close> is an empty \<open>std::function\<close>, \<open>DiscoveryHandler\<close> the lambda that
  \<open>DiscoverySystem\<close> registers, \<open>MissionHandler\<close> the predicate of a handler of the mission.\<close>

datatype message_handler = NullHandler | DiscoveryHandler | MissionHandler "message \<Rightarrow> bool"

section \<open>The world\<close>

record world =
  w_config :: world_config
  w_self :: self_state
  w_context :: swarm_context
  w_port :: port
  w_neighbours :: neighbour_table
  w_fault_count :: u64
  w_rotation_count :: u64
  w_last_rotation_time_s :: f32
  w_last_cert :: "certificate option"
  w_handlers :: "message_handler list"
  w_peer_keys :: key_registry
  w_sink :: "trace_event list option"
  w_clock_offset_s :: f32
  w_merge_window_remaining_s :: f32
  w_keypair :: "keypair option"
  w_initialized :: bool

text \<open>The constructors.  The self entity has no components before \<open>init\<close>; the placeholder is not read,
  since every access tests \<open>w_initialized\<close> first.\<close>

definition world_new :: "world_config \<Rightarrow> port \<Rightarrow> world" where
  "world_new config port =
     \<lparr>w_config = config, w_self = self_default hid_default,
      w_context = swarm_context_default\<lparr>ctx_swarm_id := cfg_swarm_id config\<rparr>, w_port = port,
      w_neighbours = nt_new, w_fault_count = 0, w_rotation_count = 0, w_last_rotation_time_s = f32_zero,
      w_last_cert = None, w_handlers = [], w_peer_keys = [], w_sink = None, w_clock_offset_s = f32_zero,
      w_merge_window_remaining_s = f32_zero, w_keypair = None, w_initialized = False\<rparr>"

text \<open>\<open>World::identity\<close>: before \<open>init\<close> the registry aborts.\<close>

definition world_identity :: "world \<Rightarrow> hid res" where
  "world_identity w = (if w_initialized w then Inr (self_identity (w_self w)) else Inl (Abort ''get<T>: component not registered''))"

definition report_fault :: "world \<Rightarrow> world" where
  "report_fault w = w\<lparr>w_fault_count := w_fault_count w + 1\<rparr>"

definition register_message_handler :: "message_handler \<Rightarrow> world \<Rightarrow> world" where
  "register_message_handler h w = w\<lparr>w_handlers := w_handlers w @ [h]\<rparr>"

definition synced_time_s :: "world \<Rightarrow> f32" where
  "synced_time_s w = f32_add (ctx_elapsed_time_s (w_context w)) (w_clock_offset_s w)"

definition is_merging :: "world \<Rightarrow> bool" where
  "is_merging w = f32_lt f32_zero (w_merge_window_remaining_s w)"

definition set_merge_window_s :: "f32 \<Rightarrow> world \<Rightarrow> world" where
  "set_merge_window_s s w = w\<lparr>w_merge_window_remaining_s := s\<rparr>"

definition set_clock_offset_s :: "f32 \<Rightarrow> world \<Rightarrow> world" where
  "set_clock_offset_s v w = w\<lparr>w_clock_offset_s := v\<rparr>"

definition emit_trace :: "trace_event \<Rightarrow> world \<Rightarrow> world" where
  "emit_trace e w = (case w_sink w of None \<Rightarrow> w | Some log \<Rightarrow> w\<lparr>w_sink := Some (log @ [e])\<rparr>)"

definition set_self :: "(self_state \<Rightarrow> self_state) \<Rightarrow> world \<Rightarrow> world" where
  "set_self f w = w\<lparr>w_self := f (w_self w)\<rparr>"

text \<open>The loop that counts the entries in a \<open>uint32_t\<close>.\<close>

definition peer_count :: "neighbour_table \<Rightarrow> u32" where
  "peer_count t = fold (\<lambda>_ n. n + 1) (nt_entries t) 0"

lemma peer_count_eq: "peer_count t = of_nat (length (nt_entries t))"
proof -
  have "fold (\<lambda>_ n. n + 1) es n = n + of_nat (length es)" for es :: "nt_entry list" and n :: u32
    by (induction es arbitrary: n) simp_all
  then show ?thesis by (simp add: peer_count_def)
qed

section \<open>Using a port\<close>

definition send_packet :: "packet \<Rightarrow> world \<Rightarrow> world" where
  "send_packet p w = w\<lparr>w_port := (w_port w)\<lparr>tp_sent := tp_sent (w_port w) @ [(p, self_position (w_self w))]\<rparr>\<rparr>"

definition take_beacons :: "world \<Rightarrow> state_vector list \<times> world" where
  "take_beacons w = (tp_in_beacons (w_port w), w\<lparr>w_port := (w_port w)\<lparr>tp_in_beacons := []\<rparr>\<rparr>)"

definition take_messages :: "world \<Rightarrow> message list \<times> world" where
  "take_messages w = (tp_in_messages (w_port w), w\<lparr>w_port := (w_port w)\<lparr>tp_in_messages := []\<rparr>\<rparr>)"

definition sent_packets :: "world \<Rightarrow> packet list" where
  "sent_packets w = map fst (tp_sent (w_port w))"

text \<open>The packets of a list of sends, in one step.\<close>

lemma sent_packets_send [simp]: "sent_packets (send_packet p w) = sent_packets w @ [p]"
  by (simp add: sent_packets_def send_packet_def)

lemma send_packet_frame [simp, frame_simps]:
  "w_self (send_packet p w) = w_self w" "w_context (send_packet p w) = w_context w" "w_config (send_packet p w) = w_config w"
  "w_neighbours (send_packet p w) = w_neighbours w" "w_peer_keys (send_packet p w) = w_peer_keys w"
  "w_keypair (send_packet p w) = w_keypair w" "w_handlers (send_packet p w) = w_handlers w"
  "w_clock_offset_s (send_packet p w) = w_clock_offset_s w" "w_initialized (send_packet p w) = w_initialized w"
  "w_sink (send_packet p w) = w_sink w" "w_fault_count (send_packet p w) = w_fault_count w"
  "w_merge_window_remaining_s (send_packet p w) = w_merge_window_remaining_s w"
  "tp_beacon (w_port (send_packet p w)) = tp_beacon (w_port w)" "tp_message (w_port (send_packet p w)) = tp_message (w_port w)"
  "tp_in_beacons (w_port (send_packet p w)) = tp_in_beacons (w_port w)"
  "tp_in_messages (w_port (send_packet p w)) = tp_in_messages (w_port w)"
  by (simp_all add: send_packet_def)

lemma set_self_frame [simp, frame_simps]:
  "w_self (set_self f w) = f (w_self w)" "w_context (set_self f w) = w_context w" "w_config (set_self f w) = w_config w"
  "w_neighbours (set_self f w) = w_neighbours w" "w_peer_keys (set_self f w) = w_peer_keys w"
  "w_keypair (set_self f w) = w_keypair w" "w_handlers (set_self f w) = w_handlers w" "w_port (set_self f w) = w_port w"
  "w_clock_offset_s (set_self f w) = w_clock_offset_s w" "w_initialized (set_self f w) = w_initialized w"
  "w_sink (set_self f w) = w_sink w" "w_fault_count (set_self f w) = w_fault_count w"
  "w_merge_window_remaining_s (set_self f w) = w_merge_window_remaining_s w"
  by (simp_all add: set_self_def)

lemma emit_trace_frame [simp, frame_simps]:
  "w_self (emit_trace e w) = w_self w" "w_port (emit_trace e w) = w_port w" "w_context (emit_trace e w) = w_context w"
  "w_initialized (emit_trace e w) = w_initialized w" "w_config (emit_trace e w) = w_config w"
  "w_sink (emit_trace e w) = map_option (\<lambda>log. log @ [e]) (w_sink w)"
  by (simp_all add: emit_trace_def split: option.split)

end
