(* ===== verification/Discovery.thy ===== *)
theory Discovery
  imports World_State
begin

text \<open>
  \<open>DiscoverySystem\<close> (include/mith/systems/discovery_system.h, src/systems/discovery_system.cpp): the
  bootstrap state machine and the handler of the discovery messages that \<open>BeaconSystem\<close> calls.

  The state has two values and one transition, from \<open>Bootstrapping\<close> to \<open>Active\<close>.  The timer of the
  time-out is a float sum, so that the machine leaves \<open>Bootstrapping\<close> only if the sum makes progress;
  the liveness result states the condition on the tick length.
\<close>

section \<open>The system\<close>

datatype discovery_state = Bootstrapping | Active

record discovery_params =
  dp_bootstrap_quorum :: u32
  dp_bootstrap_timeout_s :: f32
  dp_hello_period_s :: f32

definition discovery_params_default :: discovery_params where
  "discovery_params_default =
     \<lparr>dp_bootstrap_quorum = 1, dp_bootstrap_timeout_s = 0x41F00000, dp_hello_period_s = f32_one\<rparr>"

record discovery =
  ds_self_id :: hid
  ds_params :: discovery_params
  ds_state :: discovery_state
  ds_peers_seen :: u32
  ds_time_in_bootstrap_s :: f32
  ds_time_since_last_hello_s :: f32
  ds_hellos_sent :: u64
  ds_welcomes_sent :: u64
  ds_welcomes_received :: u64
  ds_hellos_received :: u64

text \<open>The constructor also registers the message handler with the world.\<close>

definition discovery_new :: "discovery_params \<Rightarrow> world \<Rightarrow> discovery \<times> world" where
  "discovery_new params w =
     (\<lparr>ds_self_id = hid_default, ds_params = params, ds_state = Bootstrapping, ds_peers_seen = 0,
       ds_time_in_bootstrap_s = f32_zero, ds_time_since_last_hello_s = f32_zero, ds_hellos_sent = 0,
       ds_welcomes_sent = 0, ds_welcomes_received = 0, ds_hellos_received = 0\<rparr>,
      register_message_handler DiscoveryHandler w)"

definition embed_pubkey_into_payload :: "identity_key \<Rightarrow> message \<Rightarrow> message" where
  "embed_pubkey_into_payload key m =
     m\<lparr>msg_payload := take PUBLIC_KEY_LEN key @ drop PUBLIC_KEY_LEN (replicate PAYLOAD_SIZE 0)\<rparr>"

definition extract_pubkey_from_payload :: "message \<Rightarrow> identity_key option" where
  "extract_pubkey_from_payload m =
     (if list_ex (\<lambda>b. b \<noteq> 0) (take PUBLIC_KEY_LEN (msg_payload m)) then Some (take PUBLIC_KEY_LEN (msg_payload m)) else None)"

text \<open>The advertisement of the own key, in a signed build with a key pair.\<close>

definition advertise :: "auth_build \<Rightarrow> world \<Rightarrow> message \<Rightarrow> message" where
  "advertise auth w m =
     (case auth of None \<Rightarrow> m
      | Some _ \<Rightarrow> (case w_keypair w of None \<Rightarrow> m | Some kp \<Rightarrow> embed_pubkey_into_payload (kp_public_key kp) m))"

definition promote_to_active :: "discovery \<Rightarrow> discovery" where
  "promote_to_active ds = ds\<lparr>ds_state := Active\<rparr>"

definition hello_message :: "auth_build \<Rightarrow> hid \<Rightarrow> world \<Rightarrow> message" where
  "hello_message auth self w =
     advertise auth w (message_default\<lparr>msg_sender := self, msg_recipient := BROADCAST_ID, msg_type := DISCOVERY_HELLO\<rparr>)"

definition discovery_tick :: "auth_build \<Rightarrow> f32 \<Rightarrow> discovery \<times> world \<Rightarrow> discovery \<times> world" where
  "discovery_tick auth delta_time dw =
     (case dw of (ds0, w) \<Rightarrow>
      let ds = (if is_nil (hid_unit (ds_self_id ds0)) \<and> w_initialized w
                then ds0\<lparr>ds_self_id := self_identity (w_self w)\<rparr> else ds0)
      in if ds_state ds = Active then (ds, w)
         else
           let ds1 = ds\<lparr>ds_time_in_bootstrap_s := f32_add (ds_time_in_bootstrap_s ds) delta_time,
                        ds_time_since_last_hello_s := f32_add (ds_time_since_last_hello_s ds) delta_time\<rparr>;
               hello = (f32_lt f32_zero (dp_hello_period_s (ds_params ds))
                        \<and> f32_le (dp_hello_period_s (ds_params ds)) (ds_time_since_last_hello_s ds1)
                        \<and> tp_message (w_port w) = Some True);
               ds2 = (if hello then ds1\<lparr>ds_hellos_sent := ds_hellos_sent ds1 + 1, ds_time_since_last_hello_s := f32_zero\<rparr> else ds1);
               w2 = (if hello then send_packet (Msg (hello_message auth (ds_self_id ds1) w)) w else w);
               ds3 = ds2\<lparr>ds_peers_seen := peer_count (w_neighbours w)\<rparr>
           in if dp_bootstrap_quorum (ds_params ds) \<le> ds_peers_seen ds3 then (promote_to_active ds3, w2)
              else if f32_le (dp_bootstrap_timeout_s (ds_params ds)) (ds_time_in_bootstrap_s ds3) then (promote_to_active ds3, w2)
              else (ds3, w2))"

text \<open>The pin of an advertised key, in a signed build; a conflict is ignored.\<close>

definition pin_advertised :: "auth_build \<Rightarrow> message \<Rightarrow> world \<Rightarrow> world" where
  "pin_advertised auth m w =
     (case (auth, extract_pubkey_from_payload m) of
        (Some _, Some key) \<Rightarrow> w\<lparr>w_peer_keys := snd (try_pin (msg_sender m) key (w_peer_keys w))\<rparr>
      | _ \<Rightarrow> w)"

definition welcome_message :: "auth_build \<Rightarrow> hid \<Rightarrow> message \<Rightarrow> world \<Rightarrow> message" where
  "welcome_message auth self m w =
     advertise auth w (message_default\<lparr>msg_sender := self, msg_recipient := msg_sender m, msg_type := DISCOVERY_WELCOME\<rparr>)"

definition handle_message :: "auth_build \<Rightarrow> message \<Rightarrow> discovery \<times> world \<Rightarrow> bool \<times> discovery \<times> world" where
  "handle_message auth m dw =
     (case dw of (ds, w) \<Rightarrow>
      if msg_type m = DISCOVERY_HELLO then
        let ds1 = ds\<lparr>ds_hellos_received := ds_hellos_received ds + 1\<rparr>;
            w1 = pin_advertised auth m w
        in if tp_message (w_port w1) = Some True
           then (True, ds1\<lparr>ds_welcomes_sent := ds_welcomes_sent ds1 + 1\<rparr>,
                 send_packet (Msg (welcome_message auth (ds_self_id ds1) m w1)) w1)
           else (True, ds1, w1)
      else if msg_type m = DISCOVERY_WELCOME then
        (True, ds\<lparr>ds_welcomes_received := ds_welcomes_received ds + 1\<rparr>, pin_advertised auth m w)
      else (False, ds, w))"

section \<open>Key advertisement\<close>

lemma embed_extract:
  assumes "length key = PUBLIC_KEY_LEN"
  shows "extract_pubkey_from_payload (embed_pubkey_into_payload key m) = (if list_ex (\<lambda>b. b \<noteq> 0) key then Some key else None)"
  using assms by (simp add: extract_pubkey_from_payload_def embed_pubkey_into_payload_def)

lemma embed_frame [simp]:
  "msg_sender (embed_pubkey_into_payload key m) = msg_sender m" "msg_recipient (embed_pubkey_into_payload key m) = msg_recipient m"
  "msg_type (embed_pubkey_into_payload key m) = msg_type m"
  by (simp_all add: embed_pubkey_into_payload_def)

lemma advertise_frame [simp]:
  "msg_sender (advertise auth w m) = msg_sender m" "msg_recipient (advertise auth w m) = msg_recipient m"
  "msg_type (advertise auth w m) = msg_type m"
  by (simp_all add: advertise_def split: option.split)

lemma pin_advertised_frame [simp, frame_simps]:
  "w_port (pin_advertised auth m w) = w_port w" "w_self (pin_advertised auth m w) = w_self w"
  "w_keypair (pin_advertised auth m w) = w_keypair w" "w_neighbours (pin_advertised auth m w) = w_neighbours w"
  "w_context (pin_advertised auth m w) = w_context w" "w_handlers (pin_advertised auth m w) = w_handlers w"
  by (simp_all add: pin_advertised_def split: option.split)

text \<open>The shared payload size survives the exchange.\<close>

lemma advertise_payload:
  assumes "\<And>kp. w_keypair w = Some kp \<Longrightarrow> length (kp_public_key kp) = PUBLIC_KEY_LEN"
    "length (msg_payload m) = PAYLOAD_SIZE"
  shows "length (msg_payload (advertise auth w m)) = PAYLOAD_SIZE"
  using assms by (auto simp: advertise_def embed_pubkey_into_payload_def split: option.split)


section \<open>The bootstrap ends\<close>

text \<open>The state after \<open>n\<close> ticks; \<open>ws\<close> is the world the environment presents at each of them.\<close>

primrec discovery_run :: "auth_build \<Rightarrow> f32 \<Rightarrow> (nat \<Rightarrow> world) \<Rightarrow> discovery \<Rightarrow> nat \<Rightarrow> discovery" where
  "discovery_run auth dt ws ds 0 = ds"
| "discovery_run auth dt ws ds (Suc n) = fst (discovery_tick auth dt (discovery_run auth dt ws ds n, ws n))"

lemma discovery_tick_params: "ds_params (fst (discovery_tick auth dt (ds, w))) = ds_params ds"
  by (simp add: discovery_tick_def promote_to_active_def Let_def)

lemma active_stays: "ds_state ds = Active \<Longrightarrow> ds_state (fst (discovery_tick auth dt (ds, w))) = Active"
  by (simp add: discovery_tick_def Let_def)

lemma bootstrapping_tick:
  assumes "ds_state (fst (discovery_tick auth dt (ds, w))) \<noteq> Active"
  shows "ds_time_in_bootstrap_s (fst (discovery_tick auth dt (ds, w))) = f32_add (ds_time_in_bootstrap_s ds) dt"
    and "\<not> f32_le (dp_bootstrap_timeout_s (ds_params ds)) (f32_add (ds_time_in_bootstrap_s ds) dt)"
    and "peer_count (w_neighbours w) < dp_bootstrap_quorum (ds_params ds)"
proof -
  have "ds_state ds \<noteq> Active" using assms active_stays by blast
  with assms show "ds_time_in_bootstrap_s (fst (discovery_tick auth dt (ds, w))) = f32_add (ds_time_in_bootstrap_s ds) dt"
      "\<not> f32_le (dp_bootstrap_timeout_s (ds_params ds)) (f32_add (ds_time_in_bootstrap_s ds) dt)"
      "peer_count (w_neighbours w) < dp_bootstrap_quorum (ds_params ds)"
    by (auto simp: discovery_tick_def promote_to_active_def Let_def not_le split: if_splits)
qed

lemma discovery_run_timer:
  assumes "f32_isfinite (dp_bootstrap_timeout_s (ds_params ds))" "f32_isfinite dt"
    "f32_gap (f32_key (dp_bootstrap_timeout_s (ds_params ds))) \<le> f32_int dt"
    "f32_isfinite (ds_time_in_bootstrap_s ds)" "f32_nonneg (ds_time_in_bootstrap_s ds)"
  shows "ds_params (discovery_run auth dt ws ds n) = ds_params ds \<and>
    (ds_state (discovery_run auth dt ws ds n) = Active \<or>
     (let t = ds_time_in_bootstrap_s (discovery_run auth dt ws ds n)
      in f32_isfinite t \<and> f32_nonneg t \<and> int n * f32_int dt \<le> 2 * f32_int t
         \<and> (0 < n \<longrightarrow> f32_lt t (dp_bootstrap_timeout_s (ds_params ds)))))"
proof (induction n)
  case 0
  then show ?case using assms(4,5) by (simp add: f32_int_key f32_nonneg_key signed_units_def units_nonneg)
next
  case (Suc n)
  let ?d = "discovery_run auth dt ws ds n" and ?d' = "discovery_run auth dt ws ds (Suc n)"
  let ?t = "ds_time_in_bootstrap_s ?d" and ?c = "dp_bootstrap_timeout_s (ds_params ds)"
  have par: "ds_params ?d = ds_params ds" "ds_params ?d' = ds_params ds" using Suc by (simp_all add: discovery_tick_params)
  show ?case
  proof (cases "ds_state ?d' = Active")
    case False
    then have "ds_state ?d \<noteq> Active" using active_stays by auto
    with Suc have t: "f32_isfinite ?t" "f32_nonneg ?t" "int n * f32_int dt \<le> 2 * f32_int ?t" by (simp_all add: Let_def)
    have t': "ds_time_in_bootstrap_s ?d' = f32_add ?t dt" "\<not> f32_le ?c (f32_add ?t dt)"
      using bootstrapping_tick [of auth dt ?d "ws n"] False par(1) by simp_all
    then have lt: "f32_lt (f32_add ?t dt) ?c"
      using f32_add_finite(2) [OF t(1) assms(2)] f32_finite_not_nan(1) [OF assms(1)] f32_not_lt [of "f32_add ?t dt" ?c] by simp
    note g = f32_add_gain [OF t(1,2) assms(2,3,1) lt]
    have "int (Suc n) * f32_int dt \<le> 2 * f32_int (f32_add ?t dt)" using g(3) t(3) by (simp add: distrib_right)
    with g(1,2) lt show ?thesis using t'(1) par by (simp add: Let_def)
  qed (use par in simp)
qed

text \<open>
  Claim C29.  The bootstrap cannot last forever: if the tick length is at least the spacing of floats at the
  time-out, a new \<open>DiscoverySystem\<close> is \<open>Active\<close> after any number \<open>n > 0\<close> of ticks with
  \<open>2 * timeout \<le> n * tick\<close>, however the neighbour table and the transports behave.  It also becomes
  \<open>Active\<close> at the first tick at which the table holds a quorum, and it stays \<open>Active\<close>.
\<close>

theorem bootstrap_ends:
  assumes "f32_isfinite (dp_bootstrap_timeout_s params)" "f32_isfinite dt"
    "f32_gap (f32_key (dp_bootstrap_timeout_s params)) \<le> f32_int dt"
    and "0 < n" "2 * f32_int (dp_bootstrap_timeout_s params) \<le> int n * f32_int dt"
  shows "ds_state (discovery_run auth dt ws (fst (discovery_new params w)) n) = Active
    \<and> (\<forall>ds w'. ds_state ds = Active \<or> dp_bootstrap_quorum (ds_params ds) \<le> peer_count (w_neighbours w') \<longrightarrow>
         ds_state (fst (discovery_tick auth dt (ds, w'))) = Active)"
proof -
  let ?ds = "fst (discovery_new params w)" and ?c = "dp_bootstrap_timeout_s params"
  have new: "ds_params ?ds = params" "ds_time_in_bootstrap_s ?ds = f32_zero" by (simp_all add: discovery_new_def)
  have "ds_state (discovery_run auth dt ws ?ds n) = Active"
  proof (rule ccontr)
    assume "ds_state (discovery_run auth dt ws ?ds n) \<noteq> Active"
    then have "int n * f32_int dt \<le> 2 * f32_int (ds_time_in_bootstrap_s (discovery_run auth dt ws ?ds n))"
        "f32_lt (ds_time_in_bootstrap_s (discovery_run auth dt ws ?ds n)) ?c"
        "f32_nonneg (ds_time_in_bootstrap_s (discovery_run auth dt ws ?ds n))"
      using discovery_run_timer [of ?ds dt auth ws n] assms(1-4) new by (simp_all add: Let_def f32_le_refl)
    moreover from this(2,3) have "f32_int (ds_time_in_bootstrap_s (discovery_run auth dt ws ?ds n)) < f32_int ?c"
      by (simp add: f32_int_key f32_lt_def f32_nonneg_key signed_units_def units_strict_mono)
    ultimately show False using assms(5) by simp
  qed
  moreover have "ds_state (fst (discovery_tick auth dt (ds, w'))) = Active"
    if "ds_state ds = Active \<or> dp_bootstrap_quorum (ds_params ds) \<le> peer_count (w_neighbours w')" for ds w'
    using that active_stays bootstrapping_tick(3) [of auth dt ds w'] by (meson leD)
  ultimately show ?thesis by blast
qed

text \<open>With the defaults, 30 s at 20 Hz: 1200 ticks are enough.\<close>

theorem bootstrap_ends_witness:
  "ds_state (discovery_run None 0x3D4CCCCD (\<lambda>_. world_new world_config_default port_none)
     (fst (discovery_new discovery_params_default (world_new world_config_default port_none))) 1200) = Active"
proof -
  have "f32_isfinite (dp_bootstrap_timeout_s discovery_params_default)" "f32_isfinite 0x3D4CCCCD"
    "f32_gap (f32_key (dp_bootstrap_timeout_s discovery_params_default)) \<le> f32_int 0x3D4CCCCD" "0 < (1200 :: nat)"
    "2 * f32_int (dp_bootstrap_timeout_s discovery_params_default) \<le> int 1200 * f32_int 0x3D4CCCCD" by code_simp+
  then show ?thesis by (rule bootstrap_ends [THEN conjunct1])
qed

section \<open>The handshake\<close>

text \<open>The answer of the handler to a list of messages, one after the other.\<close>

definition is_discovery :: "message \<Rightarrow> bool" where
  "is_discovery m \<longleftrightarrow> msg_type m = DISCOVERY_HELLO \<or> msg_type m = DISCOVERY_WELCOME"

lemma handle_message_claims: "fst (handle_message auth m dw) \<longleftrightarrow> is_discovery m"
  by (cases dw) (simp add: handle_message_def is_discovery_def Let_def)

lemma handle_message_other: "\<not> is_discovery m \<Longrightarrow> snd (handle_message auth m dw) = dw"
  by (cases dw) (simp add: handle_message_def is_discovery_def)

lemma handle_message_frame:
  "w_self (snd (snd (handle_message auth m (ds, w)))) = w_self w" "ds_self_id (fst (snd (handle_message auth m (ds, w)))) = ds_self_id ds"
  "w_keypair (snd (snd (handle_message auth m (ds, w)))) = w_keypair w" "w_handlers (snd (snd (handle_message auth m (ds, w)))) = w_handlers w"
  "w_neighbours (snd (snd (handle_message auth m (ds, w)))) = w_neighbours w" "w_context (snd (snd (handle_message auth m (ds, w)))) = w_context w"
  "tp_message (w_port (snd (snd (handle_message auth m (ds, w))))) = tp_message (w_port w)"
  by (simp_all add: handle_message_def Let_def)

text \<open>One welcome per hello, addressed to its sender.\<close>

lemma welcome_message_cong: "w_keypair w = w_keypair w' \<Longrightarrow> welcome_message auth self m w = welcome_message auth self m w'"
  by (simp add: welcome_message_def advertise_def split: option.split)

lemma handle_message_sends:
  "sent_packets (snd (snd (handle_message auth m (ds, w)))) = sent_packets w @
     (if msg_type m = DISCOVERY_HELLO \<and> tp_message (w_port w) = Some True
      then [Msg (welcome_message auth (ds_self_id ds) m w)] else [])"
proof -
  have "welcome_message auth self m (pin_advertised auth m w) = welcome_message auth self m w" for self
    by (rule welcome_message_cong) simp
  moreover have "sent_packets (pin_advertised auth m w) = sent_packets w" by (simp add: sent_packets_def)
  ultimately show ?thesis by (simp add: handle_message_def Let_def)
qed

end
