(* ===== verification/Beacon_System.thy ===== *)
theory Beacon_System
  imports Discovery
begin

text \<open>
  \<open>BeaconSystem\<close> (include/mith/comms/beacon_system.h, src/comms/beacon_system.cpp): emits the robot's
  beacon, takes in the beacons and messages of the others, and dispatches messages to the handlers
  registered with the world.

  In a signed build (\<open>auth = Some (sign, open)\<close>) a beacon with a public key is verified and its key is
  pinned to the identity on first use; a beacon with an all-zero key is taken without verification.
  The results say what an attacker can and cannot write into the neighbour table.
\<close>

section \<open>The system\<close>

record beacon_sys =
  bs_beacon_period_s :: f32
  bs_neighbour_timeout_s :: f32
  bs_time_since_last_beacon_s :: f32
  bs_rejected_beacons :: u64

definition beacon_sys_new :: "world_config \<Rightarrow> beacon_sys" where
  "beacon_sys_new config =
     \<lparr>bs_beacon_period_s = (if f32_lt f32_zero (cfg_beacon_rate_hz config) then f32_div f32_one (cfg_beacon_rate_hz config) else f32_zero),
      bs_neighbour_timeout_s = cfg_neighbour_timeout_s config, bs_time_since_last_beacon_s = f32_zero,
      bs_rejected_beacons = 0\<rparr>"

text \<open>Step 1: the state vector of the robot.\<close>

definition own_beacon :: "world \<Rightarrow> state_vector" where
  "own_beacon w =
     (let s = w_self w in
      state_vector_default\<lparr>sv_id := self_identity s, sv_position := self_position s, sv_velocity := self_velocity s,
        sv_health := self_health s, sv_role := self_role s, sv_state := self_behaviour s,
        sv_tick := ucast (ctx_tick_count (w_context w)), sv_sync_time_s := synced_time_s w\<rparr>)"

text \<open>Step 2: the signature over the canonical prefix.\<close>

definition sign_beacon :: "auth_build \<Rightarrow> world \<Rightarrow> state_vector \<Rightarrow> state_vector" where
  "sign_beacon auth w sv =
     (case (auth, w_keypair w) of
        (Some (crypto_sign, _), Some kp) \<Rightarrow>
          let sv1 = sv\<lparr>sv_sender_pubkey := kp_public_key kp\<rparr>;
              signed_bytes = serialise_beacon_signed_payload sv1 BEACON_SIGNED_PREFIX_BYTES
          in sv1\<lparr>sv_signature := sign_payload crypto_sign (kp_private_key kp) signed_bytes\<rparr>
      | _ \<Rightarrow> sv)"

definition emit_beacon :: "auth_build \<Rightarrow> f32 \<Rightarrow> state_vector \<Rightarrow> beacon_sys \<times> world \<Rightarrow> beacon_sys \<times> world" where
  "emit_beacon auth delta_time sv bw =
     (case bw of (bs, w) \<Rightarrow>
      let bs1 = bs\<lparr>bs_time_since_last_beacon_s := f32_add (bs_time_since_last_beacon_s bs) delta_time\<rparr>
      in if f32_lt f32_zero (bs_beacon_period_s bs1)
            \<and> f32_le (bs_beacon_period_s bs1) (bs_time_since_last_beacon_s bs1)
            \<and> tp_beacon (w_port w) = Some True
         then (bs1\<lparr>bs_time_since_last_beacon_s := f32_zero\<rparr>, send_packet (Beacon (sign_beacon auth w sv)) w)
         else (bs1, w))"

text \<open>Step 3: one inbound beacon.\<close>

definition pubkey_present :: "state_vector \<Rightarrow> bool" where
  "pubkey_present b = list_ex (\<lambda>byte. byte \<noteq> 0) (sv_sender_pubkey b)"

definition beacon_verifies :: "nacl_open \<Rightarrow> state_vector \<Rightarrow> bool" where
  "beacon_verifies crypto_sign_open b =
     verify_signature crypto_sign_open (sv_sender_pubkey b)
       (Some (serialise_beacon_signed_payload b BEACON_SIGNED_PREFIX_BYTES)) BEACON_SIGNED_PREFIX_BYTES
       (Some (sv_signature b)) (length (sv_signature b))"

definition accept_beacon :: "state_vector \<Rightarrow> world \<Rightarrow> world res" where
  "accept_beacon b w =
     rmap (\<lambda>t. w\<lparr>w_neighbours := t\<rparr>) (nt_upsert b (ctx_elapsed_time_s (w_context w)) UNKNOWN_RSSI (w_neighbours w))"

definition receive_beacon :: "auth_build \<Rightarrow> hid \<Rightarrow> state_vector \<Rightarrow> u64 \<times> world \<Rightarrow> (u64 \<times> world) res" where
  "receive_beacon auth own b rw =
     (case rw of (rejected, w) \<Rightarrow>
      if sv_id b = own then Inr (rejected, w)
      else
        case auth of
          Some (_, crypto_sign_open) \<Rightarrow>
            if pubkey_present b then
              if \<not> beacon_verifies crypto_sign_open b then Inr (rejected + 1, w)
              else
                case try_pin (sv_id b) (sv_sender_pubkey b) (w_peer_keys w) of (pinned, keys) \<Rightarrow>
                  if \<not> pinned then Inr (rejected + 1, w\<lparr>w_peer_keys := keys\<rparr>)
                  else rmap (Pair rejected) (accept_beacon b (w\<lparr>w_peer_keys := keys\<rparr>))
            else rmap (Pair rejected) (accept_beacon b w)
        | None \<Rightarrow> rmap (Pair rejected) (accept_beacon b w))"

text \<open>Step 4: the handlers in registration order, the first that claims the message ends the search.\<close>

fun run_handlers :: "auth_build \<Rightarrow> message \<Rightarrow> message_handler list \<Rightarrow> discovery \<times> world \<Rightarrow> bool \<times> discovery \<times> world" where
  "run_handlers auth m [] dw = (False, dw)"
| "run_handlers auth m (h # hs) dw =
     (case h of
        NullHandler \<Rightarrow> run_handlers auth m hs dw
      | MissionHandler claims \<Rightarrow> if claims m then (True, dw) else run_handlers auth m hs dw
      | DiscoveryHandler \<Rightarrow>
          (case handle_message auth m dw of
             (True, dw') \<Rightarrow> (True, dw')
           | (False, dw') \<Rightarrow> run_handlers auth m hs dw'))"

definition deliver_message :: "auth_build \<Rightarrow> message \<Rightarrow> discovery \<times> world \<Rightarrow> discovery \<times> world" where
  "deliver_message auth m dw =
     (case run_handlers auth m (w_handlers (snd dw)) dw of
        (True, dw') \<Rightarrow> dw'
      | (False, (ds, w)) \<Rightarrow>
          (ds, set_self (\<lambda>s. s\<lparr>self_comm := snd (bq_push COMM_BUFFER_CAPACITY DropOldest m (self_comm s))\<rparr>) w))"

definition drain_beacons :: "auth_build \<Rightarrow> hid \<Rightarrow> beacon_sys \<times> world \<Rightarrow> (beacon_sys \<times> world) res" where
  "drain_beacons auth own bw =
     (case bw of (bs, w) \<Rightarrow>
      if tp_beacon (w_port w) = Some True then
        case take_beacons w of (beacons, w1) \<Rightarrow>
          rmap (\<lambda>(rejected, w2). (bs\<lparr>bs_rejected_beacons := rejected\<rparr>, w2))
            (rfold (receive_beacon auth own) beacons (bs_rejected_beacons bs, w1))
      else Inr (bs, w))"

definition drain_messages :: "auth_build \<Rightarrow> discovery \<times> world \<Rightarrow> discovery \<times> world" where
  "drain_messages auth dw =
     (if tp_message (w_port (snd dw)) = Some True then
        case take_messages (snd dw) of (messages, w1) \<Rightarrow> fold (deliver_message auth) messages (fst dw, w1)
      else dw)"

definition beacon_tick ::
  "auth_build \<Rightarrow> f32 \<Rightarrow> beacon_sys \<times> discovery \<times> world \<Rightarrow> (beacon_sys \<times> discovery \<times> world) res" where
  "beacon_tick auth delta_time bdw =
     (case bdw of (bs, ds, w0) \<Rightarrow>
      rbind (nt_age_out (ctx_elapsed_time_s (w_context w0)) (bs_neighbour_timeout_s bs) (w_neighbours w0)) (\<lambda>t.
        let w = w0\<lparr>w_neighbours := t\<rparr> in
        if tp_beacon (w_port w) = None \<and> tp_message (w_port w) = None then Inr (bs, ds, w)
        else
          let sv = own_beacon w in
          case emit_beacon auth delta_time sv (bs, w) of (bs1, w1) \<Rightarrow>
          rmap (\<lambda>(bs2, w2). case drain_messages auth (ds, w2) of (ds3, w3) \<Rightarrow> (bs2, ds3, w3))
            (drain_beacons auth (sv_id sv) (bs1, w1))))"


section \<open>What a beacon can change\<close>

text \<open>The invariants of the two stores a beacon writes to.\<close>

definition stores_ok :: "world \<Rightarrow> bool" where
  "stores_ok w \<longleftrightarrow> nt_inv (w_neighbours w) \<and> key_registry_inv (w_peer_keys w)"

text \<open>A beacon passes for an identity with the pinned key \<open>k\<close>.\<close>

definition passes :: "nacl_open \<Rightarrow> identity_key \<Rightarrow> state_vector \<Rightarrow> bool" where
  "passes op k b \<longleftrightarrow> \<not> pubkey_present b \<or> (sv_sender_pubkey b = k \<and> beacon_verifies op b)"

lemma accept_beacon_effect:
  assumes "accept_beacon b w = Inr w'" "nt_inv (w_neighbours w)"
  shows "nt_find (w_neighbours w') = (nt_find (w_neighbours w))(sv_id b \<mapsto> entry_of b (ctx_elapsed_time_s (w_context w)) UNKNOWN_RSSI)"
    and "nt_inv (w_neighbours w')" "w_peer_keys w' = w_peer_keys w" "w_context w' = w_context w"
  using assms nt_upsert_find nt_upsert_inv by (auto simp: accept_beacon_def rmap_eq_Inr_iff)

text \<open>One beacon, on each branch: an own echo, a rejection, an accepted beacon.\<close>

lemma receive_beacon_cases:
  assumes "receive_beacon (Some (sg, op)) own b (r, w) = Inr (r', w')" "stores_ok w" "length (sv_sender_pubkey b) = PUBLIC_KEY_LEN"
  obtains (echo) "sv_id b = own" "r' = r" "w' = w"
  | (reject) "sv_id b \<noteq> own" "pubkey_present b" "r' = r + 1" "w' = w"
      "\<not> beacon_verifies op b \<or> (\<exists>k. pk_find (w_peer_keys w) (sv_id b) = Some k \<and> k \<noteq> sv_sender_pubkey b)"
  | (signed) "sv_id b \<noteq> own" "pubkey_present b" "beacon_verifies op b" "r' = r"
      "fst (try_pin (sv_id b) (sv_sender_pubkey b) (w_peer_keys w))"
      "accept_beacon b (w\<lparr>w_peer_keys := snd (try_pin (sv_id b) (sv_sender_pubkey b) (w_peer_keys w))\<rparr>) = Inr w'"
  | (plain) "sv_id b \<noteq> own" "\<not> pubkey_present b" "r' = r" "accept_beacon b w = Inr w'"
proof -
  obtain pinned keys where tp: "try_pin (sv_id b) (sv_sender_pubkey b) (w_peer_keys w) = (pinned, keys)"
    by (cases "try_pin (sv_id b) (sv_sender_pubkey b) (w_peer_keys w)")
  have inv: "key_registry_inv (w_peer_keys w)" using assms(2) by (simp add: stores_ok_def)
  have refused: "keys = w_peer_keys w \<and> (\<exists>k. pk_find (w_peer_keys w) (sv_id b) = Some k \<and> k \<noteq> sv_sender_pubkey b)" if "\<not> pinned"
  proof (cases "pk_find (w_peer_keys w) (sv_id b)")
    case None
    then show ?thesis using key_registry.pin_new [OF inv assms(3) None] tp that by simp
  next
    case (Some k)
    then show ?thesis using key_registry.pin_known [OF inv assms(3) Some] tp that by auto
  qed
  have same: "w\<lparr>w_peer_keys := w_peer_keys w\<rparr> = w" by simp
  show ?thesis
    using assms(1) tp refused same echo reject signed plain
    by (auto simp: receive_beacon_def rmap_eq_Inr_iff split: if_splits)
qed

lemma receive_beacon_pinned:
  assumes "receive_beacon (Some (sg, op)) own b (r, w) = Inr (r', w')" "stores_ok w" "state_vector_wf b"
    and k: "pk_find (w_peer_keys w) h = Some k"
  shows "stores_ok w'" "pk_find (w_peer_keys w') h = Some k" "w_context w' = w_context w"
    and "nt_find (w_neighbours w') h = (if sv_id b = h \<and> h \<noteq> own \<and> passes op k b
           then Some (entry_of b (ctx_elapsed_time_s (w_context w)) UNKNOWN_RSSI) else nt_find (w_neighbours w) h)"
proof -
  have len: "length (sv_sender_pubkey b) = PUBLIC_KEY_LEN" using assms(3) by (simp add: state_vector_wf_def)
  have inv: "nt_inv (w_neighbours w)" "key_registry_inv (w_peer_keys w)" using assms(2) by (simp_all add: stores_ok_def)
  let ?w1 = "w\<lparr>w_peer_keys := snd (try_pin (sv_id b) (sv_sender_pubkey b) (w_peer_keys w))\<rparr>"
  have pin: "key_registry_inv (w_peer_keys ?w1)" "pk_find (w_peer_keys ?w1) h = Some k"
    using key_registry.pin_inv [OF inv(2) len] key_registry.find_pin [OF inv(2) len, of "sv_id b"] k
    by (auto split: option.splits)
  have kb: "k = sv_sender_pubkey b" if "fst (try_pin (sv_id b) (sv_sender_pubkey b) (w_peer_keys w))" "sv_id b = h"
    using key_registry.pin_known [OF inv(2) len, of h k] k that by simp
  from receive_beacon_cases [OF assms(1,2) len]
  show "stores_ok w'" "pk_find (w_peer_keys w') h = Some k" "w_context w' = w_context w"
    "nt_find (w_neighbours w') h = (if sv_id b = h \<and> h \<noteq> own \<and> passes op k b
           then Some (entry_of b (ctx_elapsed_time_s (w_context w)) UNKNOWN_RSSI) else nt_find (w_neighbours w) h)"
    using accept_beacon_effect [of b ?w1 w'] accept_beacon_effect [of b w w'] inv pin k kb
    by (cases; auto simp: stores_ok_def passes_def)+
qed


lemma receive_beacons_pinned:
  assumes "rfold (receive_beacon (Some (sg, op)) own) bs (r, w) = Inr (r', w')" "stores_ok w" "\<forall>b \<in> set bs. state_vector_wf b"
    and "pk_find (w_peer_keys w) h = Some k" "h \<noteq> own"
  shows "stores_ok w' \<and> pk_find (w_peer_keys w') h = Some k \<and> w_context w' = w_context w
    \<and> nt_find (w_neighbours w') h = (let mine = filter (\<lambda>b. sv_id b = h \<and> passes op k b) bs
         in if mine = [] then nt_find (w_neighbours w) h
            else Some (entry_of (last mine) (ctx_elapsed_time_s (w_context w)) UNKNOWN_RSSI))"
  using assms
proof (induction bs arbitrary: r w)
  case (Cons b bs)
  then obtain r1 w1 where st: "receive_beacon (Some (sg, op)) own b (r, w) = Inr (r1, w1)"
    and rest: "rfold (receive_beacon (Some (sg, op)) own) bs (r1, w1) = Inr (r', w')"
    by (auto simp: rbind_eq_Inr_iff)
  have wf: "state_vector_wf b" using Cons.prems(3) by simp
  note one = receive_beacon_pinned [OF st Cons.prems(2) wf Cons.prems(4)]
  from Cons.IH [OF rest one(1)] Cons.prems(3,5) one show ?case by (auto simp: Let_def)
qed (simp add: Let_def)

text \<open>
  Claim C5.  In a signed build, what a pinned identity is known by: after any batch of well-formed beacons the
  key of a pinned peer is unchanged, and its entry in the neighbour table is that of the last beacon in
  the batch that claims the identity and either carries the pinned key with a valid signature over the
  canonical prefix, or carries no key at all.  Every other claim to the identity has no effect on the
  entry.
\<close>

theorem pinned_peer_protected:
  assumes "rfold (receive_beacon (Some (sg, op)) own) bs (r, w) = Inr (r', w')"
    and "nt_inv (w_neighbours w)" "key_registry_inv (w_peer_keys w)" "\<forall>b \<in> set bs. state_vector_wf b"
    and "pk_find (w_peer_keys w) h = Some k" "h \<noteq> own"
  shows "pk_find (w_peer_keys w') h = Some k
    \<and> nt_find (w_neighbours w') h =
        (let mine = filter (\<lambda>b. sv_id b = h \<and> (\<not> pubkey_present b \<or> sv_sender_pubkey b = k \<and> beacon_verifies op b)) bs
         in if mine = [] then nt_find (w_neighbours w) h
            else Some (entry_of (last mine) (ctx_elapsed_time_s (w_context w)) UNKNOWN_RSSI))"
  using receive_beacons_pinned [OF assms(1) _ assms(4-6)] assms(2,3) by (simp add: stores_ok_def passes_def)

text \<open>A signature scheme for examples: the signature repeats the first byte of the key.\<close>

definition toy_sign :: nacl_sign where
  "toy_sign sk m = replicate 64 (hd sk) @ m"

definition toy_open :: nacl_open where
  "toy_open sm pk = (if take 64 sm = replicate 64 (hd pk) then 0 else - 1)"

definition example_peer :: hid where
  "example_peer = HID 1 (UUID (replicate 16 1))"

definition example_beacon :: "byte \<Rightarrow> byte \<Rightarrow> state_vector" where
  "example_beacon key sig = state_vector_default\<lparr>sv_id := example_peer, sv_health := 7,
     sv_sender_pubkey := replicate 32 key, sv_signature := replicate 64 sig\<rparr>"

definition example_receiver :: world where
  "example_receiver = (world_new world_config_default port_unified)\<lparr>w_peer_keys := [(example_peer, replicate 32 5)]\<rparr>"

lemma example_receiver_facts:
  "nt_inv (w_neighbours example_receiver)" "key_registry_inv (w_peer_keys example_receiver)"
  "pk_find (w_peer_keys example_receiver) example_peer = Some (replicate 32 5)" "example_peer \<noteq> hid_default"
  "nt_find (w_neighbours example_receiver) example_peer = None"
proof -
  show "nt_inv (w_neighbours example_receiver)" using nt_new_inv by (simp add: example_receiver_def world_new_def)
  show "key_registry_inv (w_peer_keys example_receiver)"
    by (simp add: example_receiver_def key_registry_inv_def om_wf_def)
  show "pk_find (w_peer_keys example_receiver) example_peer = Some (replicate 32 5)"
    by (simp add: example_receiver_def pk_find_def)
  show "example_peer \<noteq> hid_default" "nt_find (w_neighbours example_receiver) example_peer = None" by code_simp+
qed

theorem pinned_peer_protected_witness:
  "\<exists>r' w'. rfold (receive_beacon (Some (toy_sign, toy_open)) hid_default) [example_beacon 6 6, example_beacon 5 9] (0, example_receiver)
     = Inr (r', w') \<and> r' = 2 \<and> nt_find (w_neighbours w') example_peer = None"
proof -
  let ?bs = "[example_beacon 6 6, example_beacon 5 9]"
  have facts: "sv_id (example_beacon x y) = example_peer" for x y by (simp add: example_beacon_def)
  have "pubkey_present (example_beacon 6 6)" "beacon_verifies toy_open (example_beacon 6 6)"
    "pubkey_present (example_beacon 5 9)" "\<not> beacon_verifies toy_open (example_beacon 5 9)"
    "try_pin example_peer (sv_sender_pubkey (example_beacon 6 6)) (w_peer_keys example_receiver) = (False, w_peer_keys example_receiver)"
    by code_simp+
  then have run: "rfold (receive_beacon (Some (toy_sign, toy_open)) hid_default) ?bs (0, example_receiver) = Inr (2, example_receiver)"
    using example_receiver_facts(4) by (simp add: receive_beacon_def facts)
  have wf: "\<forall>b \<in> set ?bs. state_vector_wf b" by code_simp
  have "filter (\<lambda>b. sv_id b = example_peer \<and> (\<not> pubkey_present b \<or> sv_sender_pubkey b = replicate 32 5 \<and> beacon_verifies toy_open b)) ?bs = []"
    by code_simp
  then show ?thesis
    using pinned_peer_protected [OF run example_receiver_facts(1,2) wf example_receiver_facts(3,4)] example_receiver_facts(5) run
    by (auto simp: Let_def)
qed


section \<open>Two robots\<close>

lemma serialise_ignores_signature: "serialise_beacon_signed_payload (sv\<lparr>sv_signature := x\<rparr>) cap = serialise_beacon_signed_payload sv cap"
  by (simp add: serialise_beacon_signed_payload_def)

lemma own_beacon_sel [simp]: "sv_id (own_beacon w) = self_identity (w_self w)"
  by (simp add: own_beacon_def Let_def)

text \<open>The beacon of a robot with a key pair is well formed and verifies.\<close>

lemma sign_beacon_genuine:
  assumes "nacl_correct sg op (kp_private_key kp) (kp_public_key kp)" "length (kp_public_key kp) = PUBLIC_KEY_LEN"
    "w_keypair w = Some kp" "hid_wf (self_identity (w_self w))"
  shows "state_vector_wf (sign_beacon (Some (sg, op)) w (own_beacon w))"
    "beacon_verifies op (sign_beacon (Some (sg, op)) w (own_beacon w))"
    "sv_sender_pubkey (sign_beacon (Some (sg, op)) w (own_beacon w)) = kp_public_key kp"
    "sv_id (sign_beacon (Some (sg, op)) w (own_beacon w)) = self_identity (w_self w)"
    "entry_of (sign_beacon (Some (sg, op)) w (own_beacon w)) now rssi = entry_of (own_beacon w) now rssi"
proof -
  let ?sv = "(own_beacon w)\<lparr>sv_sender_pubkey := kp_public_key kp\<rparr>"
  let ?m = "serialise_beacon_signed_payload ?sv BEACON_SIGNED_PREFIX_BYTES"
  have b: "sign_beacon (Some (sg, op)) w (own_beacon w) = ?sv\<lparr>sv_signature := sign_payload sg (kp_private_key kp) ?m\<rparr>"
    using assms(3) by (simp add: sign_beacon_def Let_def)
  have wf: "state_vector_wf ?sv"
    using assms(2,4) by (simp add: state_vector_wf_def own_beacon_def Let_def state_vector_default_def)
  then have len: "length ?m = BEACON_SIGNED_PREFIX_BYTES" by (rule length_serialise_beacon) simp
  note sig = verify_sign_payload [OF assms(1), of ?m]
  show "state_vector_wf (sign_beacon (Some (sg, op)) w (own_beacon w))"
    using wf sig(1) unfolding b by (simp add: state_vector_wf_def)
  show "beacon_verifies op (sign_beacon (Some (sg, op)) w (own_beacon w))"
    using sig len unfolding b by (simp add: beacon_verifies_def serialise_ignores_signature)
  show "sv_sender_pubkey (sign_beacon (Some (sg, op)) w (own_beacon w)) = kp_public_key kp"
    "sv_id (sign_beacon (Some (sg, op)) w (own_beacon w)) = self_identity (w_self w)"
    "entry_of (sign_beacon (Some (sg, op)) w (own_beacon w)) now rssi = entry_of (own_beacon w) now rssi"
    unfolding b by (simp_all add: entry_of_def)
qed

text \<open>
  Claim C6.  Signed beacons get through: when the beacon of a robot with a key pair is due, exactly one beacon is
  handed to its transport; it survives the wire encoding; and another robot of a signed build that
  has pinned no other key for the sender takes it, unless the neighbour table's operation is undefined:
  nothing is counted as rejected, the sender's key is pinned and its entry shows the sender's state.
\<close>

theorem signed_beacon_link:
  assumes "nacl_correct sg op (kp_private_key kp) (kp_public_key kp)" "length (kp_public_key kp) = PUBLIC_KEY_LEN"
    "list_ex (\<lambda>b. b \<noteq> 0) (kp_public_key kp)" "w_keypair a = Some kp" "hid_wf (self_identity (w_self a))"
    and "f32_lt f32_zero (bs_beacon_period_s bs)" "f32_le (bs_beacon_period_s bs) (f32_add (bs_time_since_last_beacon_s bs) dt)"
    "tp_beacon (w_port a) = Some True"
    and "nt_inv (w_neighbours w)" "key_registry_inv (w_peer_keys w)" "self_identity (w_self a) \<noteq> own"
    "pk_find (w_peer_keys w) (self_identity (w_self a)) \<in> {None, Some (kp_public_key kp)}"
  shows "\<exists>b. sent_packets (snd (emit_beacon (Some (sg, op)) dt (own_beacon a) (bs, a))) = sent_packets a @ [Beacon b]
    \<and> decode_beacon (encode_beacon b MAX_FRAME_BYTES) = Some b
    \<and> (case receive_beacon (Some (sg, op)) own b (r, w) of
         Inl e \<Rightarrow> nt_upsert b (ctx_elapsed_time_s (w_context w)) UNKNOWN_RSSI (w_neighbours w) = Inl e
       | Inr (r', w') \<Rightarrow> r' = r \<and> pk_find (w_peer_keys w') (self_identity (w_self a)) = Some (kp_public_key kp)
           \<and> nt_find (w_neighbours w') (self_identity (w_self a))
               = Some (entry_of (own_beacon a) (ctx_elapsed_time_s (w_context w)) UNKNOWN_RSSI))"
proof -
  let ?b = "sign_beacon (Some (sg, op)) a (own_beacon a)" and ?id = "self_identity (w_self a)"
  note g = sign_beacon_genuine [OF assms(1,2,4,5)]
  have sent: "sent_packets (snd (emit_beacon (Some (sg, op)) dt (own_beacon a) (bs, a))) = sent_packets a @ [Beacon ?b]"
    using assms(6-8) by (simp add: emit_beacon_def Let_def)
  have wire: "decode_beacon (encode_beacon ?b MAX_FRAME_BYTES) = Some ?b"
    using decode_encode_beacon [OF g(1), of MAX_FRAME_BYTES "[]"] by (simp add: MAX_FRAME_BYTES_def wire_consts)
  let ?w1 = "w\<lparr>w_peer_keys := snd (try_pin ?id (kp_public_key kp) (w_peer_keys w))\<rparr>"
  have pin: "fst (try_pin ?id (kp_public_key kp) (w_peer_keys w))" "pk_find (w_peer_keys ?w1) ?id = Some (kp_public_key kp)"
    using key_registry.pin_new [OF assms(10,2)] key_registry.pin_known [OF assms(10,2)] assms(12) by auto
  have step: "receive_beacon (Some (sg, op)) own ?b (r, w) = rmap (Pair r) (accept_beacon ?b ?w1)"
    using assms(3,11) g(2-4) pin(1)
    by (cases "try_pin ?id (kp_public_key kp) (w_peer_keys w)") (simp add: receive_beacon_def pubkey_present_def)
  have "case receive_beacon (Some (sg, op)) own ?b (r, w) of
         Inl e \<Rightarrow> nt_upsert ?b (ctx_elapsed_time_s (w_context w)) UNKNOWN_RSSI (w_neighbours w) = Inl e
       | Inr (r', w') \<Rightarrow> r' = r \<and> pk_find (w_peer_keys w') ?id = Some (kp_public_key kp)
           \<and> nt_find (w_neighbours w') ?id = Some (entry_of (own_beacon a) (ctx_elapsed_time_s (w_context w)) UNKNOWN_RSSI)"
  proof (cases "accept_beacon ?b ?w1")
    case (Inl e)
    then show ?thesis unfolding step
      by (cases "nt_upsert ?b (ctx_elapsed_time_s (w_context w)) UNKNOWN_RSSI (w_neighbours w)") (simp_all add: accept_beacon_def)
  next
    case (Inr w')
    then show ?thesis unfolding step
      using accept_beacon_effect [OF Inr] assms(9) pin(2) g(4,5) by simp
  qed
  with sent wire show ?thesis by blast
qed

definition example_sender :: world where
  "example_sender = (world_new world_config_default port_unified)
     \<lparr>w_self := self_default example_peer, w_keypair := Some \<lparr>kp_public_key = replicate 32 5, kp_private_key = replicate 64 5\<rparr>\<rparr>"

theorem signed_beacon_link_witness:
  "\<exists>b w'. sent_packets (snd (emit_beacon (Some (toy_sign, toy_open)) f32_one (own_beacon example_sender)
        (beacon_sys_new world_config_default, example_sender))) = [Beacon b]
    \<and> receive_beacon (Some (toy_sign, toy_open)) hid_default b (0, example_receiver) = Inr (0, w')"
proof -
  let ?kp = "\<lparr>kp_public_key = replicate 32 5, kp_private_key = replicate 64 5\<rparr> :: keypair"
  let ?b = "sign_beacon (Some (toy_sign, toy_open)) example_sender (own_beacon example_sender)"
  have sender: "w_keypair example_sender = Some ?kp" "self_identity (w_self example_sender) = example_peer"
    "tp_beacon (w_port example_sender) = Some True" "sent_packets example_sender = []"
    by (simp_all add: example_sender_def self_default_def world_new_def port_unified_def port_none_def sent_packets_def)
  have h: "nacl_correct toy_sign toy_open (kp_private_key ?kp) (kp_public_key ?kp)"
    by (simp add: nacl_correct_def toy_sign_def toy_open_def)
  have due: "length (kp_public_key ?kp) = PUBLIC_KEY_LEN" "list_ex (\<lambda>b. b \<noteq> 0) (kp_public_key ?kp)" "hid_wf example_peer"
    "f32_lt f32_zero (bs_beacon_period_s (beacon_sys_new world_config_default))"
    "f32_le (bs_beacon_period_s (beacon_sys_new world_config_default))
       (f32_add (bs_time_since_last_beacon_s (beacon_sys_new world_config_default)) f32_one)"
    by code_simp+
  have up: "\<not> isl (nt_upsert ?b (ctx_elapsed_time_s (w_context example_receiver)) UNKNOWN_RSSI (w_neighbours example_receiver))"
    by code_simp
  have sent: "sent_packets (snd (emit_beacon (Some (toy_sign, toy_open)) f32_one (own_beacon example_sender)
        (beacon_sys_new world_config_default, example_sender))) = [Beacon ?b]"
    using due(4,5) sender(3,4) by (simp add: emit_beacon_def Let_def)
  have "case receive_beacon (Some (toy_sign, toy_open)) hid_default ?b (0, example_receiver) of
      Inl e \<Rightarrow> nt_upsert ?b (ctx_elapsed_time_s (w_context example_receiver)) UNKNOWN_RSSI (w_neighbours example_receiver) = Inl e
    | Inr (r', w') \<Rightarrow> r' = 0"
    using signed_beacon_link [OF h due(1,2) sender(1), of "beacon_sys_new world_config_default" f32_one
        example_receiver hid_default 0] sender due(3-5) example_receiver_facts sent
    by (auto split: sum.splits)
  with sent up show ?thesis by (auto split: sum.splits)
qed

text \<open>
  In a signed build, a beacon without a key is taken for every identity, also for one whose key is
  pinned, so no private key is needed to change what the swarm believes of a robot.
\<close>

theorem unsigned_beacon_bypasses_pin:
  assumes "sv_id b \<noteq> own" "\<not> pubkey_present b" "nt_inv (w_neighbours w)"
    and "nt_upsert b (ctx_elapsed_time_s (w_context w)) UNKNOWN_RSSI (w_neighbours w) = Inr t"
  shows "\<exists>w'. receive_beacon auth own b (r, w) = Inr (r, w')
     \<and> nt_find (w_neighbours w') (sv_id b) = Some (entry_of b (ctx_elapsed_time_s (w_context w)) UNKNOWN_RSSI)"
  using assms nt_upsert_find [OF assms(3,4)]
  by (auto simp: receive_beacon_def accept_beacon_def split: option.split)

text \<open>The keys that discovery messages advertise are pinned without a proof of possession.\<close>

theorem hello_pins_unverified_key:
  assumes "key_registry_inv (w_peer_keys w)" "pk_find (w_peer_keys w) (msg_sender m) = None"
    "msg_type m = DISCOVERY_HELLO" "extract_pubkey_from_payload m = Some key" "length key = PUBLIC_KEY_LEN"
  shows "pk_find (w_peer_keys (snd (snd (handle_message (Some nacl) m (ds, w))))) (msg_sender m) = Some key"
  using assms key_registry.pin_new [OF assms(1,5,2)] by (simp add: handle_message_def pin_advertised_def Let_def)

section \<open>Messages\<close>

lemma deliver_message_discovery:
  assumes "w_handlers w = [DiscoveryHandler]"
  shows "deliver_message auth m (ds, w) =
    (if is_discovery m then snd (handle_message auth m (ds, w))
     else (ds, set_self (\<lambda>s. s\<lparr>self_comm := snd (bq_push COMM_BUFFER_CAPACITY DropOldest m (self_comm s))\<rparr>) w))"
  using handle_message_claims [of auth m "(ds, w)"] handle_message_other [of m auth "(ds, w)"] assms
  by (cases "handle_message auth m (ds, w)") (auto simp: deliver_message_def)

text \<open>The state that the handler keeps of a message of its own.\<close>

lemma handle_message_counts:
  "ds_hellos_received (fst (snd (handle_message auth m (ds, w)))) = ds_hellos_received ds + (if msg_type m = DISCOVERY_HELLO then 1 else 0)"
  "ds_welcomes_received (fst (snd (handle_message auth m (ds, w))))
     = ds_welcomes_received ds + (if msg_type m = DISCOVERY_WELCOME then 1 else 0)"
  by (simp_all add: handle_message_def Let_def DISCOVERY_HELLO_def DISCOVERY_WELCOME_def)

text \<open>
  Claim C31.  Dispatch of inbound messages when discovery is the registered handler: of a batch of messages of any
  length, the discovery messages never reach the communication buffer, and of the others the buffer
  ends with the newest 16, in order of arrival; every HELLO is answered, in order, with one WELCOME to
  its sender, and nothing else is sent; the counters advance by the number of HELLOs and WELCOMEs.
\<close>

theorem discovery_intercepts:
  assumes "w_handlers w = [DiscoveryHandler]" "bq_inv COMM_BUFFER_CAPACITY (self_comm (w_self w))" "tp_message (w_port w) = Some True"
  shows "case fold (deliver_message auth) ms (ds, w) of (ds', w') \<Rightarrow>
      bq_list COMM_BUFFER_CAPACITY (self_comm (w_self w')) =
        (let arrived = bq_list COMM_BUFFER_CAPACITY (self_comm (w_self w)) @ filter (\<lambda>m. \<not> is_discovery m) ms
         in drop (length arrived - COMM_BUFFER_CAPACITY) arrived)
    \<and> sent_packets w' = sent_packets w @
        map (\<lambda>m. Msg (welcome_message auth (ds_self_id ds) m w)) (filter (\<lambda>m. msg_type m = DISCOVERY_HELLO) ms)
    \<and> ds_hellos_received ds' = ds_hellos_received ds + of_nat (length (filter (\<lambda>m. msg_type m = DISCOVERY_HELLO) ms))
    \<and> ds_welcomes_received ds' = ds_welcomes_received ds + of_nat (length (filter (\<lambda>m. msg_type m = DISCOVERY_WELCOME) ms))"
proof -
  let ?push = "bq_push COMM_BUFFER_CAPACITY DropOldest"
  have "self_comm (w_self (snd (fold (deliver_message auth) ms (ds, w)))) = push_all ?push (filter (\<lambda>m. \<not> is_discovery m) ms) (self_comm (w_self w))
    \<and> sent_packets (snd (fold (deliver_message auth) ms (ds, w))) = sent_packets w @
        map (\<lambda>m. Msg (welcome_message auth (ds_self_id ds) m w)) (filter (\<lambda>m. msg_type m = DISCOVERY_HELLO) ms)
    \<and> ds_hellos_received (fst (fold (deliver_message auth) ms (ds, w))) = ds_hellos_received ds + of_nat (length (filter (\<lambda>m. msg_type m = DISCOVERY_HELLO) ms))
    \<and> ds_welcomes_received (fst (fold (deliver_message auth) ms (ds, w))) = ds_welcomes_received ds + of_nat (length (filter (\<lambda>m. msg_type m = DISCOVERY_WELCOME) ms))"
    using assms(1,3)
  proof (induction ms arbitrary: ds w)
    case (Cons m ms)
    show ?case
    proof (cases "is_discovery m")
      case True
      obtain ds1 w1 where h: "snd (handle_message auth m (ds, w)) = (ds1, w1)" by fastforce
      have f: "w_handlers w1 = [DiscoveryHandler]" "tp_message (w_port w1) = Some True" "self_comm (w_self w1) = self_comm (w_self w)"
        "ds_self_id ds1 = ds_self_id ds" "w_keypair w1 = w_keypair w"
        using handle_message_frame [of auth m ds w] h Cons.prems by simp_all
      have wm: "welcome_message auth x y w1 = welcome_message auth x y w" for x y by (rule welcome_message_cong [OF f(5)])
      from True Cons.IH [OF f(1,2), of ds1] handle_message_sends [of auth m ds w] handle_message_counts [of auth m ds w]
      show ?thesis using h f wm Cons.prems by (auto simp: deliver_message_discovery)
    next
      case False
      let ?w1 = "set_self (\<lambda>s. s\<lparr>self_comm := snd (?push m (self_comm s))\<rparr>) w"
      have wm: "welcome_message auth x y ?w1 = welcome_message auth x y w" for x y by (rule welcome_message_cong) simp
      have "sent_packets ?w1 = sent_packets w" by (simp add: sent_packets_def)
      with False Cons.IH [of ?w1 ds] Cons.prems wm show ?thesis
        by (auto simp: deliver_message_discovery push_all_def is_discovery_def)
    qed
  qed (simp add: push_all_def)
  then show ?thesis
    using comm_buffer.push_all_keeps_newest [OF assms(2), of "filter (\<lambda>m. \<not> is_discovery m) ms"]
    by (cases "fold (deliver_message auth) ms (ds, w)") (simp add: Let_def)
qed

theorem discovery_intercepts_witness:
  "bq_list 16 (self_comm (w_self (snd (fold (deliver_message None) [message_default\<lparr>msg_type := DISCOVERY_HELLO\<rparr>, message_default]
     (discovery_new discovery_params_default (world_new world_config_default port_unified)))))) = [message_default]"
proof -
  let ?w = "snd (discovery_new discovery_params_default (world_new world_config_default port_unified))"
    and ?ds = "fst (discovery_new discovery_params_default (world_new world_config_default port_unified))"
    and ?ms = "[message_default\<lparr>msg_type := DISCOVERY_HELLO\<rparr>, message_default]"
  have w: "w_handlers ?w = [DiscoveryHandler]" "tp_message (w_port ?w) = Some True" "self_comm (w_self ?w) = bq_new 16 message_default"
    by (simp_all add: discovery_new_def register_message_handler_def world_new_def port_unified_def self_default_def)
  have "filter (\<lambda>m. \<not> is_discovery m) ?ms = [message_default]" by code_simp
  with discovery_intercepts [of ?w ?ms None ?ds] w bq_new_inv [of 16 message_default] bq_new_list [of 16 message_default]
  show ?thesis by (cases "fold (deliver_message None) ?ms (?ds, ?w)") (simp add: Let_def)
qed

end
