(* ===== verification/Actions.thy ===== *)
theory Actions
  imports World_State
begin

text \<open>
  The action pipeline: \<open>ActionValidatorSystem\<close> (src/behaviour/action_validator_system.cpp) and the
  built-in handlers (src/behaviour/builtin_action_handlers.cpp).

  The validator pops the action queue until it is empty and copies the permitted actions to the
  \<open>validated\<close> array; the handlers read that array.  The loop of pops ends because every pop shrinks
  the queue.  The array is indexed without a check by the code; \<open>actions_wf\<close> is the invariant that
  keeps the indices in range, and the validator maintains it.
\<close>

section \<open>The validator\<close>

definition action_name :: "u32 \<Rightarrow> string" where
  "action_name t =
     (if t = ACTION_IDLE then ''IDLE'' else if t = ACTION_MOVE then ''MOVE'' else if t = ACTION_HOVER then ''HOVER''
      else if t = ACTION_TRANSMIT then ''TRANSMIT'' else if t = ACTION_SCAN then ''SCAN''
      else if t = ACTION_REGROUP then ''REGROUP'' else if t = ACTION_FOLLOW then ''FOLLOW''
      else if ACTION_CUSTOM \<le> t then ''custom'' else ''reserved'')"

definition upd_actions :: "(action_queue \<Rightarrow> action_queue) \<Rightarrow> world \<Rightarrow> world" where
  "upd_actions f w = set_self (\<lambda>s. s\<lparr>self_actions := f (self_actions s)\<rparr>) w"

definition rejection_event :: "u64 \<Rightarrow> action \<Rightarrow> trace_event" where
  "rejection_event tick a =
     TraceEvent Warn ''action_rejected''
       [FStr ''action_type'' (action_name (act_type a)), FStr ''reason'' ''permission_mask'', FU64 ''tick'' tick]"

text \<open>The body of the loop, for one popped action.\<close>

definition validate_action :: "action \<Rightarrow> world \<Rightarrow> world" where
  "validate_action a w =
     (let tick = ctx_tick_count (w_context w) in
      if allows (self_permission (w_self w)) (act_type a) then
        if aq_validated_count (self_actions (w_self w)) < of_nat ACTION_QUEUE_CAPACITY
        then upd_actions (\<lambda>aq. aq\<lparr>aq_validated := (aq_validated aq)[unat (aq_validated_count aq) := a],
                                  aq_validated_count := aq_validated_count aq + 1\<rparr>) w
        else w
      else
        emit_trace (rejection_event tick a)
          (upd_actions (\<lambda>aq. aq\<lparr>aq_permission_rejections_total := aq_permission_rejections_total aq + 1,
                                aq_last_rejection_tick := tick\<rparr>) w))"

abbreviation queue_of :: "world \<Rightarrow> action bqueue" where
  "queue_of w \<equiv> aq_queue (self_actions (w_self w))"

definition set_queue :: "action bqueue \<Rightarrow> world \<Rightarrow> world" where
  "set_queue q w = upd_actions (\<lambda>aq. aq\<lparr>aq_queue := q\<rparr>) w"

lemma upd_actions_frame [simp, frame_simps]:
  "self_actions (w_self (upd_actions f w)) = f (self_actions (w_self w))"
  "self_permission (w_self (upd_actions f w)) = self_permission (w_self w)"
  "self_velocity (w_self (upd_actions f w)) = self_velocity (w_self w)"
  "self_position (w_self (upd_actions f w)) = self_position (w_self w)"
  "self_identity (w_self (upd_actions f w)) = self_identity (w_self w)"
  "w_context (upd_actions f w) = w_context w" "w_sink (upd_actions f w) = w_sink w" "w_port (upd_actions f w) = w_port w"
  "w_clock_offset_s (upd_actions f w) = w_clock_offset_s w" "w_initialized (upd_actions f w) = w_initialized w"
  by (simp_all add: upd_actions_def)

lemma set_queue_frame [simp, frame_simps]:
  "queue_of (set_queue q w) = q" "self_permission (w_self (set_queue q w)) = self_permission (w_self w)"
  "w_context (set_queue q w) = w_context w"
  by (simp_all add: set_queue_def)

lemma validate_action_frame [simp, frame_simps]:
  "queue_of (validate_action a w) = queue_of w" "w_context (validate_action a w) = w_context w"
  "self_permission (w_self (validate_action a w)) = self_permission (w_self w)"
  "self_velocity (w_self (validate_action a w)) = self_velocity (w_self w)"
  "self_position (w_self (validate_action a w)) = self_position (w_self w)"
  "self_identity (w_self (validate_action a w)) = self_identity (w_self w)"
  "w_port (validate_action a w) = w_port w"
  by (simp_all add: validate_action_def Let_def)

text \<open>\<open>while (auto popped = aq.queue.pop())\<close>.\<close>

function validator_loop :: "world \<Rightarrow> world" where
  "validator_loop w =
     (case bq_pop ACTION_QUEUE_CAPACITY (queue_of w) of
        (None, q) \<Rightarrow> set_queue q w
      | (Some a, q) \<Rightarrow> validator_loop (validate_action a (set_queue q w)))"
  by pat_completeness auto
termination
  by (relation "measure (\<lambda>w. bq_size (queue_of w))") (auto simp: bq_pop_def split: if_splits)

declare validator_loop.simps [simp del]

definition validator_tick :: "world \<Rightarrow> world" where
  "validator_tick w = validator_loop (upd_actions (\<lambda>aq. aq\<lparr>aq_validated_count := 0\<rparr>) w)"

section \<open>The handlers\<close>

text \<open>The entries the loop \<open>for (i = 0; i < aq.validated_count; ++i)\<close> visits.\<close>

definition validated_actions :: "world \<Rightarrow> action list" where
  "validated_actions w =
     map (\<lambda>i. aq_validated (self_actions (w_self w)) ! i) [0..<unat (aq_validated_count (self_actions (w_self w)))]"

definition move_velocity :: "action \<Rightarrow> velocity" where
  "move_velocity a =
     \<lparr>vel_x = read_f32_le (act_params a), vel_y = read_f32_le (drop 4 (act_params a)), vel_z = read_f32_le (drop 8 (act_params a))\<rparr>"

definition move_tick :: "u64 \<times> world \<Rightarrow> u64 \<times> world" where
  "move_tick hw =
     fold (\<lambda>a (handled, w).
             if act_type a \<noteq> ACTION_MOVE then (handled, w)
             else (handled + 1, set_self (\<lambda>s. s\<lparr>self_velocity := move_velocity a\<rparr>) w))
       (validated_actions (snd hw)) hw"

text \<open>The message of a \<open>TRANSMIT\<close> action: type and sequence number from the first eight parameter bytes,
  the other 56 as the start of the payload.\<close>

definition transmit_message :: "world \<Rightarrow> action \<Rightarrow> message" where
  "transmit_message w a =
     (let copy = 64 - 8 in
      message_default\<lparr>msg_sender := self_identity (w_self w), msg_recipient := act_target a,
        msg_type := read_u32_le (act_params a), msg_seq := read_u32_le (drop 4 (act_params a)),
        msg_timestamp_s := synced_time_s w,
        msg_payload := take copy (drop 8 (act_params a)) @ drop copy (msg_payload message_default)\<rparr>)"

definition transmit_tick :: "u64 \<times> world \<Rightarrow> u64 \<times> world" where
  "transmit_tick hw =
     (if tp_message (w_port (snd hw)) \<noteq> Some True then hw
      else
        fold (\<lambda>a (handled, w).
                if act_type a \<noteq> ACTION_TRANSMIT then (handled, w)
                else (handled + 1, send_packet (Msg (transmit_message w a)) w))
          (validated_actions (snd hw)) hw)"

definition hover_tick :: "u64 \<times> world \<Rightarrow> u64 \<times> world" where
  "hover_tick hw =
     fold (\<lambda>a (handled, w).
             if act_type a = ACTION_IDLE \<or> act_type a = ACTION_HOVER then (handled + 1, w) else (handled, w))
       (validated_actions (snd hw)) hw"

section \<open>What the validator lets through\<close>

definition actions_wf :: "action_queue \<Rightarrow> bool" where
  "actions_wf aq \<longleftrightarrow> bq_inv ACTION_QUEUE_CAPACITY (aq_queue aq) \<and> length (aq_validated aq) = ACTION_QUEUE_CAPACITY
     \<and> unat (aq_validated_count aq) \<le> ACTION_QUEUE_CAPACITY"

definition queued :: "world \<Rightarrow> action list" where
  "queued w = bq_list ACTION_QUEUE_CAPACITY (queue_of w)"

definition permitted :: "world \<Rightarrow> action \<Rightarrow> bool" where
  "permitted w a \<longleftrightarrow> allows (self_permission (w_self w)) (act_type a)"

lemma upd_actions_upd: "upd_actions f (upd_actions g w) = upd_actions (f \<circ> g) w"
  by (simp add: upd_actions_def set_self_def)

lemma emit_upd_actions: "emit_trace e (upd_actions f w) = upd_actions f (emit_trace e w)"
  by (simp add: upd_actions_def set_self_def emit_trace_def split: option.split)

lemma upd_actions_cong: "f (self_actions (w_self w)) = g (self_actions (w_self w)) \<Longrightarrow> upd_actions f w = upd_actions g w"
  by (simp add: upd_actions_def set_self_def)

lemma set_queue_validate: "validate_action a (set_queue q w) = set_queue q (validate_action a w)"
  by (auto simp: validate_action_def set_queue_def Let_def upd_actions_upd emit_upd_actions [symmetric]
      intro!: arg_cong [where f = "emit_trace _"] upd_actions_cong)

lemma set_queue_fold: "fold validate_action as (set_queue q w) = set_queue q (fold validate_action as w)"
  by (induction as arbitrary: w) (simp_all add: set_queue_validate)

lemma set_queue_set_queue: "set_queue q (set_queue q' w) = set_queue q w"
  by (simp add: set_queue_def upd_actions_upd o_def)

lemma validator_loop_fold:
  assumes "bq_inv ACTION_QUEUE_CAPACITY (queue_of w)"
  shows "\<exists>q. validator_loop w = set_queue q (fold validate_action (queued w) w) \<and> bq_inv ACTION_QUEUE_CAPACITY q \<and> bq_empty q"
  using assms
proof (induction "queued w" arbitrary: w)
  case Nil
  then have "bq_pop ACTION_QUEUE_CAPACITY (queue_of w) = (None, queue_of w)" "bq_size (queue_of w) = 0"
    by (simp_all add: queued_def bq_pop_def eq_commute [of "[]"])
  with Nil show ?case by (subst validator_loop.simps) (auto simp: queued_def bq_empty_def)
next
  case (Cons a as)
  then obtain q where q: "bq_pop ACTION_QUEUE_CAPACITY (queue_of w) = (Some a, q)" "bq_list ACTION_QUEUE_CAPACITY q = as"
      "bq_inv ACTION_QUEUE_CAPACITY q"
    using action_queue.pop_Cons [of "queue_of w" a as] by (auto simp: queued_def)
  let ?w = "validate_action a (set_queue q w)"
  have "as = queued ?w" "bq_inv ACTION_QUEUE_CAPACITY (queue_of ?w)" using q by (simp_all add: queued_def)
  from Cons.hyps(1) [OF this] obtain q' where "validator_loop ?w = set_queue q' (fold validate_action as ?w)"
      "bq_inv ACTION_QUEUE_CAPACITY q'" "bq_empty q'" using \<open>as = queued ?w\<close> by metis
  moreover have "validator_loop w = validator_loop ?w" using q(1) by (subst validator_loop.simps) simp
  moreover have "queued w = a # as" using Cons.hyps(2) by simp
  ultimately show ?case by (auto simp: set_queue_validate set_queue_fold set_queue_set_queue)
qed

lemma fold_frame:
  assumes "\<And>a w. P (validate_action a w) = P w"
  shows "P (fold validate_action as w) = P w"
  using assms by (induction as arbitrary: w) simp_all

lemmas fold_validate_frame [simp] =
  fold_frame [of "\<lambda>w. self_permission (w_self w)", OF validate_action_frame(3)]
  fold_frame [of w_context, OF validate_action_frame(2)]
  fold_frame [of "\<lambda>w. self_velocity (w_self w)", OF validate_action_frame(4)]
  fold_frame [of "\<lambda>w. self_position (w_self w)", OF validate_action_frame(5)]
  fold_frame [of "\<lambda>w. self_identity (w_self w)", OF validate_action_frame(6)]
  fold_frame [of w_port, OF validate_action_frame(7)]


lemma permitted_frame [simp]:
  "permitted (validate_action a w) = permitted w" "permitted (set_queue q w) = permitted w"
  "permitted (upd_actions f w) = permitted w"
  by (simp_all add: permitted_def fun_eq_iff set_queue_def)

abbreviation aq_of :: "world \<Rightarrow> action_queue" where
  "aq_of w \<equiv> self_actions (w_self w)"

text \<open>One iteration, on each of its branches.\<close>

lemma validate_permitted:
  assumes "permitted w a" "length (aq_validated (aq_of w)) = ACTION_QUEUE_CAPACITY"
    "unat (aq_validated_count (aq_of w)) < ACTION_QUEUE_CAPACITY"
  shows "unat (aq_validated_count (aq_of (validate_action a w))) = Suc (unat (aq_validated_count (aq_of w)))"
    and "length (aq_validated (aq_of (validate_action a w))) = ACTION_QUEUE_CAPACITY"
    and "validated_actions (validate_action a w) = validated_actions w @ [a]"
    and "aq_permission_rejections_total (aq_of (validate_action a w)) = aq_permission_rejections_total (aq_of w)"
    and "aq_last_rejection_tick (aq_of (validate_action a w)) = aq_last_rejection_tick (aq_of w)"
    and "w_sink (validate_action a w) = w_sink w"
proof -
  let ?n = "aq_validated_count (aq_of w)"
  have lt: "?n < 8" using assms(3) by (simp add: word_less_nat_alt)
  have step: "validate_action a w = upd_actions (\<lambda>aq. aq\<lparr>aq_validated := (aq_validated aq)[unat (aq_validated_count aq) := a],
      aq_validated_count := aq_validated_count aq + 1\<rparr>) w"
    using assms(1) lt by (simp add: validate_action_def permitted_def)
  show cnt: "unat (aq_validated_count (aq_of (validate_action a w))) = Suc (unat ?n)"
    using assms(3) by (simp add: step) (subst unat_word_ariths(1), simp)
  show "length (aq_validated (aq_of (validate_action a w))) = ACTION_QUEUE_CAPACITY" using assms(2) by (simp add: step)
  show "validated_actions (validate_action a w) = validated_actions w @ [a]"
    using assms(2,3) cnt by (simp add: validated_actions_def) (simp add: step)
qed (use assms in \<open>simp_all add: validate_action_def permitted_def\<close>)

lemma validate_rejected:
  assumes "\<not> permitted w a"
  shows "aq_validated (aq_of (validate_action a w)) = aq_validated (aq_of w)"
    and "aq_validated_count (aq_of (validate_action a w)) = aq_validated_count (aq_of w)"
    and "aq_permission_rejections_total (aq_of (validate_action a w)) = aq_permission_rejections_total (aq_of w) + 1"
    and "aq_last_rejection_tick (aq_of (validate_action a w)) = ctx_tick_count (w_context w)"
    and "w_sink (validate_action a w) = map_option (\<lambda>log. log @ [rejection_event (ctx_tick_count (w_context w)) a]) (w_sink w)"
  using assms by (simp_all add: validate_action_def permitted_def Let_def)

lemma fold_validate:
  assumes "length (aq_validated (aq_of w)) = ACTION_QUEUE_CAPACITY"
    "unat (aq_validated_count (aq_of w)) + length (filter (permitted w) as) \<le> ACTION_QUEUE_CAPACITY"
  shows "length (aq_validated (aq_of (fold validate_action as w))) = ACTION_QUEUE_CAPACITY
    \<and> unat (aq_validated_count (aq_of (fold validate_action as w)))
        = unat (aq_validated_count (aq_of w)) + length (filter (permitted w) as)
    \<and> validated_actions (fold validate_action as w) = validated_actions w @ filter (permitted w) as
    \<and> aq_permission_rejections_total (aq_of (fold validate_action as w))
        = aq_permission_rejections_total (aq_of w) + of_nat (length (filter (\<lambda>a. \<not> permitted w a) as))
    \<and> aq_last_rejection_tick (aq_of (fold validate_action as w))
        = (if list_all (permitted w) as then aq_last_rejection_tick (aq_of w) else ctx_tick_count (w_context w))
    \<and> w_sink (fold validate_action as w)
        = map_option (\<lambda>log. log @ map (rejection_event (ctx_tick_count (w_context w))) (filter (\<lambda>a. \<not> permitted w a) as)) (w_sink w)"
  using assms
proof (induction as arbitrary: w)
  case (Cons a as)
  show ?case
  proof (cases "permitted w a")
    case True
    with Cons.prems have lt: "unat (aq_validated_count (aq_of w)) < ACTION_QUEUE_CAPACITY" by simp
    note v = validate_permitted [OF True Cons.prems(1) lt]
    from Cons.IH [of "validate_action a w"] Cons.prems True v show ?thesis by simp
  next
    case False
    note v = validate_rejected [OF False]
    have va: "validated_actions (validate_action a w) = validated_actions w" by (simp add: validated_actions_def v)
    from Cons.IH [of "validate_action a w"] Cons.prems False v va show ?thesis
      by (simp add: option.map_comp o_def add.assoc) 
  qed
qed (simp add: option.map_ident)


text \<open>The whole tick of the validator.\<close>

lemma validator_tick_effect:
  assumes "actions_wf (aq_of w)"
  shows "actions_wf (aq_of (validator_tick w)) \<and> queued (validator_tick w) = []
    \<and> validated_actions (validator_tick w) = filter (permitted w) (queued w)
    \<and> aq_permission_rejections_total (aq_of (validator_tick w))
        = aq_permission_rejections_total (aq_of w) + of_nat (length (filter (\<lambda>a. \<not> permitted w a) (queued w)))
    \<and> aq_last_rejection_tick (aq_of (validator_tick w))
        = (if list_all (permitted w) (queued w) then aq_last_rejection_tick (aq_of w) else ctx_tick_count (w_context w))
    \<and> w_sink (validator_tick w)
        = map_option (\<lambda>log. log @ map (rejection_event (ctx_tick_count (w_context w))) (filter (\<lambda>a. \<not> permitted w a) (queued w))) (w_sink w)"
proof -
  let ?w0 = "upd_actions (\<lambda>aq. aq\<lparr>aq_validated_count := 0\<rparr>) w"
  let ?w1 = "fold validate_action (queued w) ?w0"
  have q0: "queued ?w0 = queued w" and inv: "bq_inv ACTION_QUEUE_CAPACITY (queue_of ?w0)"
    and len: "length (aq_validated (aq_of ?w0)) = ACTION_QUEUE_CAPACITY"
    using assms by (simp_all add: queued_def actions_wf_def)
  obtain q where q: "validator_tick w = set_queue q ?w1" "bq_inv ACTION_QUEUE_CAPACITY q" "bq_empty q"
    using validator_loop_fold [OF inv] q0 by (auto simp: validator_tick_def)
  have "length (queued w) \<le> ACTION_QUEUE_CAPACITY" using assms by (simp add: queued_def actions_wf_def bq_inv_def)
  then have room: "unat (aq_validated_count (aq_of ?w0)) + length (filter (permitted ?w0) (queued w)) \<le> ACTION_QUEUE_CAPACITY"
    by (simp add: le_trans [OF length_filter_le])
  note f = fold_validate [OF len room, simplified]
  have va: "validated_actions (set_queue q v) = validated_actions v" "aq_of (set_queue q v) = (aq_of v)\<lparr>aq_queue := q\<rparr>"
    "w_sink (set_queue q v) = w_sink v" for v
    by (simp_all add: validated_actions_def set_queue_def)
  have "length (filter (permitted w) (queued w)) \<le> ACTION_QUEUE_CAPACITY" using room by simp
  then show ?thesis using f q by (simp add: va actions_wf_def queued_def bq_empty_def) (simp add: validated_actions_def)
qed

lemma validator_loop_keeps:
  assumes "\<And>a w. P (validate_action a w) = P w" "\<And>q w. P (set_queue q w) = P w"
  shows "P (validator_loop w) = P w"
  by (induction w rule: validator_loop.induct) (subst validator_loop.simps, auto simp: assms split: prod.split option.split)

lemma validator_tick_frame [simp]:
  "self_velocity (w_self (validator_tick w)) = self_velocity (w_self w)" "w_port (validator_tick w) = w_port w"
  "self_identity (w_self (validator_tick w)) = self_identity (w_self w)" "w_context (validator_tick w) = w_context w"
  "self_position (w_self (validator_tick w)) = self_position (w_self w)"
  "w_clock_offset_s (validator_tick w) = w_clock_offset_s w" "self_permission (w_self (validator_tick w)) = self_permission (w_self w)"
proof -
  note loop = validator_loop_keeps
  have clock: "w_clock_offset_s (validate_action a w) = w_clock_offset_s w" for a w
    by (simp add: validate_action_def Let_def emit_trace_def split: option.split)
  show "self_velocity (w_self (validator_tick w)) = self_velocity (w_self w)"
    by (simp add: validator_tick_def loop [of "\<lambda>w. self_velocity (w_self w)"] set_queue_def)
  show "w_port (validator_tick w) = w_port w"
    by (simp add: validator_tick_def loop [of w_port] set_queue_def)
  show "self_identity (w_self (validator_tick w)) = self_identity (w_self w)"
    by (simp add: validator_tick_def loop [of "\<lambda>w. self_identity (w_self w)"] set_queue_def)
  show "w_context (validator_tick w) = w_context w"
    by (simp add: validator_tick_def loop [of w_context] set_queue_def)
  show "self_position (w_self (validator_tick w)) = self_position (w_self w)"
    by (simp add: validator_tick_def loop [of "\<lambda>w. self_position (w_self w)"] set_queue_def)
  show "w_clock_offset_s (validator_tick w) = w_clock_offset_s w"
    by (simp add: validator_tick_def loop [of w_clock_offset_s] clock set_queue_def)
  show "self_permission (w_self (validator_tick w)) = self_permission (w_self w)"
    by (simp add: validator_tick_def loop [of "\<lambda>w. self_permission (w_self w)"] set_queue_def)
qed

section \<open>What the handlers do\<close>

lemma transmit_message_send [simp]: "transmit_message (send_packet p w) = transmit_message w"
  by (simp add: transmit_message_def fun_eq_iff synced_time_s_def)

lemma move_tick_effect:
  "self_velocity (w_self (snd (move_tick (h, w)))) =
     (let ms = filter (\<lambda>a. act_type a = ACTION_MOVE) (validated_actions w)
      in if ms = [] then self_velocity (w_self w) else move_velocity (last ms))
   \<and> fst (move_tick (h, w)) = h + of_nat (length (filter (\<lambda>a. act_type a = ACTION_MOVE) (validated_actions w)))"
proof -
  let ?f = "\<lambda>a (handled, w). if act_type a \<noteq> ACTION_MOVE then (handled, w)
     else (handled + 1, set_self (\<lambda>s. s\<lparr>self_velocity := move_velocity a\<rparr>) w)"
  have "self_velocity (w_self (snd (fold ?f as (h, w)))) =
     (let ms = filter (\<lambda>a. act_type a = ACTION_MOVE) as in if ms = [] then self_velocity (w_self w) else move_velocity (last ms))
     \<and> fst (fold ?f as (h, w)) = h + of_nat (length (filter (\<lambda>a. act_type a = ACTION_MOVE) as))" for as h w
    by (induction as arbitrary: h w) (simp_all add: Let_def add.assoc)
  then show ?thesis by (simp add: move_tick_def)
qed

lemma move_tick_frame [simp]:
  "w_port (snd (move_tick (h, w))) = w_port w" "self_identity (w_self (snd (move_tick (h, w)))) = self_identity (w_self w)"
  "w_context (snd (move_tick (h, w))) = w_context w" "w_clock_offset_s (snd (move_tick (h, w))) = w_clock_offset_s w"
  "aq_of (snd (move_tick (h, w))) = aq_of w"
proof -
  let ?f = "\<lambda>a (handled, w). if act_type a \<noteq> ACTION_MOVE then (handled, w)
     else (handled + 1, set_self (\<lambda>s. s\<lparr>self_velocity := move_velocity a\<rparr>) w)"
  have "w_port (snd (fold ?f as (h, w))) = w_port w \<and> self_identity (w_self (snd (fold ?f as (h, w)))) = self_identity (w_self w)
    \<and> w_context (snd (fold ?f as (h, w))) = w_context w \<and> w_clock_offset_s (snd (fold ?f as (h, w))) = w_clock_offset_s w
    \<and> aq_of (snd (fold ?f as (h, w))) = aq_of w" for as and h :: u64 and w
    by (induction as arbitrary: h w) simp_all
  then show "w_port (snd (move_tick (h, w))) = w_port w" "self_identity (w_self (snd (move_tick (h, w)))) = self_identity (w_self w)"
    "w_context (snd (move_tick (h, w))) = w_context w" "w_clock_offset_s (snd (move_tick (h, w))) = w_clock_offset_s w"
    "aq_of (snd (move_tick (h, w))) = aq_of w" by (simp_all add: move_tick_def)
qed

lemma transmit_tick_effect:
  assumes "tp_message (w_port w) = Some True"
  shows "sent_packets (snd (transmit_tick (h, w))) =
     sent_packets w @ map (\<lambda>a. Msg (transmit_message w a)) (filter (\<lambda>a. act_type a = ACTION_TRANSMIT) (validated_actions w))"
proof -
  let ?f = "\<lambda>a (handled, w). if act_type a \<noteq> ACTION_TRANSMIT then (handled, w)
     else (handled + 1, send_packet (Msg (transmit_message w a)) w)"
  have "sent_packets (snd (fold ?f as (h, w))) =
     sent_packets w @ map (\<lambda>a. Msg (transmit_message w a)) (filter (\<lambda>a. act_type a = ACTION_TRANSMIT) as)" for as and h :: u64 and w
    by (induction as arbitrary: h w) simp_all
  then show ?thesis using assms by (simp add: transmit_tick_def)
qed


text \<open>The validator followed by the two handlers that act on the robot.\<close>

lemma action_pipeline:
  assumes "actions_wf (self_actions (w_self w))"
  shows "let w1 = snd (move_tick (h, validator_tick w)); w2 = snd (transmit_tick (k, w1));
             moves = filter (\<lambda>a. permitted w a \<and> act_type a = ACTION_MOVE) (queued w);
             transmits = filter (\<lambda>a. permitted w a \<and> act_type a = ACTION_TRANSMIT) (queued w)
    in self_velocity (w_self w1) = (if moves = [] then self_velocity (w_self w) else move_velocity (last moves))
     \<and> sent_packets w2 = sent_packets w @
         (if tp_message (w_port w) = Some True then map (\<lambda>a. Msg (transmit_message w a)) transmits else [])"
proof -
  let ?v = "validator_tick w"
  let ?w1 = "snd (move_tick (h, ?v))"
  have va: "validated_actions ?v = filter (permitted w) (queued w)" using validator_tick_effect [OF assms] by blast
  have va1: "validated_actions ?w1 = validated_actions ?v" by (simp add: validated_actions_def)
  have msg: "transmit_message ?w1 = transmit_message w" by (simp add: transmit_message_def fun_eq_iff synced_time_s_def)
  have sent: "sent_packets ?w1 = sent_packets w" by (simp add: sent_packets_def)
  have "self_velocity (w_self ?w1) = (let moves = filter (\<lambda>a. permitted w a \<and> act_type a = ACTION_MOVE) (queued w) in
      if moves = [] then self_velocity (w_self w) else move_velocity (last moves))"
    using move_tick_effect [of h ?v] by (simp add: va conj_commute Let_def)
  moreover have "sent_packets (snd (transmit_tick (k, ?w1))) = sent_packets w @
      (if tp_message (w_port w) = Some True
       then map (\<lambda>a. Msg (transmit_message w a)) (filter (\<lambda>a. permitted w a \<and> act_type a = ACTION_TRANSMIT) (queued w)) else [])"
  proof (cases "tp_message (w_port w) = Some True")
    case True
    then show ?thesis using transmit_tick_effect [of ?w1 k] by (simp add: va1 va msg sent conj_commute)
  next
    case False
    then show ?thesis by (simp add: transmit_tick_def sent)
  qed
  ultimately show ?thesis by (simp add: Let_def)
qed

section \<open>Properties\<close>

text \<open>
  Claim C20.  A tick of \<open>ActionValidatorSystem\<close> empties the action queue.  The \<open>validated\<close> buffer then holds
  exactly the queued actions that the permission mask allows, in the order they were queued, with the
  count inside the bounds of the array.  Each other action is counted in \<open>permission_rejections_total\<close>
  (modulo \<open>2^32\<close>), stamps \<open>last_rejection_tick\<close> with the tick, and emits one \<open>action_rejected\<close> event if
  there is a trace sink.
\<close>

theorem validator_exact:
  assumes "actions_wf (self_actions (w_self w))"
  shows "let w' = validator_tick w; rejected = filter (\<lambda>a. \<not> permitted w a) (queued w);
             aq = self_actions (w_self w); aq' = self_actions (w_self w'); tick = ctx_tick_count (w_context w)
    in actions_wf aq' \<and> queued w' = [] \<and> validated_actions w' = filter (permitted w) (queued w)
     \<and> aq_permission_rejections_total aq' = aq_permission_rejections_total aq + of_nat (length rejected)
     \<and> aq_last_rejection_tick aq' = (if rejected = [] then aq_last_rejection_tick aq else tick)
     \<and> w_sink w' = map_option (\<lambda>log. log @ map (rejection_event tick) rejected) (w_sink w)"
  using validator_tick_effect [OF assms] by (auto simp: Let_def filter_empty_conv list_all_iff)

definition example_action :: "u32 \<Rightarrow> action" where
  "example_action t = action_default\<lparr>act_type := t\<rparr>"

definition example_world :: world where
  "example_world =
     (let q = push_all (bq_push 8 DropNewest) [example_action ACTION_TRANSMIT, example_action ACTION_SCAN,
                example_action ACTION_MOVE] (bq_new 8 action_default)
      in set_queue q (set_self (\<lambda>s. s\<lparr>self_permission := \<lparr>allowed_builtins = 0xA, allow_user_actions = False\<rparr>\<rparr>)
           (world_new world_config_default port_unified)))"

lemma example_world_facts:
  "actions_wf (self_actions (w_self example_world))"
  "queued example_world = [example_action ACTION_TRANSMIT, example_action ACTION_SCAN, example_action ACTION_MOVE]"
  "tp_message (w_port example_world) = Some True"
  "filter (permitted example_world) [example_action ACTION_TRANSMIT, example_action ACTION_SCAN, example_action ACTION_MOVE]
     = [example_action ACTION_TRANSMIT, example_action ACTION_MOVE]"
  by code_simp+

theorem validator_exact_witness:
  "queued (validator_tick example_world) = [] \<and>
   validated_actions (validator_tick example_world) = [example_action ACTION_TRANSMIT, example_action ACTION_MOVE]"
  using validator_exact [OF example_world_facts(1)] example_world_facts(2,4) by (simp add: Let_def)

text \<open>
  Claim C34.  Only permitted actions take effect: after the validator, \<open>MoveActionHandler\<close> sets the velocity from
  the last permitted \<open>MOVE\<close> in the queue and keeps it if there is none, and \<open>TransmitActionHandler\<close>
  hands to a transport that supports messages exactly one message per permitted \<open>TRANSMIT\<close>, in queue
  order, stamped with the robot's identity and synchronised time; without such a transport nothing is
  sent.
\<close>

theorem only_permitted_actions_take_effect:
  assumes "actions_wf (self_actions (w_self w))"
  shows "let w1 = snd (move_tick (h, validator_tick w)); w2 = snd (transmit_tick (k, w1));
             moves = filter (\<lambda>a. permitted w a \<and> act_type a = ACTION_MOVE) (queued w);
             transmits = filter (\<lambda>a. permitted w a \<and> act_type a = ACTION_TRANSMIT) (queued w)
    in self_velocity (w_self w1) = (if moves = [] then self_velocity (w_self w) else move_velocity (last moves))
     \<and> sent_packets w2 = sent_packets w @
         (if tp_message (w_port w) = Some True then map (\<lambda>a. Msg (transmit_message w a)) transmits else [])"
  using assms by (rule action_pipeline)

theorem only_permitted_actions_take_effect_witness:
  "sent_packets (snd (transmit_tick (0, snd (move_tick (0, validator_tick example_world)))))
     = [Msg (transmit_message example_world (example_action ACTION_TRANSMIT))]"
proof -
  have "filter (\<lambda>a. permitted example_world a \<and> act_type a = ACTION_TRANSMIT) (queued example_world) = [example_action ACTION_TRANSMIT]"
    "sent_packets example_world = []" by code_simp+
  then show ?thesis
    using only_permitted_actions_take_effect [OF example_world_facts(1), of 0 0] example_world_facts(3) by (simp add: Let_def)
qed

end
