(* ===== verification/Fault_Monitor.thy ===== *)
theory Fault_Monitor
  imports Actions
begin

text \<open>
  \<open>FaultMonitorSystem\<close> (include/mith/systems/fault_monitor_system.h, src/systems/fault_monitor_system.cpp):
  the health of the robot falls with the faults reported since the last tick; below the threshold the
  robot is degraded, which restricts its permission mask to \<open>IDLE\<close> and \<open>REGROUP\<close> until the health has
  risen above threshold plus hysteresis.
\<close>

section \<open>The system\<close>

definition NORMAL_STATE :: u32 where "NORMAL_STATE = 0"
definition DEGRADED_STATE :: u32 where "DEGRADED_STATE = 1"

record fault_params =
  fp_degraded_threshold :: u8
  fp_degraded_hysteresis :: u8
  fp_decrement_per_fault :: u8

definition fault_params_default :: fault_params where
  "fault_params_default = \<lparr>fp_degraded_threshold = 40, fp_degraded_hysteresis = 10, fp_decrement_per_fault = 5\<rparr>"

record fault_monitor =
  fm_params :: fault_params
  fm_last_fault_count :: u64
  fm_saved_allowed_builtins :: u32
  fm_saved_allow_user_actions :: bool
  fm_in_degraded_state :: bool

definition fault_monitor_new :: "fault_params \<Rightarrow> fault_monitor" where
  "fault_monitor_new params =
     \<lparr>fm_params = params, fm_last_fault_count = 0, fm_saved_allowed_builtins = 0xFFFFFFFF,
      fm_saved_allow_user_actions = True, fm_in_degraded_state = False\<rparr>"

definition degraded_mask :: permission_mask where
  "degraded_mask = \<lparr>allowed_builtins = push_bit (unat ACTION_IDLE) 1 OR push_bit (unat ACTION_REGROUP) 1,
     allow_user_actions = False\<rparr>"

text \<open>The health after \<open>new_faults\<close> faults; the product is a \<open>uint64_t\<close>.\<close>

definition health_drop :: "fault_params \<Rightarrow> u64 \<Rightarrow> u8 \<Rightarrow> u8" where
  "health_drop params new_faults health =
     (if 0 < new_faults then
        let total_drop = new_faults * ucast (fp_decrement_per_fault params)
        in if ucast health \<le> total_drop then 0 else ucast (ucast health - total_drop)
      else health)"

definition fault_monitor_tick :: "fault_monitor \<times> world \<Rightarrow> fault_monitor \<times> world" where
  "fault_monitor_tick fw =
     (case fw of (fm, w) \<Rightarrow>
      let params = fm_params fm;
          now_count = w_fault_count w;
          new_faults = now_count - fm_last_fault_count fm;
          health = health_drop params new_faults (self_health (w_self w));
          mask = self_permission (w_self w);
          fm1 = fm\<lparr>fm_last_fault_count := now_count\<rparr>;
          w1 = set_self (\<lambda>s. s\<lparr>self_health := health\<rparr>) w
      in if \<not> fm_in_degraded_state fm \<and> health < fp_degraded_threshold params then
           (fm1\<lparr>fm_saved_allowed_builtins := allowed_builtins mask,
                fm_saved_allow_user_actions := allow_user_actions mask, fm_in_degraded_state := True\<rparr>,
            set_self (\<lambda>s. s\<lparr>self_permission := degraded_mask, self_behaviour := DEGRADED_STATE\<rparr>) w1)
         else if fm_in_degraded_state fm \<and>
             (ucast (fp_degraded_threshold params) + ucast (fp_degraded_hysteresis params) :: u32) \<le> ucast health then
           (fm1\<lparr>fm_in_degraded_state := False\<rparr>,
            set_self (\<lambda>s. s\<lparr>self_permission := \<lparr>allowed_builtins = fm_saved_allowed_builtins fm,
                                 allow_user_actions = fm_saved_allow_user_actions fm\<rparr>,
                            self_behaviour := NORMAL_STATE\<rparr>) w1)
         else (fm1, w1))"

section \<open>Arithmetic\<close>

lemma unat_widen [simp]: "unat (ucast (x :: u8) :: u64) = unat x" "unat (ucast (x :: u8) :: u32) = unat x"
  using unsigned_less [of x, where 'a = nat] by (simp_all add: unsigned_ucast_eq take_bit_nat_eq_self)

lemma unat_u8_less: "unat (x :: u8) < 256"
  using unsigned_less [of x, where 'a = nat] by simp

text \<open>The drop saturates at zero, as long as the product does not wrap.\<close>

lemma unat_health_drop:
  assumes "unat new_faults * unat (fp_decrement_per_fault params) < 2 ^ 64"
  shows "unat (health_drop params new_faults health) = unat health - unat new_faults * unat (fp_decrement_per_fault params)"
proof (cases "0 < new_faults")
  case True
  let ?d = "new_faults * ucast (fp_decrement_per_fault params)"
  have d: "unat ?d = unat new_faults * unat (fp_decrement_per_fault params)"
    using assms by (simp add: unat_word_ariths)
  have h: "unat (ucast health :: u64) = unat health" by simp
  show ?thesis
  proof (cases "ucast health \<le> ?d")
    case le: True
    then have "unat health \<le> unat ?d" using h by (simp add: word_le_nat_alt)
    then show ?thesis using True le d by (simp add: health_drop_def Let_def)
  next
    case False
    then have lt: "unat ?d < unat health" using h by (simp add: word_le_nat_alt)
    then have "unat (ucast health - ?d) = unat health - unat ?d" using h by (simp add: unat_sub word_le_nat_alt)
    moreover have "unat health - unat ?d < 2 ^ 8" using unat_u8_less [of health] by simp
    ultimately have "unat (ucast (ucast health - ?d) :: u8) = unat health - unat ?d" by (simp add: unsigned_ucast_eq take_bit_nat_eq_self)
    then show ?thesis using True False d by (simp add: health_drop_def Let_def)
  qed
next
  case False
  then have "new_faults = 0" by (simp add: word_greater_zero_iff)
  then show ?thesis by (simp add: health_drop_def)
qed

lemma recover_threshold:
  "(ucast (t :: u8) + ucast (y :: u8) :: u32) \<le> ucast (h :: u8) \<longleftrightarrow> unat t + unat y \<le> unat h"
proof -
  have "unat t + unat y < 2 ^ 32" using unat_u8_less [of t] unat_u8_less [of y] by simp
  then show ?thesis by (simp add: word_le_nat_alt unat_word_ariths)
qed

lemma allows_degraded: "allows degraded_mask t \<longleftrightarrow> t = ACTION_IDLE \<or> t = ACTION_REGROUP"
proof (cases "unat t < 32")
  case True
  have bits: "list_all (\<lambda>n. bit (allowed_builtins degraded_mask) n \<longleftrightarrow> n = 0 \<or> n = 5) [0..<32]" by code_simp
  have "allows degraded_mask (of_nat (unat t)) \<longleftrightarrow> unat t = 0 \<or> unat t = 5"
    using allows_builtin [OF True] bits True by (simp add: list_all_iff)
  moreover have "unat t = 5 \<longleftrightarrow> t = 5" by (simp add: word_unat_eq_iff)
  ultimately show ?thesis by (simp add: action_ids unat_eq_0)
next
  case False
  then have "31 < t" "t \<noteq> 0" "t \<noteq> 5" by (auto simp: word_less_nat_alt)
  then show ?thesis by (simp add: allows_def action_ids degraded_mask_def)
qed


section \<open>Rounds of faults\<close>

text \<open>Between two ticks \<open>k\<close> calls of \<open>World::report_fault\<close> arrive.\<close>

definition fault_round :: "nat \<Rightarrow> fault_monitor \<times> world \<Rightarrow> fault_monitor \<times> world" where
  "fault_round k fw = (case fw of (fm, w) \<Rightarrow> fault_monitor_tick (fm, (report_fault ^^ k) w))"

lemma report_faults: "(report_fault ^^ k) w = w\<lparr>w_fault_count := w_fault_count w + of_nat k\<rparr>"
  by (induction k) (simp_all add: report_fault_def algebra_simps)

definition monitor_wf :: "fault_monitor \<times> world \<Rightarrow> bool" where
  "monitor_wf fw = (case fw of (fm, w) \<Rightarrow> fm_last_fault_count fm = w_fault_count w \<and>
     (fm_in_degraded_state fm \<longrightarrow> self_health (w_self w) < fp_degraded_threshold (fm_params fm)
        \<and> self_permission (w_self w) = degraded_mask \<and> self_behaviour (w_self w) = DEGRADED_STATE))"

lemma fault_round_step:
  assumes "monitor_wf (fm, w)" "k * unat (fp_decrement_per_fault (fm_params fm)) < 2 ^ 64"
    and fr: "fault_round k (fm, w) = (fm', w')"
  shows "monitor_wf (fm', w')" and "fm_params fm' = fm_params fm"
    and "unat (self_health (w_self w')) = unat (self_health (w_self w)) - k * unat (fp_decrement_per_fault (fm_params fm))"
    and "fm_in_degraded_state fm' \<longleftrightarrow> self_health (w_self w') < fp_degraded_threshold (fm_params fm)"
    and "\<not> fm_in_degraded_state fm' \<Longrightarrow> self_permission (w_self w') = self_permission (w_self w)
           \<and> self_behaviour (w_self w') = self_behaviour (w_self w)"
proof -
  let ?p = "fm_params fm" and ?d = "unat (fp_decrement_per_fault (fm_params fm))"
  let ?h = "health_drop ?p (of_nat k) (self_health (w_self w))"
  have prod: "unat (of_nat k :: u64) * ?d = k * ?d"
  proof (cases "?d = 0")
    case False
    then have "k \<le> k * ?d" by simp
    with assms(2) have "k < 2 ^ 64" by linarith
    then show ?thesis by (simp add: unat_of_nat take_bit_nat_eq_self)
  qed simp
  have h: "unat ?h = unat (self_health (w_self w)) - k * ?d"
    using unat_health_drop [of "of_nat k" ?p] prod assms(2) by simp
  have low: "?h < fp_degraded_threshold ?p" if "fm_in_degraded_state fm"
    using assms(1) that h by (auto simp: monitor_wf_def word_less_nat_alt intro: less_imp_diff_less)
  have no: "\<not> unat (fp_degraded_threshold ?p) + unat (fp_degraded_hysteresis ?p) \<le> unat ?h" if "fm_in_degraded_state fm"
    using low [OF that] by (simp add: word_less_nat_alt)
  have last: "fm_last_fault_count fm = w_fault_count w" using assms(1) by (simp add: monitor_wf_def)
  have w': "self_health (w_self w') = ?h" "fm_params fm' = ?p"
    and out: "fm' = fm\<lparr>fm_last_fault_count := w_fault_count w + of_nat k\<rparr> \<and> self_permission (w_self w') = self_permission (w_self w)
           \<and> self_behaviour (w_self w') = self_behaviour (w_self w) \<and> (fm_in_degraded_state fm \<longleftrightarrow> ?h < fp_degraded_threshold ?p)
       \<or> fm_in_degraded_state fm' \<and> self_permission (w_self w') = degraded_mask
           \<and> self_behaviour (w_self w') = DEGRADED_STATE \<and> ?h < fp_degraded_threshold ?p"
    and cnt: "fm_last_fault_count fm' = w_fault_count w'"
    using fr low no last
    by (auto simp: fault_round_def fault_monitor_tick_def report_faults recover_threshold Let_def split: if_splits)
  show "monitor_wf (fm', w')" using out cnt w' assms(1) low by (auto simp: monitor_wf_def)
  show "fm_params fm' = ?p" "unat (self_health (w_self w')) = unat (self_health (w_self w)) - k * ?d" using w' h by simp_all
  show "fm_in_degraded_state fm' \<longleftrightarrow> self_health (w_self w') < fp_degraded_threshold ?p" using out w' by auto
  show "\<not> fm_in_degraded_state fm' \<Longrightarrow> self_permission (w_self w') = self_permission (w_self w)
     \<and> self_behaviour (w_self w') = self_behaviour (w_self w)" using out by auto
qed


lemma fault_rounds:
  assumes "monitor_wf (fm, w)" "sum_list ks * unat (fp_decrement_per_fault (fm_params fm)) < 2 ^ 64"
    "fold fault_round ks (fm, w) = (fm', w')"
  shows "monitor_wf (fm', w') \<and> fm_params fm' = fm_params fm
    \<and> unat (self_health (w_self w')) = unat (self_health (w_self w)) - sum_list ks * unat (fp_decrement_per_fault (fm_params fm))
    \<and> (ks \<noteq> [] \<longrightarrow> (fm_in_degraded_state fm' \<longleftrightarrow> self_health (w_self w') < fp_degraded_threshold (fm_params fm)))
    \<and> (\<not> fm_in_degraded_state fm' \<longrightarrow> self_permission (w_self w') = self_permission (w_self w)
         \<and> self_behaviour (w_self w') = self_behaviour (w_self w))"
  using assms
proof (induction ks arbitrary: fm w)
  case (Cons k ks)
  obtain fm1 w1 where fr: "fault_round k (fm, w) = (fm1, w1)" by (cases "fault_round k (fm, w)")
  let ?d = "unat (fp_decrement_per_fault (fm_params fm))"
  have "k * ?d < 2 ^ 64" "sum_list ks * ?d < 2 ^ 64" using Cons.prems(2) by (simp_all add: add_mult_distrib)
  note st = fault_round_step [OF Cons.prems(1) this(1) fr]
  from Cons.IH [OF st(1)] st(2) \<open>sum_list ks * ?d < 2 ^ 64\<close> Cons.prems(3) fr
  have ih: "monitor_wf (fm', w') \<and> fm_params fm' = fm_params fm
    \<and> unat (self_health (w_self w')) = unat (self_health (w_self w1)) - sum_list ks * ?d
    \<and> (ks \<noteq> [] \<longrightarrow> (fm_in_degraded_state fm' \<longleftrightarrow> self_health (w_self w') < fp_degraded_threshold (fm_params fm)))
    \<and> (\<not> fm_in_degraded_state fm' \<longrightarrow> self_permission (w_self w') = self_permission (w_self w1)
         \<and> self_behaviour (w_self w') = self_behaviour (w_self w1))" by simp
  have mono: "\<not> fm_in_degraded_state fm1" if "\<not> fm_in_degraded_state fm'"
  proof (cases "ks = []")
    case True
    then show ?thesis using that Cons.prems(3) fr by simp
  next
    case False
    then have "unat (fp_degraded_threshold (fm_params fm)) \<le> unat (self_health (w_self w'))"
      using that ih by (simp add: word_less_nat_alt)
    then show ?thesis using ih st(4) by (simp add: word_less_nat_alt)
  qed
  show ?case using ih st mono Cons.prems(3) fr by (auto simp: add_mult_distrib)
qed simp

text \<open>
  Claim C27.  Whatever the faults reported between the ticks, the monitor's health arithmetic neither wraps nor
  loses a fault: after any rounds the health is the initial health less the decrement for every fault,
  saturated at zero; the robot is degraded exactly when that is below the threshold, and then its
  permission mask is the degraded one and its state \<open>DEGRADED_STATE\<close>; otherwise mask and state are
  untouched.  The product of faults and decrement is taken to fit a \<open>uint64_t\<close>.
\<close>

theorem faults_degrade_exactly:
  assumes "fm_last_fault_count fm = w_fault_count w" "\<not> fm_in_degraded_state fm" "ks \<noteq> []"
    "sum_list ks * unat (fp_decrement_per_fault (fm_params fm)) < 2 ^ 64"
  shows "let (fm', w') = fold fault_round ks (fm, w);
             health = unat (self_health (w_self w)) - sum_list ks * unat (fp_decrement_per_fault (fm_params fm));
             degraded = (health < unat (fp_degraded_threshold (fm_params fm)))
    in unat (self_health (w_self w')) = health \<and> fm_in_degraded_state fm' = degraded
     \<and> self_permission (w_self w') = (if degraded then degraded_mask else self_permission (w_self w))
     \<and> self_behaviour (w_self w') = (if degraded then DEGRADED_STATE else self_behaviour (w_self w))"
proof -
  obtain fm' w' where r: "fold fault_round ks (fm, w) = (fm', w')" by (cases "fold fault_round ks (fm, w)")
  have "monitor_wf (fm, w)" using assms by (simp add: monitor_wf_def)
  from fault_rounds [OF this assms(4) r] assms(3) show ?thesis
    by (auto simp: r word_less_nat_alt monitor_wf_def)
qed

theorem faults_degrade_exactly_witness:
  "let (fm', w') = fold fault_round [3, 0, 10] (fault_monitor_new fault_params_default, world_new world_config_default port_none)
   in self_health (w_self w') = 35 \<and> fm_in_degraded_state fm' \<and> self_permission (w_self w') = degraded_mask"
proof -
  have d: "fm_last_fault_count (fault_monitor_new fault_params_default) = w_fault_count (world_new world_config_default port_none)"
    "\<not> fm_in_degraded_state (fault_monitor_new fault_params_default)"
    "unat (self_health (w_self (world_new world_config_default port_none))) = 100"
    "fp_decrement_per_fault (fm_params (fault_monitor_new fault_params_default)) = 5"
    "fp_degraded_threshold (fm_params (fault_monitor_new fault_params_default)) = 40" by code_simp+
  show ?thesis using faults_degrade_exactly [OF d(1,2), of "[3, 0, 10]"] d(3-5)
    by (auto simp: Let_def word_unat_eq_iff split: prod.splits)
qed

section \<open>Degraded robots\<close>




end
