(* ===== verification/Clock_Sync.thy ===== *)
theory Clock_Sync
  imports World_State
begin

text \<open>
  \<open>ClockSyncSystem\<close> (include/mith/systems/clock_sync_system.h, src/systems/clock_sync_system.cpp) and
  \<open>PartitionMergeSystem\<close> (include/mith/systems/partition_merge_system.h,
  src/systems/partition_merge_system.cpp): the two systems that watch the neighbour table and steer the
  world's clock offset and merge window.
\<close>

section \<open>Clock synchronisation\<close>

record clock_params =
  cp_adjustment_rate :: f32
  cp_max_step_s :: f32

definition clock_params_default :: clock_params where
  "clock_params_default = \<lparr>cp_adjustment_rate = 0x3DCCCCCD, cp_max_step_s = f32_one\<rparr>"

record clock_sync =
  cs_params :: clock_params
  cs_adjustments :: u64
  cs_observations :: u64

definition clock_sync_new :: "clock_params \<Rightarrow> clock_sync" where
  "clock_sync_new params = \<lparr>cs_params = params, cs_adjustments = 0, cs_observations = 0\<rparr>"

definition gap_sum :: "f32 \<Rightarrow> nt_entry list \<Rightarrow> f32 \<times> u32" where
  "gap_sum my_sync es = fold (\<lambda>e (acc, n). (f32_add acc (f32_sub (ne_sync_time_s e) my_sync), n + 1)) es (f32_zero, 0)"

definition clock_step :: "clock_params \<Rightarrow> f32 \<Rightarrow> u32 \<Rightarrow> f32" where
  "clock_step params acc n =
     (let mean_gap = f32_div acc (f32_of_nat (unat n));
          step = f32_mul (cp_adjustment_rate params) mean_gap
      in if f32_lt f32_zero (cp_max_step_s params)
         then f32_clamp step (f32_minus (cp_max_step_s params)) (cp_max_step_s params)
         else step)"

definition clock_sync_tick :: "clock_sync \<times> world \<Rightarrow> clock_sync \<times> world" where
  "clock_sync_tick cw =
     (case cw of (cs, w) \<Rightarrow>
      if f32_le (cp_adjustment_rate (cs_params cs)) f32_zero then (cs, w)
      else
        case gap_sum (synced_time_s w) (nt_entries (w_neighbours w)) of (acc, n) \<Rightarrow>
          if n = 0 then (cs, w)
          else
            let cs1 = cs\<lparr>cs_observations := cs_observations cs + ucast n\<rparr>;
                step = clock_step (cs_params cs) acc n
            in if f32_lt f32_zero (f32_abs step)
               then (cs1\<lparr>cs_adjustments := cs_adjustments cs1 + 1\<rparr>,
                     set_clock_offset_s (f32_add (w_clock_offset_s w) step) w)
               else (cs1, w))"

section \<open>Partition merge\<close>

record merge_params =
  mp_partition_heal_threshold :: u32
  mp_merge_window_s :: f32

definition merge_params_default :: merge_params where
  "merge_params_default = \<lparr>mp_partition_heal_threshold = 2, mp_merge_window_s = 0x40000000\<rparr>"

record partition_merge =
  pm_params :: merge_params
  pm_last_peer_count :: u32
  pm_heal_events :: u64

definition partition_merge_new :: "merge_params \<Rightarrow> partition_merge" where
  "partition_merge_new params = \<lparr>pm_params = params, pm_last_peer_count = 0, pm_heal_events = 0\<rparr>"

definition partition_merge_tick :: "partition_merge \<times> world \<Rightarrow> partition_merge \<times> world" where
  "partition_merge_tick pw =
     (case pw of (pm, w) \<Rightarrow>
      let count = peer_count (w_neighbours w);
          healed = (pm_last_peer_count pm < count \<and>
                    mp_partition_heal_threshold (pm_params pm) \<le> count - pm_last_peer_count pm);
          pm1 = (if healed then pm\<lparr>pm_heal_events := pm_heal_events pm + 1\<rparr> else pm);
          w1 = (if healed then set_merge_window_s (mp_merge_window_s (pm_params pm)) w else w)
      in (pm1\<lparr>pm_last_peer_count := count\<rparr>, w1))"

section \<open>The step of the clock\<close>

lemma gap_sum_count: "snd (gap_sum my es) = of_nat (length es)"
proof -
  have "snd (fold (\<lambda>e (acc, n). (f32_add acc (f32_sub (ne_sync_time_s e) my), n + 1)) es (s, n)) = n + of_nat (length es)"
    for s and n :: u32
    by (induction es arbitrary: s n) simp_all
  then show ?thesis by (simp add: gap_sum_def)
qed

lemma gap_sum_nan:
  assumes "\<exists>e \<in> set es. f32_isnan (ne_sync_time_s e)"
  shows "f32_isnan (fst (gap_sum my es))"
proof -
  have "f32_isnan s \<or> (\<exists>e \<in> set es. f32_isnan (ne_sync_time_s e)) \<Longrightarrow>
      f32_isnan (fst (fold (\<lambda>e (acc, n). (f32_add acc (f32_sub (ne_sync_time_s e) my), n + 1)) es (s, n)))" for s and n :: u32
    by (induction es arbitrary: s n) auto
  then show ?thesis using assms by (simp add: gap_sum_def)
qed

lemma gap_sum_nonneg:
  assumes "f32_isfinite my" "\<forall>e \<in> set es. f32_isfinite (ne_sync_time_s e) \<and> f32_le my (ne_sync_time_s e)"
  shows "f32_nonneg (fst (gap_sum my es))"
proof -
  have "f32_nonneg s \<Longrightarrow> \<forall>e \<in> set es. f32_isfinite (ne_sync_time_s e) \<and> f32_le my (ne_sync_time_s e) \<Longrightarrow>
      f32_nonneg (fst (fold (\<lambda>e (acc, n). (f32_add acc (f32_sub (ne_sync_time_s e) my), n + 1)) es (s, n)))" for s and n :: u32
    using assms(1) by (induction es arbitrary: s n) (simp_all add: f32_add_nonneg_nonneg f32_sub_nonneg)
  then show ?thesis using assms(2) by (simp add: gap_sum_def f32_le_refl)
qed

lemma clock_step_bounds:
  assumes "f32_lt f32_zero (cp_max_step_s p)" "\<not> f32_isnan (clock_step p acc n)"
  shows "f32_le (f32_minus (cp_max_step_s p)) (clock_step p acc n)" "f32_le (clock_step p acc n) (cp_max_step_s p)"
proof -
  let ?v = "f32_mul (cp_adjustment_rate p) (f32_div acc (f32_of_nat (unat n)))"
  have m: "\<not> f32_isnan (cp_max_step_s p)" "0 < f32_key (cp_max_step_s p)" using assms(1) by (simp_all add: f32_lt_def)
  have "\<not> f32_isnan ?v"
    using assms by (auto simp: clock_step_def Let_def f32_clamp_def f32_lt_def)
  moreover have "f32_le (f32_minus (cp_max_step_s p)) (cp_max_step_s p)" using m by (simp add: f32_le_def)
  ultimately have "f32_le (f32_minus (cp_max_step_s p)) (f32_clamp ?v (f32_minus (cp_max_step_s p)) (cp_max_step_s p))
      \<and> f32_le (f32_clamp ?v (f32_minus (cp_max_step_s p)) (cp_max_step_s p)) (cp_max_step_s p)"
    by (rule f32_clamp_bounds)
  then show "f32_le (f32_minus (cp_max_step_s p)) (clock_step p acc n)" "f32_le (clock_step p acc n) (cp_max_step_s p)"
    using assms(1) by (simp_all add: clock_step_def Let_def)
qed

lemma clock_step_nan:
  assumes "f32_isnan acc"
  shows "f32_isnan (clock_step p acc n)"
  using assms by (simp add: clock_step_def Let_def f32_clamp_def f32_lt_def)

lemma clock_step_nonneg:
  assumes "f32_nonneg acc" "n \<noteq> 0" "f32_lt f32_zero (cp_adjustment_rate p)" "f32_isfinite (cp_adjustment_rate p)"
  shows "f32_nonneg (clock_step p acc n)"
proof -
  let ?v = "f32_mul (cp_adjustment_rate p) (f32_div acc (f32_of_nat (unat n)))"
  have n: "0 < unat n" "unat n < 2 ^ 32"
    using assms(2) unsigned_less [of n, where 'a = nat] by (simp_all add: unat_gt_0)
  have "f32_nonneg (f32_div acc (f32_of_nat (unat n)))"
    using f32_of_nat_bounds [OF n] by (intro f32_div_nonneg assms(1))
  then have "f32_nonneg ?v" using assms(3,4) by (intro f32_mul_nonneg) (simp_all add: f32_lt_imp_le f32_lt_def)
  then show ?thesis
    using f32_lt_imp_le [of f32_zero "cp_max_step_s p"]
    by (auto simp: clock_step_def Let_def f32_clamp_def f32_lt_def f32_nonneg_key)
qed


lemma clock_offset_range:
  assumes "f32_isfinite off" "f32_isfinite step" "f32_isfinite m" "f32_le (f32_minus m) step" "f32_le step m"
  shows "f32_le (f32_sub off m) (f32_add off step)" "f32_le (f32_add off step) (f32_add off m)"
  using assms by (auto simp: f32_sub_def intro!: f32_add_mono)

lemma f32_le_add_zero:
  assumes "f32_isfinite x"
  shows "f32_le x y \<longleftrightarrow> f32_le (f32_add x f32_zero) y" "f32_le y x \<longleftrightarrow> f32_le y (f32_add x f32_zero)"
proof -
  have "f32_int f32_zero = 0" by code_simp
  moreover have "round_key (f32_int x) = f32_key x"
    using f32_key_finite [OF assms] by (simp add: f32_int_key round_key_signed_units)
  ultimately show "f32_le x y \<longleftrightarrow> f32_le (f32_add x f32_zero) y" "f32_le y x \<longleftrightarrow> f32_le y (f32_add x f32_zero)"
    using f32_add_finite [OF assms, of f32_zero] assms by (simp_all add: f32_le_def)
qed

text \<open>The tick either leaves the world or adds a step that is a number.\<close>

lemma clock_sync_tick_cases:
  obtains "snd (clock_sync_tick (cs, w)) = w"
  | step where "snd (clock_sync_tick (cs, w)) = set_clock_offset_s (f32_add (w_clock_offset_s w) step) w"
      "step = clock_step (cs_params cs) (fst (gap_sum (synced_time_s w) (nt_entries (w_neighbours w))))
                (of_nat (length (nt_entries (w_neighbours w))))"
      "\<not> f32_isnan step" "of_nat (length (nt_entries (w_neighbours w))) \<noteq> (0 :: u32)"
proof -
  obtain acc n where g: "gap_sum (synced_time_s w) (nt_entries (w_neighbours w)) = (acc, n)"
    by (cases "gap_sum (synced_time_s w) (nt_entries (w_neighbours w))")
  then have n: "n = of_nat (length (nt_entries (w_neighbours w)))" using gap_sum_count by (metis snd_conv)
  show thesis
  proof (cases "snd (clock_sync_tick (cs, w)) = w")
    case False
    then have "snd (clock_sync_tick (cs, w)) = set_clock_offset_s (f32_add (w_clock_offset_s w) (clock_step (cs_params cs) acc n)) w"
        "f32_lt f32_zero (f32_abs (clock_step (cs_params cs) acc n))" "n \<noteq> 0"
      using g by (auto simp: clock_sync_tick_def Let_def split: if_splits)
    then show thesis using that(2) g n by (auto simp: f32_lt_def)
  qed (rule that(1))
qed



end
