(* ===== verification/Task_Alloc.thy ===== *)
theory Task_Alloc
  imports World_State
begin

text \<open>
  \<open>TaskAllocSystem\<close> (include/mith/systems/task_alloc_system.h, src/systems/task_alloc_system.cpp): the
  response-threshold rule by which a robot takes on the role its swarm is shortest of.
\<close>

section \<open>The system\<close>

abbreviation MAX_TRACKED_ROLES :: nat where "MAX_TRACKED_ROLES \<equiv> 8"

record task_params =
  tk_desired_ratios :: "f32 list"
  tk_thresholds :: "f32 list"
  tk_stability_window_s :: f32
  tk_stimulus_gain :: f32

definition task_params_default :: task_params where
  "task_params_default =
     \<lparr>tk_desired_ratios = replicate MAX_TRACKED_ROLES f32_zero, tk_thresholds = replicate MAX_TRACKED_ROLES f32_one,
      tk_stability_window_s = f32_one, tk_stimulus_gain = f32_one\<rparr>"

record task_alloc =
  ta_params :: task_params
  ta_time_since_last_switch_s :: f32
  ta_total_switches :: u64

definition task_alloc_new :: "task_params \<Rightarrow> task_alloc" where
  "task_alloc_new params = \<lparr>ta_params = params, ta_time_since_last_switch_s = f32_zero, ta_total_switches = 0\<rparr>"

text \<open>\<open>if (r < counts.size()) counts[r]++\<close>.\<close>

definition count_role :: "u32 \<Rightarrow> u32 list \<Rightarrow> u32 list" where
  "count_role r counts = (if unat r < length counts then counts[unat r := counts ! unat r + 1] else counts)"

definition role_counts :: "u32 \<Rightarrow> nt_entry list \<Rightarrow> u32 list \<times> u32" where
  "role_counts self es =
     fold (\<lambda>e (counts, n). (count_role (ne_role e) counts, n + 1)) es
       (count_role self (replicate MAX_TRACKED_ROLES 0), 1)"

definition role_deficit :: "task_params \<Rightarrow> u32 list \<Rightarrow> f32 \<Rightarrow> nat \<Rightarrow> f32" where
  "role_deficit params counts total_f r =
     f32_sub (f32_mul (tk_desired_ratios params ! r) total_f) (f32_of_nat (unat (counts ! r)))"

definition role_margin :: "task_params \<Rightarrow> u32 list \<Rightarrow> f32 \<Rightarrow> nat \<Rightarrow> f32" where
  "role_margin params counts total_f r =
     f32_sub (f32_mul (role_deficit params counts total_f r) (tk_stimulus_gain params)) (tk_thresholds params ! r)"

text \<open>The body of the loop over the roles.  The scan keeps the margin and the role of the best candidate,
  \<open>None\<close> while \<open>candidate_exists\<close> is false.\<close>

definition consider_role ::
  "task_params \<Rightarrow> u32 list \<Rightarrow> f32 \<Rightarrow> nat \<Rightarrow> (f32 \<times> nat) option \<Rightarrow> (f32 \<times> nat) option" where
  "consider_role params counts total_f r best =
     (if f32_le (tk_desired_ratios params ! r) f32_zero then best
      else if f32_le (role_deficit params counts total_f r) f32_zero then best
      else
        let margin = role_margin params counts total_f r in
        if f32_le margin f32_zero then best
        else (case best of
            None \<Rightarrow> Some (margin, r)
          | Some (best_margin, b) \<Rightarrow> if f32_lt best_margin margin then Some (margin, r) else best))"

definition best_role :: "task_params \<Rightarrow> u32 list \<Rightarrow> f32 \<Rightarrow> (f32 \<times> nat) option" where
  "best_role params counts total_f = fold (consider_role params counts total_f) [0..<length (tk_desired_ratios params)] None"

definition task_alloc_tick :: "f32 \<Rightarrow> task_alloc \<times> world \<Rightarrow> task_alloc \<times> world" where
  "task_alloc_tick delta_time tw =
     (case tw of (ta, w) \<Rightarrow>
      let t = f32_add (ta_time_since_last_switch_s ta) delta_time;
          ta1 = ta\<lparr>ta_time_since_last_switch_s := t\<rparr>;
          self = self_role (w_self w)
      in case role_counts self (nt_entries (w_neighbours w)) of (counts, swarm) \<Rightarrow>
         let effective_stability_s = (if is_merging w then f32_zero else tk_stability_window_s (ta_params ta))
         in (case best_role (ta_params ta) counts (f32_of_nat (unat swarm)) of
              None \<Rightarrow> (ta1, w)
            | Some (_, r) \<Rightarrow>
                if of_nat r \<noteq> self \<and> f32_le effective_stability_s t
                then (ta1\<lparr>ta_time_since_last_switch_s := f32_zero, ta_total_switches := ta_total_switches ta + 1\<rparr>,
                      set_self (\<lambda>s. s\<lparr>self_role := of_nat r\<rparr>) w)
                else (ta1, w)))"

section \<open>The scan finds the first largest margin\<close>

definition eligible :: "task_params \<Rightarrow> u32 list \<Rightarrow> f32 \<Rightarrow> nat \<Rightarrow> bool" where
  "eligible params counts total_f r \<longleftrightarrow> \<not> f32_le (tk_desired_ratios params ! r) f32_zero
     \<and> \<not> f32_le (role_deficit params counts total_f r) f32_zero \<and> \<not> f32_le (role_margin params counts total_f r) f32_zero"

definition first_best :: "task_params \<Rightarrow> u32 list \<Rightarrow> f32 \<Rightarrow> nat \<Rightarrow> (f32 \<times> nat) option \<Rightarrow> bool" where
  "first_best params counts total_f n best =
     (case best of
        None \<Rightarrow> \<forall>r < n. \<not> eligible params counts total_f r
      | Some (m, b) \<Rightarrow> b < n \<and> eligible params counts total_f b \<and> m = role_margin params counts total_f b
          \<and> (\<forall>r < n. eligible params counts total_f r \<longrightarrow>
               f32_le (role_margin params counts total_f r) m
               \<and> (r < b \<longrightarrow> f32_lt (role_margin params counts total_f r) m)))"

lemma consider_role_skip: "\<not> eligible p c t r \<Longrightarrow> consider_role p c t r best = best"
  by (auto simp: eligible_def consider_role_def)

lemma consider_role_take:
  "eligible p c t r \<Longrightarrow> consider_role p c t r best =
     (case best of None \<Rightarrow> Some (role_margin p c t r, r)
      | Some (m, b) \<Rightarrow> if f32_lt m (role_margin p c t r) then Some (role_margin p c t r, r) else best)"
  by (auto simp: eligible_def consider_role_def Let_def split: option.split)

lemma first_best_step:
  assumes "first_best p c t n best" "\<forall>r \<le> n. eligible p c t r \<longrightarrow> \<not> f32_isnan (role_margin p c t r)"
  shows "first_best p c t (Suc n) (consider_role p c t n best)"
proof (cases "eligible p c t n")
  case False
  then show ?thesis using assms(1)
    by (auto simp: consider_role_skip first_best_def less_Suc_eq split: option.splits)
next
  case True
  then have nn: "\<not> f32_isnan (role_margin p c t n)" using assms(2) by simp
  show ?thesis
  proof (cases best)
    case None
    with True nn assms(1) show ?thesis by (auto simp: consider_role_take first_best_def less_Suc_eq f32_le_refl)
  next
    case (Some mb)
    obtain m b where mb: "mb = (m, b)" by (cases mb)
    have best: "b < n" "eligible p c t b" "m = role_margin p c t b"
      and up: "\<And>r. r < n \<Longrightarrow> eligible p c t r \<Longrightarrow> f32_le (role_margin p c t r) m \<and> (r < b \<longrightarrow> f32_lt (role_margin p c t r) m)"
      using assms(1) Some mb by (auto simp: first_best_def)
    show ?thesis
    proof (cases "f32_lt m (role_margin p c t n)")
      case lt: True
      have "f32_lt (role_margin p c t r) (role_margin p c t n)" if "r < n" "eligible p c t r" for r
        using up [OF that] lt f32_le_lt_trans by blast
      then show ?thesis using True Some mb lt nn f32_lt_imp_le
        by (auto simp: consider_role_take first_best_def less_Suc_eq f32_le_refl)
    next
      case False
      moreover have "\<not> f32_isnan m" using best assms(2) by simp
      ultimately have "f32_le (role_margin p c t n) m" using nn by (simp add: f32_not_lt)
      then show ?thesis using True Some mb False best up
        by (auto simp: consider_role_take first_best_def less_Suc_eq)
    qed
  qed
qed

lemma best_role_first_best:
  assumes "\<forall>r < length (tk_desired_ratios p). eligible p c t r \<longrightarrow> \<not> f32_isnan (role_margin p c t r)"
  shows "first_best p c t (length (tk_desired_ratios p)) (best_role p c t)"
proof -
  have "n \<le> length (tk_desired_ratios p) \<Longrightarrow> first_best p c t n (fold (consider_role p c t) [0..<n] None)" for n
  proof (induction n)
    case (Suc n)
    then have "first_best p c t n (fold (consider_role p c t) [0..<n] None)" by simp
    from first_best_step [OF this] Suc.prems assms show ?case by simp
  qed (simp add: first_best_def)
  then show ?thesis by (simp add: best_role_def)
qed

text \<open>The counters.\<close>

lemma role_counts_total: "snd (role_counts self es) = 1 + of_nat (length es)"
proof -
  have "snd (fold (\<lambda>e (counts, n). (count_role (ne_role e) counts, n + 1)) es (cs, n)) = n + of_nat (length es)"
    for cs and n :: u32
    by (induction es arbitrary: cs n) simp_all
  then show ?thesis by (simp add: role_counts_def)
qed

lemma nth_count_role:
  "i < length cs \<Longrightarrow> length (count_role r cs) = length cs
     \<and> count_role r cs ! i = cs ! i + (if unat r = i then 1 else 0)"
  by (simp add: count_role_def nth_list_update)

lemma role_counts_nth:
  assumes "r < MAX_TRACKED_ROLES"
  shows "fst (role_counts self es) ! r = of_nat (length (filter (\<lambda>x. x = of_nat r) (self # map ne_role es)))"
proof -
  have role: "unat x = r \<longleftrightarrow> x = of_nat r" for x :: u32
    using assms by (auto simp: unat_of_nat take_bit_nat_eq_self)
  have "r < length cs \<Longrightarrow> fst (fold (\<lambda>e (counts, n). (count_role (ne_role e) counts, n + 1)) es (cs, n)) ! r
      = cs ! r + of_nat (length (filter (\<lambda>x. x = of_nat r) (map ne_role es)))" for cs and n :: u32
    by (induction es arbitrary: cs n) (simp_all add: nth_count_role role)
  from this [of "count_role self (replicate MAX_TRACKED_ROLES 0)" 1] show ?thesis
    using assms nth_count_role [of r "replicate MAX_TRACKED_ROLES 0" self] by (simp add: role_counts_def role)
qed


text \<open>How many robots hold each tracked role, and how many there are.\<close>

definition census :: "world \<Rightarrow> u32 list" where
  "census w = map (\<lambda>r. of_nat (length (filter (\<lambda>x. x = of_nat r) (self_role (w_self w) # map ne_role (nt_entries (w_neighbours w))))))
     [0..<MAX_TRACKED_ROLES]"

definition swarm_size :: "world \<Rightarrow> f32" where
  "swarm_size w = f32_of_nat (unat (1 + of_nat (length (nt_entries (w_neighbours w))) :: u32))"

lemma length_role_counts: "length (fst (role_counts self es)) = MAX_TRACKED_ROLES"
proof -
  have "length (fst (fold (\<lambda>e (counts, n). (count_role (ne_role e) counts, n + 1)) es (cs, n))) = length cs"
    for cs and n :: u32
    by (induction es arbitrary: cs n) (simp_all add: count_role_def)
  then show ?thesis by (simp add: role_counts_def count_role_def)
qed

lemma role_counts_census: "role_counts (self_role (w_self w)) (nt_entries (w_neighbours w)) = (census w, 1 + of_nat (length (nt_entries (w_neighbours w))))"
proof -
  have "fst (role_counts (self_role (w_self w)) (nt_entries (w_neighbours w))) = census w"
    by (rule nth_equalityI) (simp_all add: length_role_counts census_def role_counts_nth)
  then show ?thesis by (simp add: prod_eq_iff role_counts_total)
qed

definition neediest :: "task_params \<Rightarrow> world \<Rightarrow> nat \<Rightarrow> bool" where
  "neediest p w b \<longleftrightarrow> b < length (tk_desired_ratios p) \<and> eligible p (census w) (swarm_size w) b
     \<and> (\<forall>r < length (tk_desired_ratios p). eligible p (census w) (swarm_size w) r \<longrightarrow>
          f32_le (role_margin p (census w) (swarm_size w) r) (role_margin p (census w) (swarm_size w) b)
          \<and> (r < b \<longrightarrow> f32_lt (role_margin p (census w) (swarm_size w) r) (role_margin p (census w) (swarm_size w) b)))"

lemma neediest_unique: "neediest p w b \<Longrightarrow> neediest p w b' \<Longrightarrow> b = b'"
proof (rule ccontr)
  assume n: "neediest p w b" "neediest p w b'" and "b \<noteq> b'"
  then consider "b < b'" | "b' < b" by linarith
  then show False
    by cases (use n f32_lt_le_trans f32_lt_irrefl in \<open>unfold neediest_def, blast+\<close>)
qed

lemma best_role_neediest:
  assumes "\<forall>r < length (tk_desired_ratios p). \<not> f32_isnan (role_margin p (census w) (swarm_size w) r)"
  shows "(\<exists>m. best_role p (census w) (swarm_size w) = Some (m, b)) \<longleftrightarrow> neediest p w b"
proof -
  have fb: "first_best p (census w) (swarm_size w) (length (tk_desired_ratios p)) (best_role p (census w) (swarm_size w))"
    using assms by (intro best_role_first_best) simp
  show ?thesis
  proof (cases "best_role p (census w) (swarm_size w)")
    case None
    with fb show ?thesis by (auto simp: first_best_def neediest_def)
  next
    case (Some mb)
    with fb have "neediest p w (snd mb)" by (cases mb) (auto simp: first_best_def neediest_def)
    with Some neediest_unique show ?thesis by (cases mb) auto
  qed
qed

text \<open>
  Claim C30.  A tick of \<open>TaskAllocSystem\<close> switches the robot to the role with the largest positive margin (of
  the shortage of that role among the robot and its neighbours, times the gain, over the role's
  threshold; the lowest number wins a tie), exactly if there is one, it is not the robot's role, and
  the time since the last switch has reached the stability window, which is zero while partitions
  merge.  A switch restarts the timer and is counted; otherwise the tick only advances the timer.  The
  margins are taken to be numbers.
\<close>

theorem task_alloc_takes_neediest_role:
  assumes "length (tk_desired_ratios (ta_params ta)) = MAX_TRACKED_ROLES"
    "\<forall>r < MAX_TRACKED_ROLES. \<not> f32_isnan (role_margin (ta_params ta) (census w) (swarm_size w) r)"
  shows "let t = f32_add (ta_time_since_last_switch_s ta) delta_time;
             window = (if is_merging w then f32_zero else tk_stability_window_s (ta_params ta));
             role = self_role (w_self w)
    in task_alloc_tick delta_time (ta, w) =
         (if f32_le window t \<and> (\<exists>b. neediest (ta_params ta) w b \<and> of_nat b \<noteq> role)
          then (ta\<lparr>ta_time_since_last_switch_s := f32_zero, ta_total_switches := ta_total_switches ta + 1\<rparr>,
                set_self (\<lambda>s. s\<lparr>self_role := of_nat (LEAST b. neediest (ta_params ta) w b)\<rparr>) w)
          else (ta\<lparr>ta_time_since_last_switch_s := t\<rparr>, w))"
proof -
  note best = best_role_neediest [of "ta_params ta" w, unfolded assms(1), OF assms(2)]
  have least: "(LEAST b. neediest (ta_params ta) w b) = r" if "neediest (ta_params ta) w r" for r
    using that neediest_unique by (metis LeastI)
  show ?thesis
  proof (cases "best_role (ta_params ta) (census w) (swarm_size w)")
    case None
    then have "\<not> neediest (ta_params ta) w b" for b using best by simp
    with None show ?thesis by (simp add: task_alloc_tick_def role_counts_census swarm_size_def [symmetric])
  next
    case (Some mb)
    obtain m r where mb: "mb = (m, r)" by (cases mb)
    with Some best have n: "neediest (ta_params ta) w r" by auto
    then have ex: "(\<exists>b. neediest (ta_params ta) w b \<and> of_nat b \<noteq> self_role (w_self w)) \<longleftrightarrow> of_nat r \<noteq> self_role (w_self w)"
      using neediest_unique by blast
    show ?thesis using Some mb ex least [OF n]
      by (simp add: task_alloc_tick_def role_counts_census swarm_size_def [symmetric] Let_def)
  qed
qed


definition example_alloc :: task_alloc where
  "example_alloc = task_alloc_new (task_params_default\<lparr>tk_desired_ratios := (replicate 8 f32_zero)[3 := f32_one],
     tk_stimulus_gain := 0x40000000\<rparr>)"

theorem task_alloc_takes_neediest_role_witness:
  "let w = world_new world_config_default port_none in
   neediest (ta_params example_alloc) w 3 \<and>
   self_role (w_self (snd (task_alloc_tick f32_one (example_alloc, w)))) = of_nat (LEAST b. neediest (ta_params example_alloc) w b)"
proof -
  let ?w = "world_new world_config_default port_none"
  have len: "length (tk_desired_ratios (ta_params example_alloc)) = MAX_TRACKED_ROLES" by code_simp
  have "list_all (\<lambda>m. \<not> f32_isnan m) (map (role_margin (ta_params example_alloc) (census ?w) (swarm_size ?w)) [0..<8])" by code_simp
  then have nan: "\<forall>r < MAX_TRACKED_ROLES. \<not> f32_isnan (role_margin (ta_params example_alloc) (census ?w) (swarm_size ?w) r)"
    by (simp add: list_all_iff)
  have el: "filter (eligible (ta_params example_alloc) (census ?w) (swarm_size ?w)) [0..<8] = [3]" by code_simp
  have "r = 3" if "r < 8" "eligible (ta_params example_alloc) (census ?w) (swarm_size ?w) r" for r
    using that arg_cong [OF el, of set] by auto
  moreover have "eligible (ta_params example_alloc) (census ?w) (swarm_size ?w) 3"
    using arg_cong [OF el, of set] by auto
  ultimately have need: "neediest (ta_params example_alloc) ?w 3"
    using len nan by (auto simp: neediest_def f32_le_refl)
  have t: "f32_le (tk_stability_window_s (ta_params example_alloc)) (f32_add (ta_time_since_last_switch_s example_alloc) f32_one)"
    "\<not> is_merging ?w" "of_nat 3 \<noteq> self_role (w_self ?w)" by code_simp+
  show ?thesis using task_alloc_takes_neediest_role [OF len nan, of f32_one] need t by (auto simp: Let_def)
qed

end
