(* ===== verification/Flocking.thy ===== *)
theory Flocking
  imports World_State
begin

text \<open>
  The two systems that move the robot: \<open>KinematicsSystem\<close> (src/systems/kinematics_system.cpp) integrates
  the velocity, \<open>FlockingSystem\<close> (include/mith/systems/flocking_system.h, src/systems/flocking_system.cpp)
  steers it by separation, alignment and cohesion with the neighbours in view.  The flocking tick asks
  the neighbour table for the entries in range, so it returns a \<open>res\<close> like that query.
\<close>

section \<open>Kinematics\<close>

definition kinematics_tick :: "f32 \<Rightarrow> world \<Rightarrow> world" where
  "kinematics_tick delta_time w =
     set_self (\<lambda>s.
       let vel = self_velocity s; pos = self_position s in
       s\<lparr>self_position := \<lparr>pos_x = f32_add (pos_x pos) (f32_mul (vel_x vel) delta_time),
                            pos_y = f32_add (pos_y pos) (f32_mul (vel_y vel) delta_time),
                            pos_z = f32_add (pos_z pos) (f32_mul (vel_z vel) delta_time)\<rparr>\<rparr>) w"

section \<open>Flocking\<close>

record flock_params =
  fl_separation_radius_m :: f32
  fl_separation_weight :: f32
  fl_alignment_weight :: f32
  fl_cohesion_weight :: f32
  fl_max_speed_mps :: f32
  fl_vision_radius_m :: f32

definition flock_params_default :: flock_params where
  "flock_params_default =
     \<lparr>fl_separation_radius_m = 0x40A00000, fl_separation_weight = 0x3FC00000, fl_alignment_weight = f32_one,
      fl_cohesion_weight = f32_one, fl_max_speed_mps = 0x40A00000, fl_vision_radius_m = 0x41F00000\<rparr>"

text \<open>The accumulators, one triple per rule, and the number of neighbours seen.\<close>

record flock_acc =
  fa_sep :: "f32 \<times> f32 \<times> f32"
  fa_align :: "f32 \<times> f32 \<times> f32"
  fa_coh :: "f32 \<times> f32 \<times> f32"
  fa_n :: nat

definition flock_acc_zero :: flock_acc where
  "flock_acc_zero = \<lparr>fa_sep = (f32_zero, f32_zero, f32_zero), fa_align = (f32_zero, f32_zero, f32_zero),
     fa_coh = (f32_zero, f32_zero, f32_zero), fa_n = 0\<rparr>"

fun add3 :: "f32 \<times> f32 \<times> f32 \<Rightarrow> f32 \<times> f32 \<times> f32 \<Rightarrow> f32 \<times> f32 \<times> f32" where
  "add3 (a, b, c) (x, y, z) = (f32_add a x, f32_add b y, f32_add c z)"

text \<open>The lambda \<open>consider\<close>.\<close>

definition flock_consider :: "flock_params \<Rightarrow> position \<Rightarrow> nt_entry \<Rightarrow> flock_acc \<Rightarrow> flock_acc" where
  "flock_consider params self_pos nb acc =
     (let sep_r_sq = f32_mul (fl_separation_radius_m params) (fl_separation_radius_m params);
          dx = f32_sub (pos_x self_pos) (pos_x (ne_position nb));
          dy = f32_sub (pos_y self_pos) (pos_y (ne_position nb));
          dz = f32_sub (pos_z self_pos) (pos_z (ne_position nb));
          d2 = dist_sq self_pos (ne_position nb);
          acc1 = (if f32_lt f32_zero d2 \<and> f32_lt d2 sep_r_sq
                  then let dist = f32_sqrt d2 in
                       acc\<lparr>fa_sep := add3 (fa_sep acc) (f32_div dx dist, f32_div dy dist, f32_div dz dist)\<rparr>
                  else acc);
          v = ne_velocity nb; p = ne_position nb
      in acc1\<lparr>fa_align := add3 (fa_align acc1) (vel_x v, vel_y v, vel_z v),
              fa_coh := add3 (fa_coh acc1) (pos_x p, pos_y p, pos_z p), fa_n := fa_n acc1 + 1\<rparr>)"

text \<open>The blend of the three rules for one axis.\<close>

definition steer :: "flock_params \<Rightarrow> f32 \<Rightarrow> f32 \<Rightarrow> f32 \<Rightarrow> f32 \<Rightarrow> f32 \<Rightarrow> f32 \<Rightarrow> f32 \<Rightarrow> f32" where
  "steer params delta_time inv_n sep align_acc coh_acc v p =
     (let align = f32_sub (f32_mul align_acc inv_n) v;
          coh = f32_sub (f32_mul coh_acc inv_n) p
      in f32_add v (f32_mul delta_time
           (f32_add (f32_add (f32_mul (fl_separation_weight params) sep) (f32_mul (fl_alignment_weight params) align))
                    (f32_mul (fl_cohesion_weight params) coh))))"

definition clamp_speed :: "f32 \<Rightarrow> velocity \<Rightarrow> velocity" where
  "clamp_speed max_speed v =
     (let speed_sq = f32_add (f32_add (f32_mul (vel_x v) (vel_x v)) (f32_mul (vel_y v) (vel_y v))) (f32_mul (vel_z v) (vel_z v));
          max_sq = f32_mul max_speed max_speed
      in if f32_lt max_sq speed_sq \<and> f32_lt f32_zero speed_sq
         then let scale = f32_div max_speed (f32_sqrt speed_sq) in
              \<lparr>vel_x = f32_mul (vel_x v) scale, vel_y = f32_mul (vel_y v) scale, vel_z = f32_mul (vel_z v) scale\<rparr>
         else v)"

definition flock_velocity :: "flock_params \<Rightarrow> f32 \<Rightarrow> position \<Rightarrow> velocity \<Rightarrow> nt_entry list \<Rightarrow> velocity" where
  "flock_velocity params delta_time pos vel visible =
     (let acc = fold (flock_consider params pos) visible flock_acc_zero in
      if fa_n acc = 0 then vel
      else
        let inv_n = f32_div f32_one (f32_of_nat (fa_n acc)) in
        case (fa_sep acc, fa_align acc, fa_coh acc) of
          ((sx, sy, sz), (ax, ay, az), (cx, cy, cz)) \<Rightarrow>
            clamp_speed (fl_max_speed_mps params)
              \<lparr>vel_x = steer params delta_time inv_n sx ax cx (vel_x vel) (pos_x pos),
               vel_y = steer params delta_time inv_n sy ay cy (vel_y vel) (pos_y pos),
               vel_z = steer params delta_time inv_n sz az cz (vel_z vel) (pos_z pos)\<rparr>)"

definition flocking_tick :: "flock_params \<Rightarrow> f32 \<Rightarrow> world \<Rightarrow> world res" where
  "flocking_tick params delta_time w =
     (if nt_entries (w_neighbours w) = [] then Inr w
      else
        let pos = self_position (w_self w) in
        rmap (\<lambda>visible. set_self (\<lambda>s. s\<lparr>self_velocity := flock_velocity params delta_time pos (self_velocity s) visible\<rparr>) w)
          (if f32_lt f32_zero (fl_vision_radius_m params)
           then nt_for_each_within (w_neighbours w) pos (fl_vision_radius_m params)
           else Inr (nt_entries (w_neighbours w))))"

section \<open>Effects\<close>

lemma fa_n_fold: "fa_n (fold (flock_consider params pos) es acc) = fa_n acc + length es"
  by (induction es arbitrary: acc) (simp_all add: flock_consider_def Let_def)

lemma flock_velocity_alone [simp]: "flock_velocity params dt pos vel [] = vel"
  by (simp add: flock_velocity_def flock_acc_zero_def)

text \<open>Only the velocity changes, and only if a neighbour is in view.\<close>

lemma flocking_tick_effect:
  assumes "flocking_tick params dt w = Inr w'"
  shows "\<exists>v. w' = set_self (\<lambda>s. s\<lparr>self_velocity := v\<rparr>) w"
proof (cases "nt_entries (w_neighbours w) = []")
  case True
  with assms show ?thesis by (intro exI [of _ "self_velocity (w_self w)"]) (simp add: flocking_tick_def set_self_def)
next
  case False
  with assms show ?thesis by (auto simp: flocking_tick_def Let_def rmap_eq_Inr_iff set_self_def split: if_splits)
qed

lemma kinematics_tick_effect:
  "kinematics_tick dt w = set_self (\<lambda>s. s\<lparr>self_position := self_position (w_self (kinematics_tick dt w))\<rparr>) w"
  by (simp add: kinematics_tick_def set_self_def Let_def)

text \<open>What a flocking tick looks at: the neighbours of the scanned cells that are in range, each once.\<close>

lemma flocking_local:
  assumes "nt_inv (w_neighbours w)" "f32_lt f32_zero (fl_vision_radius_m params)" "flocking_tick params dt w = Inr w'"
    and entries: "nt_entries (w_neighbours w) \<noteq> []"
  obtains visible where
    "set visible = {e \<in> set (nt_entries (w_neighbours w)). in_range (self_position (w_self w)) (fl_vision_radius_m params) e
       \<and> scanned (w_neighbours w) (self_position (w_self w)) (fl_vision_radius_m params) e}"
    "distinct (map ne_hid visible)"
    "self_velocity (w_self w') = flock_velocity params dt (self_position (w_self w)) (self_velocity (w_self w)) visible"
proof -
  from assms(2-3) entries obtain vs where q: "nt_for_each_within (w_neighbours w) (self_position (w_self w)) (fl_vision_radius_m params) = Inr vs"
      and w': "w' = set_self (\<lambda>s. s\<lparr>self_velocity := flock_velocity params dt (self_position (w_self w)) (self_velocity s) vs\<rparr>) w"
    by (auto simp: flocking_tick_def Let_def rmap_eq_Inr_iff)
  show ?thesis using query_result [OF assms(1) q] w' by (intro that [of vs]) simp_all
qed

lemma flocking_alone:
  assumes "nt_inv (w_neighbours w)" "f32_lt f32_zero (fl_vision_radius_m params)" "flocking_tick params dt w = Inr w'"
    and none: "\<forall>e \<in> set (nt_entries (w_neighbours w)). \<not> in_range (self_position (w_self w)) (fl_vision_radius_m params) e"
  shows "w' = w"
proof (cases "nt_entries (w_neighbours w) = []")
  case True
  with assms(3) show ?thesis by (simp add: flocking_tick_def)
next
  case False
  from assms obtain v where w': "w' = set_self (\<lambda>s. s\<lparr>self_velocity := v\<rparr>) w" using flocking_tick_effect by blast
  obtain visible where "set visible = {}" "self_velocity (w_self w') = flock_velocity params dt (self_position (w_self w)) (self_velocity (w_self w)) visible"
    using flocking_local [OF assms(1-3) False] none by (metis (no_types, lifting) Collect_empty_eq)
  then have "v = self_velocity (w_self w)" using w' by simp
  then show ?thesis using w' by (simp add: set_self_def)
qed

end
