(* ===== verification/Builtin_Systems.thy ===== *)
theory Builtin_Systems
  imports Beacon_System Actions Fault_Monitor Clock_Sync Task_Alloc Flocking
begin

text \<open>
  The built-in systems as the scheduler sees them: the descriptor each \<open>describe()\<close> returns and the
  \<open>tick\<close> as a step on the state of one robot, that is the world together with the private state of
  its systems.

  The results: the order in which a sequential tick runs the built-in systems, whatever the order of
  their registration; which of their accesses the descriptors do not declare.
\<close>

section \<open>The built-in component types\<close>

text \<open>The type as GCC prints it in \<open>__PRETTY_FUNCTION__\<close>; the tags are the addresses of the type tags.\<close>

definition gcc_type :: "string \<Rightarrow> nat \<Rightarrow> ctype" where
  "gcc_type n tag =
     \<lparr>ct_pretty = ''constexpr std::string_view mith::detail::pretty_function() [with T = '' @ n
        @ ''; std::string_view = std::basic_string_view<char>]'', ct_tag = tag\<rparr>"

definition IdentityT :: ctype where "IdentityT = gcc_type ''mith::IdentityComponent'' 1"
definition PositionT :: ctype where "PositionT = gcc_type ''mith::PositionComponent'' 2"
definition VelocityT :: ctype where "VelocityT = gcc_type ''mith::VelocityComponent'' 3"
definition OrientationT :: ctype where "OrientationT = gcc_type ''mith::OrientationComponent'' 4"
definition HealthT :: ctype where "HealthT = gcc_type ''mith::HealthComponent'' 5"
definition RoleT :: ctype where "RoleT = gcc_type ''mith::RoleComponent'' 6"
definition BehaviourT :: ctype where "BehaviourT = gcc_type ''mith::BehaviourStateComponent'' 7"
definition PermissionT :: ctype where "PermissionT = gcc_type ''mith::PermissionMaskComponent'' 8"
definition ActionsT :: ctype where "ActionsT = gcc_type ''mith::ActionQueueComponent'' 9"
definition CommT :: ctype where "CommT = gcc_type ''mith::CommBufferComponent'' 10"

definition builtin_types :: "ctype list" where
  "builtin_types = [IdentityT, PositionT, VelocityT, OrientationT, HealthT, RoleT, BehaviourT, PermissionT, ActionsT, CommT]"

definition RES_NEIGHBOUR_TABLE :: u16 where "RES_NEIGHBOUR_TABLE = 0"
definition RES_TRANSPORT_TX :: u16 where "RES_TRANSPORT_TX = 1"
definition RES_TRANSPORT_RX :: u16 where "RES_TRANSPORT_RX = 2"

section \<open>Descriptors\<close>

definition descr :: "string \<Rightarrow> ctype list \<Rightarrow> ctype list \<Rightarrow> u16 list \<Rightarrow> u16 list \<Rightarrow> descriptor" where
  "descr n rc wc rr wr = \<lparr>sd_name = n, reads_components = map component_id rc, writes_components = map component_id wc,
     reads_resources = rr, writes_resources = wr\<rparr>"

definition action_validator_describe :: descriptor where
  "action_validator_describe = descr ''ActionValidatorSystem'' [PermissionT] [ActionsT] [] []"

definition beacon_describe :: descriptor where
  "beacon_describe = descr ''BeaconSystem'' [IdentityT, PositionT, VelocityT, HealthT, RoleT, BehaviourT] [CommT]
     [RES_TRANSPORT_RX] [RES_NEIGHBOUR_TABLE, RES_TRANSPORT_TX]"

definition clock_sync_describe :: descriptor where
  "clock_sync_describe = descr ''ClockSyncSystem'' [] [] [RES_NEIGHBOUR_TABLE] []"

definition discovery_describe :: descriptor where
  "discovery_describe = descr ''DiscoverySystem'' [] [] [RES_NEIGHBOUR_TABLE] [RES_TRANSPORT_TX]"

definition fault_monitor_describe :: descriptor where
  "fault_monitor_describe = descr ''FaultMonitorSystem'' [HealthT] [HealthT, PermissionT, BehaviourT] [] []"

definition flocking_describe :: descriptor where
  "flocking_describe = descr ''FlockingSystem'' [PositionT, VelocityT] [VelocityT] [RES_NEIGHBOUR_TABLE] []"

definition hover_describe :: descriptor where
  "hover_describe = descr ''HoverActionHandler'' [ActionsT] [] [] []"

definition kinematics_describe :: descriptor where
  "kinematics_describe = descr ''KinematicsSystem'' [VelocityT] [PositionT] [] []"

definition move_describe :: descriptor where
  "move_describe = descr ''MoveActionHandler'' [ActionsT] [VelocityT] [] []"

definition partition_merge_describe :: descriptor where
  "partition_merge_describe = descr ''PartitionMergeSystem'' [] [] [RES_NEIGHBOUR_TABLE] []"

definition task_alloc_describe :: descriptor where
  "task_alloc_describe = descr ''TaskAllocSystem'' [RoleT, BehaviourT] [RoleT] [RES_NEIGHBOUR_TABLE] []"

definition transmit_describe :: descriptor where
  "transmit_describe = descr ''TransmitActionHandler'' [ActionsT] [] [] [RES_TRANSPORT_TX]"

lemmas describe_defs = action_validator_describe_def beacon_describe_def clock_sync_describe_def discovery_describe_def
  fault_monitor_describe_def flocking_describe_def hover_describe_def kinematics_describe_def move_describe_def
  partition_merge_describe_def task_alloc_describe_def transmit_describe_def

section \<open>A robot with the built-in systems\<close>

record robot =
  rb_world :: world
  rb_beacon :: beacon_sys
  rb_clock :: clock_sync
  rb_discovery :: discovery
  rb_fault :: fault_monitor
  rb_flock :: flock_params
  rb_hovered :: u64
  rb_moved :: u64
  rb_merge :: partition_merge
  rb_tasks :: task_alloc
  rb_transmitted :: u64

abbreviation rb_dt :: "robot \<Rightarrow> f32" where
  "rb_dt rb \<equiv> ctx_delta_time_s (w_context (rb_world rb))"

definition validator_step :: "robot \<Rightarrow> robot res" where
  "validator_step rb = Inr (rb\<lparr>rb_world := validator_tick (rb_world rb)\<rparr>)"

definition beacon_step :: "auth_build \<Rightarrow> robot \<Rightarrow> robot res" where
  "beacon_step auth rb =
     rmap (\<lambda>(bs, ds, w). rb\<lparr>rb_world := w, rb_beacon := bs, rb_discovery := ds\<rparr>)
       (beacon_tick auth (rb_dt rb) (rb_beacon rb, rb_discovery rb, rb_world rb))"

definition clock_sync_step :: "robot \<Rightarrow> robot res" where
  "clock_sync_step rb = (case clock_sync_tick (rb_clock rb, rb_world rb) of (cs, w) \<Rightarrow> Inr (rb\<lparr>rb_world := w, rb_clock := cs\<rparr>))"

definition discovery_step :: "auth_build \<Rightarrow> robot \<Rightarrow> robot res" where
  "discovery_step auth rb =
     (case discovery_tick auth (rb_dt rb) (rb_discovery rb, rb_world rb) of (ds, w) \<Rightarrow> Inr (rb\<lparr>rb_world := w, rb_discovery := ds\<rparr>))"

definition fault_monitor_step :: "robot \<Rightarrow> robot res" where
  "fault_monitor_step rb = (case fault_monitor_tick (rb_fault rb, rb_world rb) of (fm, w) \<Rightarrow> Inr (rb\<lparr>rb_world := w, rb_fault := fm\<rparr>))"

definition flocking_step :: "robot \<Rightarrow> robot res" where
  "flocking_step rb = rmap (\<lambda>w. rb\<lparr>rb_world := w\<rparr>) (flocking_tick (rb_flock rb) (rb_dt rb) (rb_world rb))"

definition hover_step :: "robot \<Rightarrow> robot res" where
  "hover_step rb = (case hover_tick (rb_hovered rb, rb_world rb) of (n, w) \<Rightarrow> Inr (rb\<lparr>rb_world := w, rb_hovered := n\<rparr>))"

definition kinematics_step :: "robot \<Rightarrow> robot res" where
  "kinematics_step rb = Inr (rb\<lparr>rb_world := kinematics_tick (rb_dt rb) (rb_world rb)\<rparr>)"

definition move_step :: "robot \<Rightarrow> robot res" where
  "move_step rb = (case move_tick (rb_moved rb, rb_world rb) of (n, w) \<Rightarrow> Inr (rb\<lparr>rb_world := w, rb_moved := n\<rparr>))"

definition partition_merge_step :: "robot \<Rightarrow> robot res" where
  "partition_merge_step rb =
     (case partition_merge_tick (rb_merge rb, rb_world rb) of (pm, w) \<Rightarrow> Inr (rb\<lparr>rb_world := w, rb_merge := pm\<rparr>))"

definition task_alloc_step :: "robot \<Rightarrow> robot res" where
  "task_alloc_step rb =
     (case task_alloc_tick (rb_dt rb) (rb_tasks rb, rb_world rb) of (ta, w) \<Rightarrow> Inr (rb\<lparr>rb_world := w, rb_tasks := ta\<rparr>))"

definition transmit_step :: "robot \<Rightarrow> robot res" where
  "transmit_step rb =
     (case transmit_tick (rb_transmitted rb, rb_world rb) of (n, w) \<Rightarrow> Inr (rb\<lparr>rb_world := w, rb_transmitted := n\<rparr>))"

text \<open>A system that is one fallible step; nothing runs after an abort.\<close>

definition step_system :: "descriptor \<Rightarrow> (robot \<Rightarrow> robot res) \<Rightarrow> robot res system" where
  "step_system d f = \<lparr>sys_describe = d, sys_actions = [\<lambda>r. rbind r f]\<rparr>"

definition builtin_steps :: "auth_build \<Rightarrow> (descriptor \<times> (robot \<Rightarrow> robot res)) list" where
  "builtin_steps auth =
     [(action_validator_describe, validator_step), (beacon_describe, beacon_step auth),
      (clock_sync_describe, clock_sync_step), (discovery_describe, discovery_step auth),
      (fault_monitor_describe, fault_monitor_step), (flocking_describe, flocking_step),
      (hover_describe, hover_step), (kinematics_describe, kinematics_step), (move_describe, move_step),
      (partition_merge_describe, partition_merge_step), (task_alloc_describe, task_alloc_step),
      (transmit_describe, transmit_step)]"

definition builtin_systems :: "auth_build \<Rightarrow> robot res system list" where
  "builtin_systems auth = map (\<lambda>(d, f). step_system d f) (builtin_steps auth)"

section \<open>The order of a tick\<close>

text \<open>The systems of a scheduler in the order of a sequential tick.\<close>

definition tick_order :: "'s system list \<Rightarrow> 's system list" where
  "tick_order ys = sort_key (\<lambda>y. sd_name (sys_describe y)) ys"

lemma map_sort_key: "map g (sort_key (f \<circ> g) xs) = sort_key f (map g xs)"
proof -
  have "map g (insort_key (f \<circ> g) x xs) = insort_key f (g x) (map g xs)" for x xs by (induction xs) simp_all
  then show ?thesis by (induction xs) simp_all
qed

lemma tick_sequential_order:
  assumes "build_graph hc s = (Ok, s')" "sc_systems s = ys"
  shows "tick_sequential s' w = Inr (fold system_tick (tick_order ys) w)"
proof -
  have s': "sc_built s'" "sc_systems s' = ys" "sc_order s' = sort_key (system_name ys) [0..<length ys]"
    using assms by (auto simp: build_graph_def Let_def split: if_splits)
  have "system_name ys = (\<lambda>y. sd_name (sys_describe y)) \<circ> (!) ys" by (simp add: fun_eq_iff system_name_def)
  then have "map ((!) ys) (sc_order s') = tick_order ys"
    using s'(3) by (simp add: map_sort_key tick_order_def map_nth)
  moreover have "fold (\<lambda>idx w. system_tick (ys ! idx) w) is w = fold system_tick (map ((!) ys) is) w" for "is"
    by (simp add: fold_map o_def)
  ultimately show ?thesis using s' by (simp add: tick_sequential_def)
qed

lemma builtin_names:
  "map (\<lambda>y. sd_name (sys_describe y)) (builtin_systems auth) =
     [''ActionValidatorSystem'', ''BeaconSystem'', ''ClockSyncSystem'', ''DiscoverySystem'', ''FaultMonitorSystem'',
      ''FlockingSystem'', ''HoverActionHandler'', ''KinematicsSystem'', ''MoveActionHandler'', ''PartitionMergeSystem'',
      ''TaskAllocSystem'', ''TransmitActionHandler'']"
  by (simp add: builtin_systems_def builtin_steps_def step_system_def describe_defs descr_def)

lemma builtin_names_sorted:
  "sorted (map (\<lambda>y. sd_name (sys_describe y)) (builtin_systems auth))"
  "distinct (map (\<lambda>y. sd_name (sys_describe y)) (builtin_systems auth))"
  unfolding builtin_names by code_simp+

lemma tick_order_builtin:
  assumes "mset ys = mset (builtin_systems auth)"
  shows "tick_order ys = builtin_systems auth"
proof -
  have "inj_on (\<lambda>y. sd_name (sys_describe y)) (set (builtin_systems auth))"
    using builtin_names_sorted(2) by (simp add: distinct_map)
  then have "inj_on (\<lambda>y. sd_name (sys_describe y)) (set ys)" using mset_eq_setD [OF assms] by simp
  then show ?thesis unfolding tick_order_def
    by (rule sort_key_inj_key_eq [OF assms]) (rule builtin_names_sorted(1))
qed

lemma step_system_tick [simp]: "system_tick (step_system d f) r = rbind r f"
  by (simp add: system_tick_def step_system_def run_actions_def)

lemma fold_step_systems:
  "fold system_tick (map (\<lambda>(d, f). step_system d f) dfs) (Inr rb) = rfold (\<lambda>(d, f). f) dfs rb"
proof (induction dfs arbitrary: rb)
  case (Cons df dfs)
  have inl: "fold system_tick (map (\<lambda>(d, f). step_system d f) dfs) (Inl e) = Inl e" for e dfs
    by (induction dfs) auto
  obtain d f where df: "df = (d, f)" by (cases df)
  then show ?case using Cons inl by (cases "f rb") simp_all
qed simp

text \<open>One tick of the built-in systems.\<close>

definition full_tick :: "auth_build \<Rightarrow> robot \<Rightarrow> robot res" where
  "full_tick auth rb =
     rbind (validator_step rb) (\<lambda>rb. rbind (beacon_step auth rb) (\<lambda>rb. rbind (clock_sync_step rb) (\<lambda>rb.
     rbind (discovery_step auth rb) (\<lambda>rb. rbind (fault_monitor_step rb) (\<lambda>rb. rbind (flocking_step rb) (\<lambda>rb.
     rbind (hover_step rb) (\<lambda>rb. rbind (kinematics_step rb) (\<lambda>rb. rbind (move_step rb) (\<lambda>rb.
     rbind (partition_merge_step rb) (\<lambda>rb. rbind (task_alloc_step rb) transmit_step))))))))))"

lemma full_tick_steps: "full_tick auth rb = rfold (\<lambda>(d, f). f) (builtin_steps auth) rb"
  by (simp add: builtin_steps_def full_tick_def rbind_assoc cong: rbind_cong)
    (simp add: rbind_def split: sum.split)

lemma builtin_tick:
  assumes "mset (sc_systems s) = mset (builtin_systems auth)" "build_graph hc s = (Ok, s')"
  shows "tick_sequential s' (Inr rb) = Inr (full_tick auth rb)"
proof -
  have "fold system_tick (builtin_systems auth) (Inr rb) = full_tick auth rb"
    by (simp add: builtin_systems_def fold_step_systems full_tick_steps)
  then show ?thesis
    using tick_sequential_order [OF assms(2) refl, of "Inr rb"] tick_order_builtin [OF assms(1)] by simp
qed


definition robot_new :: "world \<Rightarrow> robot" where
  "robot_new w =
     \<lparr>rb_world = snd (discovery_new discovery_params_default w), rb_beacon = beacon_sys_new (w_config w),
      rb_clock = clock_sync_new clock_params_default, rb_discovery = fst (discovery_new discovery_params_default w),
      rb_fault = fault_monitor_new fault_params_default, rb_flock = flock_params_default, rb_hovered = 0, rb_moved = 0,
      rb_merge = partition_merge_new merge_params_default, rb_tasks = task_alloc_new task_params_default, rb_transmitted = 0\<rparr>"

definition example_stack :: "robot res scheduler" where
  "example_stack = (scheduler_new Sequential 0)\<lparr>sc_systems := rev (builtin_systems None)\<rparr>"


section \<open>What no system changes\<close>

text \<open>The configuration, the swarm context and the time of the last rotation belong to the world.\<close>

lemma clock_sync_tick_frame:
  "\<exists>v. snd (clock_sync_tick (cs, w)) = set_clock_offset_s v w"
proof -
  have "w = set_clock_offset_s (w_clock_offset_s w) w" by (simp add: set_clock_offset_s_def)
  then show ?thesis by (auto simp: clock_sync_tick_def Let_def split: prod.split)
qed

definition keeps_clock :: "world \<Rightarrow> world \<Rightarrow> bool" where
  "keeps_clock w w' \<longleftrightarrow> w_context w' = w_context w \<and> w_config w' = w_config w \<and> w_initialized w' = w_initialized w
     \<and> w_last_rotation_time_s w' = w_last_rotation_time_s w"

lemma keeps_clock_refl [simp]: "keeps_clock w w"
  by (simp add: keeps_clock_def)

lemma keeps_clock_trans: "keeps_clock w w' \<Longrightarrow> keeps_clock w' w'' \<Longrightarrow> keeps_clock w w''"
  by (simp add: keeps_clock_def)

lemma keeps_clock_basic [simp]:
  "keeps_clock w (emit_trace e w') \<longleftrightarrow> keeps_clock w w'" "keeps_clock w (upd_actions g w') \<longleftrightarrow> keeps_clock w w'"
  "keeps_clock w (set_queue q w') \<longleftrightarrow> keeps_clock w w'"
  by (auto simp: keeps_clock_def set_self_def emit_trace_def upd_actions_def set_queue_def split: option.split)

text \<open>\<open>keeps_trace\<close>: nothing was traced either.\<close>

definition keeps_trace :: "world \<Rightarrow> world \<Rightarrow> bool" where
  "keeps_trace w w' \<longleftrightarrow> keeps_clock w w' \<and> w_sink w' = w_sink w"

lemma keeps_trace_refl [simp]: "keeps_trace w w"
  by (simp add: keeps_trace_def)

lemma keeps_trace_trans: "keeps_trace w w' \<Longrightarrow> keeps_trace w' w'' \<Longrightarrow> keeps_trace w w''"
  by (auto simp: keeps_trace_def intro: keeps_clock_trans)

lemma keeps_trace_basic [simp]:
  "keeps_trace w (set_self f w') \<longleftrightarrow> keeps_trace w w'" "keeps_trace w (send_packet p w') \<longleftrightarrow> keeps_trace w w'"
  "keeps_trace w (upd_actions g w') \<longleftrightarrow> keeps_trace w w'" "keeps_trace w (set_queue q w') \<longleftrightarrow> keeps_trace w w'"
  "keeps_trace w (set_clock_offset_s v w') \<longleftrightarrow> keeps_trace w w'" "keeps_trace w (set_merge_window_s v w') \<longleftrightarrow> keeps_trace w w'"
  "keeps_trace w (w'\<lparr>w_neighbours := t\<rparr>) \<longleftrightarrow> keeps_trace w w'" "keeps_trace w (w'\<lparr>w_peer_keys := k\<rparr>) \<longleftrightarrow> keeps_trace w w'"
  "keeps_trace w (w'\<lparr>w_port := pt\<rparr>) \<longleftrightarrow> keeps_trace w w'" "keeps_trace w (pin_advertised auth m w') \<longleftrightarrow> keeps_trace w w'"
  by (auto simp: keeps_trace_def keeps_clock_def set_self_def send_packet_def upd_actions_def set_queue_def set_clock_offset_s_def
      set_merge_window_s_def pin_advertised_def split: option.split)

lemma fold_keeps:
  assumes "\<And>x s. P s \<Longrightarrow> P (f x s)" "P s"
  shows "P (fold f xs s)"
  using assms(2) by (induction xs arbitrary: s) (simp_all add: assms(1))

lemma validator_keeps: "keeps_clock w (validator_tick w)"
  by (simp add: validator_tick_def validator_loop_keeps [where P = "keeps_clock w"] validate_action_def Let_def)

lemma handlers_keep: "keeps_trace w (snd (move_tick (n, w)))" "keeps_trace w (snd (transmit_tick (n, w)))" "keeps_trace w (snd (hover_tick (n, w)))"
  unfolding move_tick_def transmit_tick_def hover_tick_def
  by (auto intro!: fold_keeps [where P = "\<lambda>s. keeps_trace w (snd s)"])

lemma discovery_keeps: "keeps_trace w (snd (discovery_tick auth dt (ds, w)))" "keeps_trace w (snd (snd (handle_message auth m (ds, w))))"
  by (simp_all add: discovery_tick_def handle_message_def Let_def)

lemma run_handlers_keep: "keeps_trace w (snd dw) \<Longrightarrow> keeps_trace w (snd (snd (run_handlers auth m hs dw)))"
proof (induction hs arbitrary: dw)
  case (Cons h hs)
  obtain ds w1 where dw: "dw = (ds, w1)" by (cases dw)
  show ?case using Cons keeps_trace_trans [OF _ discovery_keeps(2)] dw
    by (auto split: message_handler.split prod.split bool.split) (metis snd_conv)+
qed simp

lemma deliver_keeps: "keeps_trace w (snd dw) \<Longrightarrow> keeps_trace w (snd (deliver_message auth m dw))"
  using run_handlers_keep [of w dw auth m "w_handlers (snd dw)"] by (auto simp: deliver_message_def split: prod.split bool.split)

lemma receive_beacon_keeps: "receive_beacon auth own b (r, w) = Inr (r', w') \<Longrightarrow> keeps_trace w w'"
  by (auto simp: receive_beacon_def accept_beacon_def rmap_eq_Inr_iff split: option.splits if_splits prod.splits)

lemma beacon_keeps:
  assumes "beacon_tick auth dt (bs, ds, w) = Inr (bs', ds', w')"
  shows "keeps_trace w w'"
proof -
  have drain: "keeps_trace w0 w1" if "drain_beacons auth own (b0, w0) = Inr (b1, w1)" for own b0 w0 b1 w1
  proof (cases "tp_beacon (w_port w0) = Some True")
    case True
    note drained = that
    obtain r where "rfold (receive_beacon auth own) (tp_in_beacons (w_port w0)) (bs_rejected_beacons b0, w0\<lparr>w_port := (w_port w0)\<lparr>tp_in_beacons := []\<rparr>\<rparr>) = Inr (r, w1)"
      using drained True by (auto simp: drain_beacons_def take_beacons_def rmap_eq_Inr_iff)
    then have "keeps_trace w0 (snd (r, w1))"
      by (rule rfold_invariant) (auto dest!: receive_beacon_keeps dest: keeps_trace_trans)
    then show ?thesis by simp
  qed (use that in \<open>simp add: drain_beacons_def\<close>)
  have msgs: "keeps_trace w0 (snd (drain_messages auth (d0, w0)))" for d0 w0
    by (auto simp: drain_messages_def take_messages_def intro!: fold_keeps [where P = "\<lambda>s. keeps_trace w0 (snd s)"] deliver_keeps)
  have emit: "keeps_trace w0 (snd (emit_beacon auth dt sv (b0, w0)))" for sv b0 w0 by (simp add: emit_beacon_def Let_def)
  obtain t where t: "nt_age_out (ctx_elapsed_time_s (w_context w)) (bs_neighbour_timeout_s bs) (w_neighbours w) = Inr t"
    using assms by (auto simp: beacon_tick_def rbind_eq_Inr_iff)
  let ?w = "w\<lparr>w_neighbours := t\<rparr>"
  obtain b1 w1 where e: "emit_beacon auth dt (own_beacon ?w) (bs, ?w) = (b1, w1)" by fastforce
  show ?thesis
  proof (cases "tp_beacon (w_port ?w) = None \<and> tp_message (w_port ?w) = None")
    case False
    then obtain b2 w2 where d: "drain_beacons auth (sv_id (own_beacon ?w)) (b1, w1) = Inr (b2, w2)"
      and w': "w' = snd (drain_messages auth (ds, w2))"
      using assms t e by (auto simp: beacon_tick_def rmap_eq_Inr_iff Let_def split: prod.splits)
    have "keeps_trace ?w w1" using emit [of ?w "own_beacon ?w" bs] e by simp
    from keeps_trace_trans [OF keeps_trace_trans [OF this drain [OF d]] msgs [of w2 ds]] w'
    show ?thesis by (simp add: keeps_trace_def keeps_clock_def)
  qed (use assms t in \<open>auto simp: beacon_tick_def Let_def\<close>)
qed

lemma ticks_keep:
  "move_tick (n, w) = (n', w') \<Longrightarrow> keeps_trace w w'" "transmit_tick (n, w) = (n', w') \<Longrightarrow> keeps_trace w w'"
  "hover_tick (n, w) = (n', w') \<Longrightarrow> keeps_trace w w'" "discovery_tick auth dt (ds, w) = (ds', w') \<Longrightarrow> keeps_trace w w'"
  "clock_sync_tick (cs, w) = (cs', w') \<Longrightarrow> keeps_trace w w'" "fault_monitor_tick (fm, w) = (fm', w') \<Longrightarrow> keeps_trace w w'"
  "partition_merge_tick (pm, w) = (pm', w') \<Longrightarrow> keeps_trace w w'" "task_alloc_tick dt (ta, w) = (ta', w') \<Longrightarrow> keeps_trace w w'"
  using handlers_keep [of w n] discovery_keeps(1) [of w auth dt ds] clock_sync_tick_frame [of cs w]
  by (auto simp: fault_monitor_tick_def partition_merge_tick_def task_alloc_tick_def Let_def split: prod.splits option.splits if_splits)

text \<open>Only the validator, the first step, traces.\<close>

lemma other_steps_keep:
  assumes "(d, f) \<in> set (tl (builtin_steps auth))" "f rb = Inr rb'"
  shows "keeps_trace (rb_world rb) (rb_world rb')"
  using assms flocking_tick_effect [of "rb_flock rb" "rb_dt rb" "rb_world rb"]
  by (auto simp: builtin_steps_def beacon_step_def clock_sync_step_def discovery_step_def fault_monitor_step_def
      flocking_step_def hover_step_def kinematics_step_def move_step_def partition_merge_step_def task_alloc_step_def transmit_step_def
      rmap_eq_Inr_iff kinematics_tick_def split: prod.splits dest!: ticks_keep beacon_keeps)

lemma full_tick_keeps_trace:
  assumes "full_tick auth rb = Inr rb'"
  shows "keeps_trace (validator_tick (rb_world rb)) (rb_world rb')"
proof -
  let ?rb = "rb\<lparr>rb_world := validator_tick (rb_world rb)\<rparr>"
  have "builtin_steps auth = (action_validator_describe, validator_step) # tl (builtin_steps auth)" by (simp add: builtin_steps_def)
  then have "rfold (\<lambda>(d, f). f) (tl (builtin_steps auth)) ?rb = Inr rb'"
    using assms unfolding full_tick_steps by (metis (no_types, lifting) case_prod_conv rbind_Inr rfold.simps(2) validator_step_def)
  then have "keeps_trace (rb_world ?rb) (rb_world rb')"
    by (rule rfold_invariant) (auto dest: other_steps_keep keeps_trace_trans)
  then show ?thesis by simp
qed

lemma full_tick_keeps:
  assumes "full_tick auth rb = Inr rb'"
  shows "keeps_clock (rb_world rb) (rb_world rb')"
  using validator_keeps [of "rb_world rb"] full_tick_keeps_trace [OF assms] keeps_clock_trans by (auto simp: keeps_trace_def)

text \<open>A robot that hears nothing, has no transport and has sent nothing.\<close>

definition alone :: "world \<Rightarrow> bool" where
  "alone w \<longleftrightarrow> nt_entries (w_neighbours w) = [] \<and> tp_beacon (w_port w) = None \<and> tp_message (w_port w) = None \<and> tp_sent (w_port w) = []"

lemma alone_basic [simp]:
  "alone (set_self f w) \<longleftrightarrow> alone w" "alone (emit_trace e w) \<longleftrightarrow> alone w" "alone (upd_actions g w) \<longleftrightarrow> alone w"
  "alone (set_queue q w) \<longleftrightarrow> alone w" "alone (set_clock_offset_s v w) \<longleftrightarrow> alone w" "alone (set_merge_window_s v w) \<longleftrightarrow> alone w"
  by (auto simp: alone_def set_self_def emit_trace_def upd_actions_def set_queue_def set_clock_offset_s_def
      set_merge_window_s_def split: option.split)

lemma validator_alone: "alone (validator_tick w) \<longleftrightarrow> alone w"
  by (simp add: validator_tick_def validator_loop_keeps [where P = alone] validate_action_def Let_def)

lemma ticks_alone:
  assumes "alone w"
  shows "alone (snd (move_tick (n, w)))" "transmit_tick (n, w) = (n, w)" "alone (snd (hover_tick (n, w)))"
    "snd (discovery_tick auth dt (ds, w)) = w" "alone (snd (clock_sync_tick (cs, w)))" "alone (snd (fault_monitor_tick (fm, w)))"
    "alone (snd (partition_merge_tick (pm, w)))" "alone (snd (task_alloc_tick dt (ta, w)))" "flocking_tick fp dt w = Inr w"
    "\<exists>w'. beacon_tick auth dt (bs, ds, w) = Inr (bs, ds, w') \<and> alone w'"
  using assms clock_sync_tick_frame [of cs w] fold_keeps [where P = "\<lambda>s. alone (snd s)"]
  by (auto simp: move_tick_def transmit_tick_def hover_tick_def discovery_tick_def fault_monitor_tick_def partition_merge_tick_def
      task_alloc_tick_def flocking_tick_def beacon_tick_def nt_age_out_def Let_def alone_def [of "_\<lparr>w_neighbours := _\<rparr>"] alone_def [of w]
      intro!: fold_keeps [where P = "\<lambda>s. alone (snd s)"] split: option.split prod.split)

lemma builtin_steps_alone:
  assumes "(d, f) \<in> set (builtin_steps auth)" "alone (rb_world rb)"
  shows "\<exists>rb'. f rb = Inr rb' \<and> alone (rb_world rb')"
proof -
  note t = ticks_alone [OF assms(2)]
  have k: "alone (kinematics_tick dt w) \<longleftrightarrow> alone w" for dt w by (simp add: kinematics_tick_def)
  show ?thesis
    using assms t(1) [of "rb_moved rb"] t(2) [of "rb_transmitted rb"] t(3) [of "rb_hovered rb"] t(4) [of auth "rb_dt rb" "rb_discovery rb"]
      t(5) [of "rb_clock rb"] t(6) [of "rb_fault rb"] t(7) [of "rb_merge rb"] t(8) [of "rb_dt rb" "rb_tasks rb"] t(9) [of "rb_flock rb" "rb_dt rb"]
      t(10) [of auth "rb_dt rb" "rb_beacon rb" "rb_discovery rb"] validator_alone [of "rb_world rb"]
    by (auto simp: builtin_steps_def validator_step_def beacon_step_def clock_sync_step_def discovery_step_def fault_monitor_step_def
        flocking_step_def hover_step_def kinematics_step_def move_step_def partition_merge_step_def task_alloc_step_def transmit_step_def
        k rmap_eq_Inr_iff split: prod.splits)
qed

lemma full_tick_alone:
  assumes "alone (rb_world rb)"
  shows "\<exists>rb'. full_tick auth rb = Inr rb' \<and> alone (rb_world rb')"
proof -
  have "set dfs \<subseteq> set (builtin_steps auth) \<Longrightarrow> alone (rb_world rb) \<Longrightarrow> \<exists>rb'. rfold (\<lambda>(d, f). f) dfs rb = Inr rb' \<and> alone (rb_world rb')" for dfs rb
  proof (induction dfs arbitrary: rb)
    case (Cons df dfs)
    obtain d f where df: "df = (d, f)" by (cases df)
    with Cons.prems obtain rb1 where "f rb = Inr rb1" "alone (rb_world rb1)" using builtin_steps_alone by (metis list.set_intros(1) subsetD)
    with Cons df show ?case by simp
  qed simp
  then show ?thesis using assms by (simp add: full_tick_steps)
qed

section \<open>Accesses that the descriptors do not declare\<close>

text \<open>
  The clock offset and the merge window are members of the world and no resource identifier stands for
  them.  A scheduler in parallel mode may therefore run the clock synchronisation beside the transmit
  handler, which stamps messages with the synchronised time, and the partition merge beside the task
  allocation, which reads the merge window.
\<close>

lemmas no_component_hazard = have_hazard_def intersects_def describe_defs descr_def
  RES_NEIGHBOUR_TABLE_def RES_TRANSPORT_TX_def RES_TRANSPORT_RX_def

theorem clock_transmit_undeclared:
  assumes "tp_message (w_port w) = Some True" "\<exists>a \<in> set (validated_actions w). act_type a = ACTION_TRANSMIT"
    and "synced_time_s (snd (clock_sync_tick (cs, w))) \<noteq> synced_time_s w"
  shows "\<not> have_hazard clock_sync_describe transmit_describe
    \<and> sent_packets (snd (transmit_tick (h, snd (clock_sync_tick (cs, w)))))
      \<noteq> sent_packets (snd (clock_sync_tick (cs, snd (transmit_tick (h, w)))))"
proof -
  obtain v where v: "snd (clock_sync_tick (cs, w)) = set_clock_offset_s v w" using clock_sync_tick_frame by blast
  obtain u where u: "snd (clock_sync_tick (cs, snd (transmit_tick (h, w)))) = set_clock_offset_s u (snd (transmit_tick (h, w)))"
    using clock_sync_tick_frame by blast
  let ?w1 = "set_clock_offset_s v w" and ?as = "filter (\<lambda>a. act_type a = ACTION_TRANSMIT) (validated_actions w)"
  have f: "sent_packets (set_clock_offset_s x y) = sent_packets y" "w_port (set_clock_offset_s x y) = w_port y"
    "validated_actions (set_clock_offset_s x y) = validated_actions y" for x y
    by (simp_all add: set_clock_offset_s_def sent_packets_def validated_actions_def)
  obtain a as where as: "?as = a # as" using assms(2) by (cases ?as) (auto simp: filter_empty_conv)
  have "msg_timestamp_s (transmit_message ?w1 a) \<noteq> msg_timestamp_s (transmit_message w a)"
    using assms(3) v by (simp add: transmit_message_def Let_def)
  then have ne: "transmit_message ?w1 a \<noteq> transmit_message w a" by metis
  have hz: "\<not> have_hazard clock_sync_describe transmit_describe" by (simp add: no_component_hazard)
  have "sent_packets (snd (transmit_tick (h, ?w1))) \<noteq> sent_packets (snd (transmit_tick (h, w)))"
    using transmit_tick_effect [OF assms(1), of h] transmit_tick_effect [of ?w1 h] assms(1) f as ne by simp
  then show ?thesis using u v f(1) hz by simp
qed

definition example_table :: neighbour_table where
  "example_table = nt_new\<lparr>nt_entries := map (\<lambda>k. entry_of (state_vector_default
     \<lparr>sv_id := HID 1 (UUID (replicate 16 k)), sv_sync_time_s := f32_one\<rparr>) f32_zero UNKNOWN_RSSI) [1, 2, 3]\<rparr>"

definition example_swarm :: world where
  "example_swarm = (world_new world_config_default port_unified)\<lparr>w_neighbours := example_table\<rparr>"

lemma example_swarm_sel: "self_role (w_self example_swarm) = 0" "w_neighbours example_swarm = example_table" "is_merging example_swarm = False"
  by (simp_all add: example_swarm_def world_new_def self_default_def is_merging_def)

lemma example_role_switch:
  "self_role (w_self (snd (task_alloc_tick 0x3D4CCCCD (example_alloc, set_merge_window_s m example_swarm))))
     = (if f32_lt f32_zero m then 3 else 0)"
proof -
  have c: "role_counts 0 (nt_entries example_table) = (4 # replicate 7 0, 4)"
    by (simp add: role_counts_def example_table_def nt_new_def entry_of_def state_vector_default_def count_role_def numeral_eq_Suc)
  have b: "map_option snd (best_role (ta_params example_alloc) (4 # replicate 7 0) (f32_of_nat 4)) = Some 3" by code_simp
  have t: "\<not> f32_le (tk_stability_window_s (ta_params example_alloc)) (f32_add (ta_time_since_last_switch_s example_alloc) 0x3D4CCCCD)"
    "f32_le f32_zero (f32_add (ta_time_since_last_switch_s example_alloc) 0x3D4CCCCD)" by code_simp+
  show ?thesis using b c t example_swarm_sel
    by (auto simp: task_alloc_tick_def Let_def is_merging_def set_merge_window_s_def)
qed

theorem merge_tasks_undeclared:
  "let pm = partition_merge_new merge_params_default; ta = example_alloc; w = example_swarm; dt = 0x3D4CCCCD in
   \<not> have_hazard partition_merge_describe task_alloc_describe
   \<and> self_role (w_self (snd (task_alloc_tick dt (ta, snd (partition_merge_tick (pm, w)))))) = 3
   \<and> self_role (w_self (snd (partition_merge_tick (pm, snd (task_alloc_tick dt (ta, w)))))) = 0"
proof -
  have 1: "\<not> have_hazard partition_merge_describe task_alloc_describe" by (simp add: no_component_hazard)
  have 2: "snd (partition_merge_tick (partition_merge_new merge_params_default, example_swarm)) = set_merge_window_s 0x40000000 example_swarm"
    by (simp add: partition_merge_tick_def partition_merge_new_def merge_params_default_def example_swarm_def example_table_def peer_count_def Let_def)
  have 3: "set_merge_window_s (w_merge_window_remaining_s example_swarm) example_swarm = example_swarm" "w_merge_window_remaining_s example_swarm = f32_zero"
    by (simp_all add: set_merge_window_s_def example_swarm_def world_new_def)
  have 4: "f32_lt f32_zero 0x40000000" "\<not> f32_lt f32_zero f32_zero" by code_simp+
  have 5: "self_role (w_self (snd (partition_merge_tick (pm, w)))) = self_role (w_self w)" for pm w
    by (simp add: partition_merge_tick_def Let_def set_merge_window_s_def)
  show ?thesis
    using 1 2 4 5 example_role_switch [of "0x40000000"] example_role_switch [of f32_zero] 3 by (simp add: Let_def)
qed

end
