(* ===== verification/World_Lifecycle.thy ===== *)
theory World_Lifecycle
  imports Builtin_Systems
begin

text \<open>
  The life of a \<open>World\<close> (src/core/world.cpp): construction, \<open>init\<close>, \<open>tick\<close>, \<open>run\<close> and identity rotation.

  A node is the registry, the scheduler and the robot, that is the world with the state of its
  systems.  The components of the self entity live in the registry; \<open>w_self\<close> is their abstraction,
  and the first part shows that \<open>init\<close> establishes it and that every write of a built-in component keeps it.

  Randomness is a parameter: \<open>rd\<close> is the entropy of one UUID and \<open>kp\<close> the result of one call of
  TweetNaCl's key generation.  The tick is that of a sequential scheduler; for a parallel one the
  results of the scheduler apply to the step between \<open>tick_begin\<close> and \<open>tick_end\<close>.
\<close>

section \<open>The components of the self entity\<close>

datatype component = CIdentity hid | CPosition position | CVelocity velocity | COrientation orientation | CHealth u8
  | CRole u32 | CBehaviour u32 | CPermission permission_mask | CActions action_queue | CComm "message bqueue"
  | CUser "byte list"

text \<open>The built-in components of a self state with their types.\<close>

definition components_of :: "self_state \<Rightarrow> (ctype \<times> component) list" where
  "components_of s =
     [(IdentityT, CIdentity (self_identity s)), (PositionT, CPosition (self_position s)), (VelocityT, CVelocity (self_velocity s)),
      (OrientationT, COrientation (self_orientation s)), (HealthT, CHealth (self_health s)), (RoleT, CRole (self_role s)),
      (BehaviourT, CBehaviour (self_behaviour s)), (PermissionT, CPermission (self_permission s)),
      (ActionsT, CActions (self_actions s)), (CommT, CComm (self_comm s))]"

text \<open>The registry holds the self state.\<close>

definition self_in :: "component registry \<Rightarrow> self_state \<Rightarrow> bool" where
  "self_in r s \<longleftrightarrow> list_all (\<lambda>(t, v). bound t r \<and> reg_value t r = Some v) (components_of s)"

fun type_of :: "component \<Rightarrow> ctype option" where
  "type_of (CIdentity _) = Some IdentityT" | "type_of (CPosition _) = Some PositionT" | "type_of (CVelocity _) = Some VelocityT"
| "type_of (COrientation _) = Some OrientationT" | "type_of (CHealth _) = Some HealthT" | "type_of (CRole _) = Some RoleT"
| "type_of (CBehaviour _) = Some BehaviourT" | "type_of (CPermission _) = Some PermissionT"
| "type_of (CActions _) = Some ActionsT" | "type_of (CComm _) = Some CommT" | "type_of (CUser _) = None"

fun set_component :: "component \<Rightarrow> self_state \<Rightarrow> self_state" where
  "set_component (CIdentity v) s = s\<lparr>self_identity := v\<rparr>" | "set_component (CPosition v) s = s\<lparr>self_position := v\<rparr>"
| "set_component (CVelocity v) s = s\<lparr>self_velocity := v\<rparr>" | "set_component (COrientation v) s = s\<lparr>self_orientation := v\<rparr>"
| "set_component (CHealth v) s = s\<lparr>self_health := v\<rparr>" | "set_component (CRole v) s = s\<lparr>self_role := v\<rparr>"
| "set_component (CBehaviour v) s = s\<lparr>self_behaviour := v\<rparr>" | "set_component (CPermission v) s = s\<lparr>self_permission := v\<rparr>"
| "set_component (CActions v) s = s\<lparr>self_actions := v\<rparr>" | "set_component (CComm v) s = s\<lparr>self_comm := v\<rparr>"
| "set_component (CUser v) s = s"

lemma builtin_ids:
  "map component_id builtin_types =
     [0x796997A3099B7254, 0x16BA4C097C4A0BF3, 0xC35553D429FDF2EF, 0x77008E899CF79796,
      0xCD5AB922CDCF142C, 0x889A13F4B6AEB0CE, 0xA8B4BE4248E2DC42, 0xF015978AE81BAE7F,
      0x18879F044895048F, 0x7C5779033F2CFDD4]"
  by code_simp

lemma builtin_ids_distinct: "distinct (map component_id builtin_types)"
  by (simp add: builtin_ids)

lemma components_of_types: "map fst (components_of s) = builtin_types"
  by (simp add: components_of_def builtin_types_def)

lemma components_of_set:
  "type_of c = Some t \<Longrightarrow> components_of (set_component c s) = map (\<lambda>(u, v). if component_id u = component_id t then (u, c) else (u, v)) (components_of s)
     \<and> t \<in> set builtin_types"
  using builtin_ids by (cases c) (auto simp: components_of_def builtin_types_def)

text \<open>
  Claim C11.  \<open>w_self\<close> refines the registry: where the registry holds a self state, every built-in component can be
  read with the value of its field, and storing a built-in component succeeds and leads to a registry
  that holds the self state with that field replaced and every other field unchanged.
\<close>

theorem self_state_refines_registry:
  assumes "self_in r s" "type_of c = Some t"
  shows "list_all (\<lambda>(u, v). reg_get u SELF_ENTITY r = Inr v) (components_of s)
    \<and> (\<exists>r'. reg_emplace t SELF_ENTITY c r = Inr r' \<and> self_in r' (set_component c s))"
proof
  show "list_all (\<lambda>(u, v). reg_get u SELF_ENTITY r = Inr v) (components_of s)"
    using assms(1) by (auto simp: self_in_def list_all_iff get_bound_res split: option.split)
  have "t \<in> fst ` set (components_of s)"
    using components_of_set [OF assms(2)] by (metis components_of_types set_map)
  then have b: "bound t r" using assms(1) by (auto simp: self_in_def list_all_iff)
  have "reg_emplace t SELF_ENTITY c r = Inr (reg_put t c r)" by (rule emplace_bound [OF b, of c]) (simp add: reg_put_def)
  moreover have "self_in (reg_put t c r) (set_component c s)"
    using assms(1) components_of_set [OF assms(2), of s] put_bound [OF b] get_put_bound [OF b]
    by (auto simp: self_in_def list_all_iff split: if_splits)
  ultimately show "\<exists>r'. reg_emplace t SELF_ENTITY c r = Inr r' \<and> self_in r' (set_component c s)" by blast
qed

section \<open>Attaching the components\<close>

definition default_components :: "hid \<Rightarrow> (ctype \<times> component) list" where
  "default_components h =
     [(IdentityT, CIdentity h), (PositionT, CPosition position_default), (VelocityT, CVelocity velocity_default),
      (OrientationT, COrientation orientation_default), (HealthT, CHealth health_default), (RoleT, CRole 0),
      (BehaviourT, CBehaviour 0), (PermissionT, CPermission permission_default), (ActionsT, CActions action_queue_default),
      (CommT, CComm (bq_new COMM_BUFFER_CAPACITY message_default))]"

definition registry_init :: "hid \<Rightarrow> component registry \<Rightarrow> component registry res" where
  "registry_init h r =
     (let r1 = fold (\<lambda>t r. snd (register_builtin_component t r)) builtin_types r
      in rmap registry_lock (rfold (\<lambda>(t, v). reg_emplace t SELF_ENTITY v) (default_components h) r1))"

text \<open>No type of the user sits under the identifier of a built-in type.\<close>

definition no_collision :: "component registry \<Rightarrow> bool" where
  "no_collision r \<longleftrightarrow> list_all (\<lambda>t. case map_of (reg_stores r) (component_id t) of None \<Rightarrow> True
     | Some st \<Rightarrow> st_type_tag st = ct_tag t) builtin_types"

lemma register_builtin_facts:
  assumes "\<not> (reg_locked r \<and> reg_policy r = LockAfterInit)"
    and "\<And>st. map_of (reg_stores r) (component_id t) = Some st \<Longrightarrow> st_type_tag st = ct_tag t"
  defines "r' \<equiv> snd (register_builtin_component t r)"
  shows "bound t r'" "reg_locked r' = reg_locked r" "reg_policy r' = reg_policy r"
    "i \<noteq> component_id t \<Longrightarrow> map_of (reg_stores r') i = map_of (reg_stores r) i"
    "bound u r \<Longrightarrow> bound u r'"
  using assms(1,2) unfolding r'_def
  by (auto simp: register_builtin_component_def register_impl_def bound_def Let_def map_of_om_emplace split: option.split)

lemma register_builtins_facts:
  assumes "\<not> (reg_locked r \<and> reg_policy r = LockAfterInit)" "distinct (map component_id ts)"
    and "\<forall>t \<in> set ts. \<forall>st. map_of (reg_stores r) (component_id t) = Some st \<longrightarrow> st_type_tag st = ct_tag t"
  shows "let r' = fold (\<lambda>t r. snd (register_builtin_component t r)) ts r in
    (\<forall>t \<in> set ts. bound t r') \<and> (\<forall>u. bound u r \<longrightarrow> bound u r') \<and> reg_locked r' = reg_locked r \<and> reg_policy r' = reg_policy r
    \<and> (\<forall>i. i \<notin> component_id ` set ts \<longrightarrow> map_of (reg_stores r') i = map_of (reg_stores r) i)"
  using assms
proof (induction ts arbitrary: r)
  case (Cons t ts)
  let ?r = "snd (register_builtin_component t r)"
  have "\<And>st. map_of (reg_stores r) (component_id t) = Some st \<Longrightarrow> st_type_tag st = ct_tag t" using Cons.prems(3) by simp
  note one = register_builtin_facts [of r t, OF Cons.prems(1) this]
  have "\<forall>t' \<in> set ts. \<forall>st. map_of (reg_stores ?r) (component_id t') = Some st \<longrightarrow> st_type_tag st = ct_tag t'"
    using Cons.prems(2,3) one(4) by (auto simp: image_iff)
  moreover have "\<not> (reg_locked ?r \<and> reg_policy ?r = LockAfterInit)" "distinct (map component_id ts)"
    using Cons.prems(1,2) one(2,3) by simp_all
  ultimately show ?case using Cons.IH [of ?r] one by (auto simp: Let_def)
qed (simp add: Let_def)

lemma put_all_frame:
  assumes "\<forall>(t, v) \<in> set tvs. bound t r"
  shows "let r' = fold (\<lambda>(t, v) s. reg_put t v s) tvs r in
    (\<forall>u. bound u r' \<longleftrightarrow> bound u r) \<and> reg_locked r' = reg_locked r \<and> reg_policy r' = reg_policy r
    \<and> (\<forall>i. i \<notin> component_id ` fst ` set tvs \<longrightarrow> map_of (reg_stores r') i = map_of (reg_stores r) i)"
  using assms
proof (induction tvs arbitrary: r)
  case (Cons tv tvs)
  obtain t v where tv: "tv = (t, v)" by (cases tv)
  with Cons.prems have b: "bound t r" by simp
  obtain st where "reg_emplace t SELF_ENTITY v r = Inr (r\<lparr>reg_stores := om_set (component_id t) (st\<lparr>st_value := Some v\<rparr>) (reg_stores r)\<rparr>)"
    by (rule emplace_bound [OF b, of v])
  then have "reg_put t v r = r\<lparr>reg_stores := om_set (component_id t) (st\<lparr>st_value := Some v\<rparr>) (reg_stores r)\<rparr>"
    by (simp add: reg_put_def)
  then have f: "reg_locked (reg_put t v r) = reg_locked r" "reg_policy (reg_put t v r) = reg_policy r"
    "\<And>i. i \<noteq> component_id t \<Longrightarrow> map_of (reg_stores (reg_put t v r)) i = map_of (reg_stores r) i" by simp_all
  have "\<forall>(t', v') \<in> set tvs. bound t' (reg_put t v r)" using Cons.prems put_bound [OF b] by auto
  from Cons.IH [OF this] show ?case using put_bound [OF b, of _ v] f tv by (simp add: Let_def)
qed (simp add: Let_def)

lemma registry_init_facts:
  assumes "\<not> (reg_locked r \<and> reg_policy r = LockAfterInit)" "no_collision r"
  shows "\<exists>r'. registry_init h r = Inr r' \<and> self_in r' (self_default h) \<and> reg_locked r'
    \<and> (\<forall>i. i \<notin> component_id ` set builtin_types \<longrightarrow> map_of (reg_stores r') i = map_of (reg_stores r) i)
    \<and> (reg_policy r = LockAfterInit \<longrightarrow> (\<forall>t. register_component t r' = (PolicyLocked, r')))"
proof -
  let ?r1 = "fold (\<lambda>t r. snd (register_builtin_component t r)) builtin_types r"
  let ?tvs = "default_components h"
  let ?r2 = "fold (\<lambda>(t, v) s. reg_put t v s) ?tvs ?r1"
  have "\<forall>t \<in> set builtin_types. \<forall>st. map_of (reg_stores r) (component_id t) = Some st \<longrightarrow> st_type_tag st = ct_tag t"
    using assms(2) by (auto simp: no_collision_def list_all_iff)
  note reg = register_builtins_facts [OF assms(1) builtin_ids_distinct this, unfolded Let_def]
  have types: "components_of (self_default h) = ?tvs"
    by (simp add: components_of_def default_components_def self_default_def)
  then have tvs: "map fst ?tvs = builtin_types" using components_of_types by metis
  then have b1: "\<forall>(t, v) \<in> set ?tvs. bound t ?r1" using reg by (metis (no_types, lifting) case_prodI2 fst_conv image_eqI set_map)
  have ok: "rfold (\<lambda>(t, v). reg_emplace t SELF_ENTITY v) ?tvs ?r1 = Inr ?r2" by (rule emplace_all_bound [OF b1])
  have "distinct (map component_id (map fst ?tvs))" using builtin_ids_distinct tvs by simp
  then have dist: "distinct (map fst (map (\<lambda>(t, v). (component_id t, v)) ?tvs))"
    by (simp add: o_def case_prod_unfold)
  have val: "reg_value t ?r2 = Some v" if "(t, v) \<in> set ?tvs" for t v
  proof -
    have "(component_id t, v) \<in> set (rev (map (\<lambda>(t, v). (component_id t, v)) ?tvs))" using that by force
    moreover have "distinct (map fst (rev (map (\<lambda>(t, v). (component_id t, v)) ?tvs)))"
      using dist by (metis distinct_rev rev_map)
    ultimately have "map_of (rev (map (\<lambda>(t, v). (component_id t, v)) ?tvs)) (component_id t) = Some v"
      by (rule map_of_is_SomeI [rotated])
    then show ?thesis using components.put_all_get [OF b1, of t] b1 that by auto
  qed
  note put = put_all_frame [OF b1, unfolded Let_def]
  have types_eq: "component_id ` fst ` set ?tvs = component_id ` set builtin_types" using tvs by (metis set_map)
  have "self_in (registry_lock ?r2) (self_default h)"
    using val b1 put by (auto simp: self_in_def types list_all_iff registry_lock_def bound_def reg_value_def reg_get_def)
  moreover have "registry_init h r = Inr (registry_lock ?r2)" using ok by (simp add: registry_init_def Let_def)
  moreover have "map_of (reg_stores (registry_lock ?r2)) i = map_of (reg_stores r) i" if "i \<notin> component_id ` set builtin_types" for i
    using that put reg types_eq by (simp add: registry_lock_def)
  moreover have "register_component t (registry_lock ?r2) = (PolicyLocked, registry_lock ?r2)" if "reg_policy r = LockAfterInit" for t
    using that put reg by (simp add: register_component_def register_impl_def registry_lock_def)
  moreover have "reg_locked (registry_lock ?r2)" by (simp add: registry_lock_def)
  ultimately show ?thesis by blast
qed

text \<open>
  \<open>init\<close> attaches the self entity: unless the registry was locked before, and unless a type of the user
  has the identifier of a built-in one, all registrations and stores of \<open>init\<close> succeed; afterwards the
  registry is locked and holds exactly the default self state with the new identity, the stores of the
  user are untouched, and under \<open>LockAfterInit\<close> every further registration is refused.
\<close>

theorem init_attaches_components:
  assumes "\<not> (reg_locked r \<and> reg_policy r = LockAfterInit)" "no_collision r"
  shows "\<exists>r'. registry_init h r = Inr r' \<and> self_in r' (self_default h) \<and> reg_locked r'
    \<and> (\<forall>i. i \<notin> component_id ` set builtin_types \<longrightarrow> map_of (reg_stores r') i = map_of (reg_stores r) i)
    \<and> (reg_policy r = LockAfterInit \<longrightarrow> (\<forall>t. register_component t r' = (PolicyLocked, r')))"
  by (rule registry_init_facts [OF assms])

lemma no_collision_new: "no_collision (registry_new policy)"
  by (simp add: no_collision_def registry_new_def list_all_iff)

theorem init_attaches_components_witness:
  "\<exists>r'. registry_init hid_default (registry_new LockAfterInit) = Inr r' \<and> self_in r' (self_default hid_default)
     \<and> register_component (gcc_type ''Battery'' 11) r' = (PolicyLocked, r')"
  using init_attaches_components [of "registry_new LockAfterInit" hid_default] no_collision_new
  by (auto simp: registry_new_def)

theorem self_state_refines_registry_witness:
  "\<exists>r r'. registry_init hid_default (registry_new Open) = Inr r \<and> reg_emplace HealthT SELF_ENTITY (CHealth 7) r = Inr r'
     \<and> self_in r' ((self_default hid_default)\<lparr>self_health := 7\<rparr>)"
proof -
  obtain r where r: "registry_init hid_default (registry_new Open) = Inr r" "self_in r (self_default hid_default)"
    using registry_init_facts [of "registry_new Open" hid_default] no_collision_new by (auto simp: registry_new_def)
  with self_state_refines_registry [OF r(2), of "CHealth 7" HealthT] show ?thesis by auto
qed

section \<open>A node\<close>

record node =
  nd_registry :: "component registry"
  nd_scheduler :: "robot res scheduler"
  nd_robot :: robot

definition node_new :: "world_config \<Rightarrow> port \<Rightarrow> node" where
  "node_new config port =
     \<lparr>nd_registry = registry_new (cfg_registration_policy config),
      nd_scheduler = scheduler_new (cfg_scheduler_mode config) (cfg_thread_pool_size config),
      nd_robot = robot_new (world_new config port)\<rparr>"

definition set_world :: "(world \<Rightarrow> world) \<Rightarrow> robot \<Rightarrow> robot" where
  "set_world f rb = rb\<lparr>rb_world := f (rb_world rb)\<rparr>"

definition world_init :: "auth_build \<Rightarrow> (nat \<Rightarrow> u32) \<Rightarrow> keypair \<Rightarrow> nat \<Rightarrow> node \<Rightarrow> node res" where
  "world_init auth rd kp hc nd =
     (let w = rb_world (nd_robot nd) in
      if w_initialized w then Inl (Abort ''init(): called twice'')
      else
        let h = hid_generate (cfg_swarm_id (w_config w)) rd in
        rmap (\<lambda>r. nd\<lparr>nd_registry := r, nd_scheduler := snd (build_graph hc (nd_scheduler nd)),
                nd_robot := set_world (\<lambda>w. w\<lparr>w_self := self_default h,
                  w_keypair := (case auth of None \<Rightarrow> w_keypair w | Some _ \<Rightarrow> Some kp), w_initialized := True\<rparr>) (nd_robot nd)\<rparr>)
          (registry_init h (nd_registry nd)))"

definition world_register_system :: "robot res system option \<Rightarrow> node \<Rightarrow> (scheduler_status \<times> node) res" where
  "world_register_system system nd =
     rmap (\<lambda>(status, s). (status, nd\<lparr>nd_scheduler := s\<rparr>)) (register_system system (nd_scheduler nd))"

section \<open>Identity rotation\<close>

definition rotate_identity :: "auth_build \<Rightarrow> (nat \<Rightarrow> u32) \<Rightarrow> keypair \<Rightarrow> world \<Rightarrow> world res" where
  "rotate_identity auth rd kp w =
     (if \<not> w_initialized w then Inl (Abort ''rotate_identity(): init() not called'')
      else
        let prev_id = self_identity (w_self w);
            new_id = hid_generate (cfg_swarm_id (w_config w)) rd;
            now = ctx_elapsed_time_s (w_context w);
            w1 = (case (auth, w_keypair w) of
                    (Some (crypto_sign, _), Some cur) \<Rightarrow>
                      let payload = serialise_cert_payload prev_id new_id (kp_public_key kp) in
                      w\<lparr>w_last_cert := Some \<lparr>cert_prev_id = prev_id, cert_new_id = new_id, cert_new_key = kp_public_key kp,
                           cert_signature_by_prev = sign_payload crypto_sign (kp_private_key cur) payload, cert_issued_at_s = now\<rparr>,
                        w_keypair := Some kp\<rparr>
                  | _ \<Rightarrow> w)
        in Inr (set_self (\<lambda>s. s\<lparr>self_identity := new_id\<rparr>)
             (w1\<lparr>w_last_rotation_time_s := now, w_rotation_count := w_rotation_count w + 1\<rparr>)))"

section \<open>The tick\<close>

definition advance_context :: "world \<Rightarrow> world" where
  "advance_context w =
     (let dt = f32_div f32_one (cfg_tick_rate_hz (w_config w)); c = w_context w in
      w\<lparr>w_context := c\<lparr>ctx_delta_time_s := dt, ctx_elapsed_time_s := f32_add (ctx_elapsed_time_s c) dt,
          ctx_tick_count := ctx_tick_count c + 1\<rparr>\<rparr>)"

definition decay_merge_window :: "world \<Rightarrow> world" where
  "decay_merge_window w =
     (if f32_lt f32_zero (w_merge_window_remaining_s w)
      then let m = f32_sub (w_merge_window_remaining_s w) (ctx_delta_time_s (w_context w))
           in w\<lparr>w_merge_window_remaining_s := (if f32_lt m f32_zero then f32_zero else m)\<rparr>
      else w)"

definition tick_begin :: "robot \<Rightarrow> robot res" where
  "tick_begin rb =
     (if \<not> w_initialized (rb_world rb) then Inl (Abort ''tick(): init() not called'')
      else Inr (set_world (\<lambda>w. decay_merge_window (advance_context w)) rb))"

definition rotation_due :: "world \<Rightarrow> bool" where
  "rotation_due w \<longleftrightarrow> cfg_identity_rotation_policy (w_config w) = PERIODIC
     \<and> f32_lt f32_zero (cfg_identity_rotation_period_s (w_config w))
     \<and> f32_le (cfg_identity_rotation_period_s (w_config w)) (f32_sub (ctx_elapsed_time_s (w_context w)) (w_last_rotation_time_s w))"

definition tick_end :: "auth_build \<Rightarrow> (nat \<Rightarrow> u32) \<Rightarrow> keypair \<Rightarrow> robot \<Rightarrow> robot res" where
  "tick_end auth rd kp rb =
     (if rotation_due (rb_world rb)
      then rmap (\<lambda>w. rb\<lparr>rb_world := w\<rparr>) (rotate_identity auth rd kp (rb_world rb))
      else Inr rb)"

text \<open>\<open>SystemScheduler::emit_tick_event_\<close>; the scheduler has the sink of the world.\<close>

definition emit_tick_event :: "nat \<Rightarrow> world \<Rightarrow> world" where
  "emit_tick_event system_count w =
     emit_trace (TraceEvent Info ''tick_completed''
       [FU64 ''tick'' (ctx_tick_count (w_context w)), FF64 ''delta_time_s'' (f64_of_f32 (ctx_delta_time_s (w_context w))),
        FU64 ''system_count'' (of_nat system_count), FU64 ''swarm_id'' (ucast (ctx_swarm_id (w_context w)))]) w"

text \<open>A tick in \<open>Sequential\<close> mode.\<close>

definition world_tick :: "auth_build \<Rightarrow> (nat \<Rightarrow> u32) \<Rightarrow> keypair \<Rightarrow> node \<Rightarrow> node res" where
  "world_tick auth rd kp nd =
     rbind (tick_begin (nd_robot nd)) (\<lambda>rb.
     rbind (tick_sequential (nd_scheduler nd) (Inr rb)) (\<lambda>ticked.
     rbind ticked (\<lambda>rb.
     let rb = set_world (emit_tick_event (length (sc_systems (nd_scheduler nd)))) rb in
     rmap (\<lambda>rb. nd\<lparr>nd_robot := rb\<rparr>) (tick_end auth rd kp rb))))"

text \<open>\<open>run\<close>, given the values read from the stop flag before each tick; sleeping between ticks has no
  effect on the state.  The loop has read the whole list without a stop when it returns \<open>False\<close>.\<close>

fun run_loop :: "auth_build \<Rightarrow> (bool \<times> (nat \<Rightarrow> u32) \<times> keypair) list \<Rightarrow> node \<Rightarrow> (bool \<times> node) res" where
  "run_loop auth [] nd = Inr (False, nd)"
| "run_loop auth ((stop, rd, kp) # env) nd = (if stop then Inr (True, nd) else rbind (world_tick auth rd kp nd) (run_loop auth env))"

definition world_run :: "auth_build \<Rightarrow> (bool \<times> (nat \<Rightarrow> u32) \<times> keypair) list \<Rightarrow> node \<Rightarrow> (bool \<times> node) res" where
  "world_run auth env nd =
     (if \<not> w_initialized (rb_world (nd_robot nd)) then Inl (Abort ''run(): init() not called'') else run_loop auth env nd)"

section \<open>The protocol of a world\<close>

text \<open>
  Claim C12.  The life cycle of a world: before \<open>init\<close>, \<open>tick\<close>, \<open>run\<close> and \<open>rotate_identity\<close> abort.  \<open>init\<close> succeeds on every new
  world, whatever its configuration and whatever systems were registered, and gives it a well-formed
  identity in the configured swarm; a second \<open>init\<close> aborts.  A system registered after \<open>init\<close> makes the
  next \<open>tick\<close> abort.
\<close>

theorem world_life_cycle:
  "let nd = (node_new config port)\<lparr>nd_scheduler := s\<rparr> in
   world_tick auth rd kp nd = Inl (Abort ''tick(): init() not called'')
   \<and> world_run auth env nd = Inl (Abort ''run(): init() not called'')
   \<and> rotate_identity auth rd kp (rb_world (nd_robot nd)) = Inl (Abort ''rotate_identity(): init() not called'')
   \<and> (\<exists>nd'. world_init auth rd kp hc nd = Inr nd'
        \<and> (\<exists>h. world_identity (rb_world (nd_robot nd')) = Inr h \<and> hid_wf h \<and> hid_swarm h = cfg_swarm_id config)
        \<and> world_init auth rd kp hc nd' = Inl (Abort ''init(): called twice'')
        \<and> (\<forall>y nd2. world_register_system (Some y) nd' = Inr (Ok, nd2) \<longrightarrow>
             world_tick auth rd kp nd2 = Inl (Abort ''tick(): build_graph() not called since last register_system()'')))"
proof -
  let ?nd = "(node_new config port)\<lparr>nd_scheduler := s\<rparr>" and ?h = "hid_generate (cfg_swarm_id config) rd"
  have w: "\<not> w_initialized (rb_world (nd_robot ?nd))" "w_config (rb_world (nd_robot ?nd)) = config"
    by (simp_all add: node_new_def robot_new_def discovery_new_def register_message_handler_def world_new_def)
  obtain r where r: "registry_init ?h (nd_registry ?nd) = Inr r"
    using registry_init_facts [of "registry_new (cfg_registration_policy config)" ?h] no_collision_new
    by (auto simp: node_new_def registry_new_def)
  let ?nd' = "?nd\<lparr>nd_registry := r, nd_scheduler := snd (build_graph hc s),
      nd_robot := set_world (\<lambda>w. w\<lparr>w_self := self_default ?h, w_keypair := (case auth of None \<Rightarrow> w_keypair w | Some _ \<Rightarrow> Some kp),
        w_initialized := True\<rparr>) (nd_robot ?nd)\<rparr>"
  have init: "world_init auth rd kp hc ?nd = Inr ?nd'" using w r by (simp add: world_init_def Let_def)
  have ini: "w_initialized (rb_world (nd_robot ?nd'))" "self_identity (w_self (rb_world (nd_robot ?nd'))) = ?h"
    by (simp_all add: set_world_def self_default_def)
  have "world_tick auth rd kp nd2 = Inl (Abort ''tick(): build_graph() not called since last register_system()'')"
    if "world_register_system (Some y) ?nd' = Inr (Ok, nd2)" for y nd2
  proof -
    have "nd_robot nd2 = nd_robot ?nd'" "\<not> sc_built (nd_scheduler nd2)"
      using that by (auto simp: world_register_system_def register_system_def rmap_eq_Inr_iff split: if_splits)
    then show ?thesis using ini by (simp add: world_tick_def tick_begin_def tick_sequential_def)
  qed
  moreover have "world_init auth rd kp hc ?nd' = Inl (Abort ''init(): called twice'')" using ini by (simp add: world_init_def Let_def)
  moreover have "world_identity (rb_world (nd_robot ?nd')) = Inr ?h" "hid_swarm ?h = cfg_swarm_id config"
    using ini by (simp_all add: world_identity_def hid_generate_def)
  ultimately have "world_init auth rd kp hc ?nd = Inr ?nd'
        \<and> (\<exists>h. world_identity (rb_world (nd_robot ?nd')) = Inr h \<and> hid_wf h \<and> hid_swarm h = cfg_swarm_id config)
        \<and> world_init auth rd kp hc ?nd' = Inl (Abort ''init(): called twice'')
        \<and> (\<forall>y nd2. world_register_system (Some y) ?nd' = Inr (Ok, nd2) \<longrightarrow>
             world_tick auth rd kp nd2 = Inl (Abort ''tick(): build_graph() not called since last register_system()''))"
    using init hid_generate_wf by blast
  then show ?thesis using w
    by (auto simp: Let_def world_tick_def tick_begin_def world_run_def rotate_identity_def)
qed

theorem world_life_cycle_witness:
  "\<exists>nd' nd2. world_init None (\<lambda>_. 0) \<lparr>kp_public_key = [], kp_private_key = []\<rparr> 4 (node_new world_config_default port_none) = Inr nd'
     \<and> world_register_system (Some (step_system move_describe move_step)) nd' = Inr (Ok, nd2)
     \<and> \<not> isl (world_init None (\<lambda>_. 0) \<lparr>kp_public_key = [], kp_private_key = []\<rparr> 4 (node_new world_config_default port_none))
     \<and> isl (world_tick None (\<lambda>_. 0) \<lparr>kp_public_key = [], kp_private_key = []\<rparr> nd2)"
proof -
  let ?nd = "node_new world_config_default port_none" and ?kp = "\<lparr>kp_public_key = [], kp_private_key = []\<rparr> :: keypair"
  have nd: "?nd\<lparr>nd_scheduler := nd_scheduler ?nd\<rparr> = ?nd" by simp
  note lc = world_life_cycle [where config = world_config_default and port = port_none and s = "nd_scheduler ?nd" and auth = None
      and rd = "\<lambda>_. 0" and kp = ?kp and env = "[]" and hc = 4, unfolded nd Let_def]
  then obtain nd' where i: "world_init None (\<lambda>_. 0) ?kp 4 ?nd = Inr nd'" by blast
  then have "sc_systems (nd_scheduler nd') = []"
    by (auto simp: world_init_def Let_def rmap_eq_Inr_iff node_new_def scheduler_new_def build_graph_def split: if_splits)
  then obtain nd2 where reg: "world_register_system (Some (step_system move_describe move_step)) nd' = Inr (Ok, nd2)"
    by (auto simp: world_register_system_def register_system_def)
  show ?thesis using lc i reg by auto
qed

section \<open>The chain of certificates\<close>

text \<open>The certificates that a sequence of rotations leaves, oldest first.\<close>

fun rotate_all :: "auth_build \<Rightarrow> ((nat \<Rightarrow> u32) \<times> keypair) list \<Rightarrow> world \<Rightarrow> (certificate list \<times> world) res" where
  "rotate_all auth [] w = Inr ([], w)"
| "rotate_all auth ((rd, kp) # rest) w =
     rbind (rotate_identity auth rd kp w) (\<lambda>w1.
     rmap (\<lambda>(certs, w2). ((case w_last_cert w1 of None \<Rightarrow> certs | Some c \<Rightarrow> c # certs), w2)) (rotate_all auth rest w1))"

text \<open>What a peer checks that knows the robot under an identity and a key.\<close>

fun chain_verifies :: "nacl_open \<Rightarrow> hid \<Rightarrow> identity_key \<Rightarrow> certificate list \<Rightarrow> hid \<times> identity_key \<Rightarrow> bool" where
  "chain_verifies op h k [] current \<longleftrightarrow> current = (h, k)"
| "chain_verifies op h k (c # cs) current \<longleftrightarrow>
     cert_prev_id c = h
     \<and> verify_signature op k (Some (serialise_cert_payload (cert_prev_id c) (cert_new_id c) (cert_new_key c))) IDENTITY_CERT_PAYLOAD_LEN
         (Some (cert_signature_by_prev c)) (length (cert_signature_by_prev c))
     \<and> chain_verifies op (cert_new_id c) (cert_new_key c) cs current"

lemma rotate_identity_signed:
  assumes "w_initialized w" "w_keypair w = Some cur" "hid_wf (self_identity (w_self w))"
    and "nacl_correct sg op (kp_private_key cur) (kp_public_key cur)" "length (kp_public_key kp) = PUBLIC_KEY_LEN"
  obtains w' c where "rotate_identity (Some (sg, op)) rd kp w = Inr w'" "w_last_cert w' = Some c" "w_initialized w'"
    "w_keypair w' = Some kp" "w_rotation_count w' = w_rotation_count w + 1"
    "self_identity (w_self w') = cert_new_id c" "hid_wf (cert_new_id c)" "cert_new_key c = kp_public_key kp"
    "cert_prev_id c = self_identity (w_self w)"
    "verify_signature op (kp_public_key cur) (Some (serialise_cert_payload (cert_prev_id c) (cert_new_id c) (cert_new_key c)))
       IDENTITY_CERT_PAYLOAD_LEN (Some (cert_signature_by_prev c)) (length (cert_signature_by_prev c))"
proof -
  let ?new = "hid_generate (cfg_swarm_id (w_config w)) rd"
  let ?m = "serialise_cert_payload (self_identity (w_self w)) ?new (kp_public_key kp)"
  have len: "length ?m = IDENTITY_CERT_PAYLOAD_LEN" using assms(3,5) by (intro length_serialise_cert_payload) simp_all
  have "verify_signature op (kp_public_key cur) (Some ?m) IDENTITY_CERT_PAYLOAD_LEN (Some (sign_payload sg (kp_private_key cur) ?m))
      (length (sign_payload sg (kp_private_key cur) ?m))"
    using verify_sign_payload [OF assms(4), of ?m] len by simp
  moreover obtain w' where "rotate_identity (Some (sg, op)) rd kp w = Inr w'"
    using assms(1) by (simp add: rotate_identity_def Let_def)
  ultimately show ?thesis
    by (intro that [of w' "\<lparr>cert_prev_id = self_identity (w_self w), cert_new_id = ?new, cert_new_key = kp_public_key kp,
        cert_signature_by_prev = sign_payload sg (kp_private_key cur) ?m, cert_issued_at_s = ctx_elapsed_time_s (w_context w)\<rparr>"])
      (use assms(1,2) in \<open>auto simp: rotate_identity_def Let_def set_self_def\<close>)
qed

lemma rotate_all_chain:
  assumes "w_initialized w" "w_keypair w = Some cur" "hid_wf (self_identity (w_self w))" "length (kp_public_key cur) = PUBLIC_KEY_LEN"
    and "\<forall>kp \<in> insert cur (snd ` set rks). nacl_correct sg op (kp_private_key kp) (kp_public_key kp) \<and> length (kp_public_key kp) = PUBLIC_KEY_LEN"
  shows "\<exists>certs w' now. rotate_all (Some (sg, op)) rks w = Inr (certs, w') \<and> length certs = length rks \<and> w_keypair w' = Some now
    \<and> chain_verifies op (self_identity (w_self w)) (kp_public_key cur) certs (self_identity (w_self w'), kp_public_key now)
    \<and> w_rotation_count w' = w_rotation_count w + of_nat (length rks)"
  using assms
proof (induction rks arbitrary: w cur)
  case (Cons rk rks)
  obtain rd kp where rk: "rk = (rd, kp)" by (cases rk)
  have cur: "nacl_correct sg op (kp_private_key cur) (kp_public_key cur)" and kp: "length (kp_public_key kp) = PUBLIC_KEY_LEN"
    using Cons.prems(5) rk by auto
  obtain w1 c where 1: "rotate_identity (Some (sg, op)) rd kp w = Inr w1" "w_last_cert w1 = Some c" "w_initialized w1"
    "w_keypair w1 = Some kp" "w_rotation_count w1 = w_rotation_count w + 1"
    "self_identity (w_self w1) = cert_new_id c" "hid_wf (cert_new_id c)" "cert_new_key c = kp_public_key kp"
    "cert_prev_id c = self_identity (w_self w)"
    "verify_signature op (kp_public_key cur) (Some (serialise_cert_payload (cert_prev_id c) (cert_new_id c) (cert_new_key c)))
       IDENTITY_CERT_PAYLOAD_LEN (Some (cert_signature_by_prev c)) (length (cert_signature_by_prev c))"
    using rotate_identity_signed [OF Cons.prems(1,2,3) cur kp] by metis
  from Cons.IH [OF 1(3,4) _ kp] 1(6,7) Cons.prems(5) rk
  obtain certs w' now where "rotate_all (Some (sg, op)) rks w1 = Inr (certs, w')" "length certs = length rks" "w_keypair w' = Some now"
    "chain_verifies op (cert_new_id c) (kp_public_key kp) certs (self_identity (w_self w'), kp_public_key now)"
    "w_rotation_count w' = w_rotation_count w1 + of_nat (length rks)" by auto
  with 1 rk show ?case by (intro exI [of _ "c # certs"]) (simp add: add_ac)
qed simp

text \<open>
  Claim C7.  Rotations can be followed: in a signed build, any number of rotations of a world succeeds and leaves one
  certificate each; a peer that knows the robot by its identity and public key before them can check
  the certificates one after the other, each with the key the previous one certifies, and ends with the
  identity and the public key the robot has now.
\<close>

theorem rotation_chain_verifies:
  assumes "w_initialized w" "w_keypair w = Some cur" "hid_wf (self_identity (w_self w))"
    and "\<forall>kp \<in> insert cur (snd ` set rks). nacl_correct sg op (kp_private_key kp) (kp_public_key kp) \<and> length (kp_public_key kp) = PUBLIC_KEY_LEN"
  shows "\<exists>certs w' now. rotate_all (Some (sg, op)) rks w = Inr (certs, w') \<and> length certs = length rks \<and> w_keypair w' = Some now
    \<and> chain_verifies op (self_identity (w_self w)) (kp_public_key cur) certs (self_identity (w_self w'), kp_public_key now)
    \<and> w_rotation_count w' = w_rotation_count w + of_nat (length rks)"
  using rotate_all_chain [OF assms(1,2,3) _ assms(4)] assms(4) by simp

theorem rotation_chain_verifies_witness:
  "\<exists>certs w'. rotate_all (Some (toy_sign, toy_open)) [(\<lambda>_. 1, \<lparr>kp_public_key = replicate 32 6, kp_private_key = replicate 64 6\<rparr>)]
       (example_sender\<lparr>w_initialized := True\<rparr>) = Inr (certs, w') \<and> length certs = 1
     \<and> chain_verifies toy_open example_peer (replicate 32 5) certs (self_identity (w_self w'), replicate 32 6)"
proof -
  let ?w = "example_sender\<lparr>w_initialized := True\<rparr>"
    and ?k = "\<lambda>n. \<lparr>kp_public_key = replicate 32 n, kp_private_key = replicate 64 n\<rparr> :: keypair"
  have w: "w_initialized ?w" "w_keypair ?w = Some (?k 5)" "self_identity (w_self ?w) = example_peer"
    by (simp_all add: example_sender_def self_default_def)
  have wf: "hid_wf example_peer" by (simp add: example_peer_def hid_wf_def uuid_wf_def)
  have nacl: "nacl_correct toy_sign toy_open (kp_private_key (?k n)) (kp_public_key (?k n)) \<and> length (kp_public_key (?k n)) = PUBLIC_KEY_LEN" for n
    by (simp add: nacl_correct_def toy_sign_def toy_open_def)
  obtain certs w' now where r: "rotate_all (Some (toy_sign, toy_open)) [(\<lambda>_. 1, ?k 6)] ?w = Inr (certs, w')" "length certs = 1" "w_keypair w' = Some now"
    "chain_verifies toy_open example_peer (replicate 32 5) certs (self_identity (w_self w'), kp_public_key now)"
    using rotation_chain_verifies [of ?w "?k 5" "[(\<lambda>_. 1, ?k 6)]" toy_sign toy_open] w wf nacl by auto
  have "now = ?k 6" using r(1,3) w(1,2) by (auto simp: rotate_identity_def Let_def set_self_def rmap_eq_Inr_iff)
  with r show ?thesis by auto
qed

text \<open>
  \<open>DiscoverySystem\<close> copies the identity once, so after a rotation its messages carry the old identity and,
  in a signed build, the new key.
\<close>

theorem discovery_keeps_old_identity:
  assumes "rotate_identity (Some nacl) rd kp w = Inr w'" "w_keypair w = Some cur" "\<not> is_nil (hid_unit (ds_self_id ds))"
  shows "ds_self_id (fst (discovery_tick (Some nacl) dt (ds, w'))) = ds_self_id ds
    \<and> welcome_message (Some nacl) (ds_self_id ds) m w' =
        embed_pubkey_into_payload (kp_public_key kp)
          (message_default\<lparr>msg_sender := ds_self_id ds, msg_recipient := msg_sender m, msg_type := DISCOVERY_WELCOME\<rparr>)"
proof -
  obtain sg op where "nacl = (sg, op)" by (cases nacl)
  then have "w_keypair w' = Some kp" using assms(1,2) by (auto simp: rotate_identity_def Let_def set_self_def split: if_splits)
  then show ?thesis using assms(3)
    by (simp add: discovery_tick_def promote_to_active_def Let_def welcome_message_def advertise_def)
qed

section \<open>Time\<close>

text \<open>At 20 Hz the single-precision clock stops after \<open>2^20\<close> seconds: the sum of a tick rounds back.\<close>

theorem clock_stalls:
  assumes "cfg_tick_rate_hz (w_config w) = cfg_tick_rate_hz world_config_default" "ctx_elapsed_time_s (w_context w) = 0x49800000"
  shows "ctx_elapsed_time_s (w_context (advance_context w)) = ctx_elapsed_time_s (w_context w)"
proof -
  have "f32_add 0x49800000 (f32_div f32_one (cfg_tick_rate_hz world_config_default)) = 0x49800000" by code_simp
  then show ?thesis using assms by (simp add: advance_context_def Let_def)
qed

lemma decay_frame [simp]:
  "w_context (decay_merge_window w) = w_context w" "w_config (decay_merge_window w) = w_config w"
  "w_initialized (decay_merge_window w) = w_initialized w"
  by (simp_all add: decay_merge_window_def Let_def)

lemma decay_step:
  assumes "f32_isfinite (w_merge_window_remaining_s w)" "f32_nonneg (w_merge_window_remaining_s w)"
    and "f32_isfinite (ctx_delta_time_s (w_context w))" "f32_nonneg (ctx_delta_time_s (w_context w))"
    and gap: "f32_gap (f32_key (w_merge_window_remaining_s w)) \<le> f32_int (ctx_delta_time_s (w_context w))"
    and open': "is_merging (decay_merge_window w)"
  defines "m' \<equiv> w_merge_window_remaining_s (decay_merge_window w)"
  shows "f32_isfinite m'" "f32_nonneg m'" "f32_key m' \<le> f32_key (w_merge_window_remaining_s w)"
    "2 * f32_int m' + f32_int (ctx_delta_time_s (w_context w)) \<le> 2 * f32_int (w_merge_window_remaining_s w)"
proof -
  let ?m = "w_merge_window_remaining_s w" and ?dt = "ctx_delta_time_s (w_context w)"
  have z: "\<not> f32_lt f32_zero f32_zero" by code_simp
  have "m' = f32_sub ?m ?dt" "f32_lt f32_zero (f32_sub ?m ?dt)"
    using open' z by (auto simp: m'_def is_merging_def decay_merge_window_def Let_def split: if_splits)
  with f32_sub_loss [OF assms(1,3,2,4) gap] show "f32_isfinite m'" "f32_nonneg m'" "f32_key m' \<le> f32_key ?m"
      "2 * f32_int m' + f32_int ?dt \<le> 2 * f32_int ?m" by simp_all
qed

lemma decay_closed: "\<not> is_merging w \<Longrightarrow> decay_merge_window w = w"
  by (simp add: decay_merge_window_def is_merging_def)

text \<open>
  A merge window closes by itself: with a finite window and a tick length of at least the spacing of
  floats at the window, after any number \<open>n\<close> of ticks with \<open>2 * window < n * tick\<close> in which no system sets the window
  again, \<open>is_merging\<close> is false, so the suspended hysteresis of the task allocation is back; a closed
  window stays closed and is never negative.
\<close>

theorem merge_window_closes:
  assumes "f32_isfinite (w_merge_window_remaining_s w)" "f32_nonneg (w_merge_window_remaining_s w)"
    and "f32_isfinite (ctx_delta_time_s (w_context w))" "f32_nonneg (ctx_delta_time_s (w_context w))"
    and "f32_gap (f32_key (w_merge_window_remaining_s w)) \<le> f32_int (ctx_delta_time_s (w_context w))"
    and "2 * f32_int (w_merge_window_remaining_s w) < int n * f32_int (ctx_delta_time_s (w_context w))"
  shows "\<not> is_merging ((decay_merge_window ^^ n) w)"
proof
  let ?dt = "ctx_delta_time_s (w_context w)" and ?m = "\<lambda>k. w_merge_window_remaining_s ((decay_merge_window ^^ k) w)"
  have ctx: "w_context ((decay_merge_window ^^ k) w) = w_context w" for k by (induction k) simp_all
  have earlier: "is_merging ((decay_merge_window ^^ k) w)" if "is_merging ((decay_merge_window ^^ Suc k) w)" for k
    using that decay_closed by fastforce
  assume "is_merging ((decay_merge_window ^^ n) w)"
  then have "f32_isfinite (?m n) \<and> f32_nonneg (?m n) \<and> f32_key (?m n) \<le> f32_key (?m 0) \<and> 2 * f32_int (?m n) + int n * f32_int ?dt \<le> 2 * f32_int (?m 0)"
  proof (induction n)
    case (Suc n)
    then have IH: "f32_isfinite (?m n)" "f32_nonneg (?m n)" "f32_key (?m n) \<le> f32_key (?m 0)" "2 * f32_int (?m n) + int n * f32_int ?dt \<le> 2 * f32_int (?m 0)"
      using earlier by blast+
    have "f32_gap (f32_key (?m n)) \<le> f32_int ?dt" using f32_gap_mono [OF IH(3)] assms(5) by simp
    from decay_step [of "(decay_merge_window ^^ n) w", unfolded ctx, OF IH(1,2) assms(3,4) this] Suc.prems IH(3,4)
    show ?case by (simp add: distrib_right)
  qed (use assms(1,2) in simp)
  then have m: "f32_nonneg (?m n)" "2 * f32_int (?m n) + int n * f32_int ?dt \<le> 2 * f32_int (?m 0)" by blast+
  from m(1) have "0 \<le> f32_int (?m n)" by (simp add: f32_int_key f32_nonneg_key signed_units_def units_nonneg)
  with m(2) assms(6) show False by simp
qed

text \<open>The default window of 2 s at 20 Hz is closed after 81 ticks.\<close>

theorem merge_window_closes_witness:
  "\<not> is_merging ((decay_merge_window ^^ 81)
     (set_merge_window_s (mp_merge_window_s merge_params_default) (advance_context (world_new world_config_default port_none))))"
proof -
  have dt: "f32_div f32_one (cfg_tick_rate_hz world_config_default) = 0x3D4CCCCD" by code_simp
  let ?w = "set_merge_window_s (mp_merge_window_s merge_params_default) (advance_context (world_new world_config_default port_none))"
  have w: "w_merge_window_remaining_s ?w = 0x40000000" "ctx_delta_time_s (w_context ?w) = 0x3D4CCCCD"
    by (simp_all add: set_merge_window_s_def merge_params_default_def advance_context_def world_new_def Let_def dt)
  have "f32_isfinite 0x40000000" "f32_nonneg 0x40000000" "f32_isfinite 0x3D4CCCCD" "f32_nonneg 0x3D4CCCCD"
    "f32_gap (f32_key 0x40000000) \<le> f32_int 0x3D4CCCCD" "2 * f32_int 0x40000000 < int 81 * f32_int 0x3D4CCCCD" by code_simp+
  then show ?thesis by (intro merge_window_closes) (simp_all only: w)
qed

section \<open>Running\<close>

lemma tick_end_keeps:
  assumes "tick_end auth rd kp rb = Inr rb'"
  shows "w_context (rb_world rb') = w_context (rb_world rb)" "w_config (rb_world rb') = w_config (rb_world rb)"
  using assms by (auto simp: tick_end_def rotate_identity_def rmap_eq_Inr_iff Let_def set_self_def split: if_splits option.splits)

lemma emit_tick_event_frame [simp]:
  "w_context (emit_tick_event n w) = w_context w" "w_config (emit_tick_event n w) = w_config w"
  "w_self (emit_tick_event n w) = w_self w" "w_port (emit_tick_event n w) = w_port w"
  "w_last_rotation_time_s (emit_tick_event n w) = w_last_rotation_time_s w" "alone (emit_tick_event n w) \<longleftrightarrow> alone w"
  by (simp_all add: emit_tick_event_def) (simp add: emit_trace_def split: option.split)

lemma world_tick_clock:
  assumes "mset (sc_systems s) = mset (builtin_systems auth)" "build_graph hc s = (Ok, nd_scheduler nd)"
    and "world_tick auth rd kp nd = Inr nd'"
  shows "nd_scheduler nd' = nd_scheduler nd"
    and "w_config (rb_world (nd_robot nd')) = w_config (rb_world (nd_robot nd))"
    and "w_context (rb_world (nd_robot nd')) = w_context (advance_context (rb_world (nd_robot nd)))"
proof -
  obtain rb1 rb2 rb3 where 1: "tick_begin (nd_robot nd) = Inr rb1" and "tick_sequential (nd_scheduler nd) (Inr rb1) = Inr (Inr rb2)"
    and 3: "tick_end auth rd kp (set_world (emit_tick_event (length (sc_systems (nd_scheduler nd)))) rb2) = Inr rb3"
    and nd': "nd' = nd\<lparr>nd_robot := rb3\<rparr>"
    using assms(3) by (auto simp: world_tick_def rbind_eq_Inr_iff rmap_eq_Inr_iff)
  then have 2: "full_tick auth rb1 = Inr rb2" using builtin_tick [OF assms(1,2), of rb1] by simp
  have "w_context (rb_world rb1) = w_context (advance_context (rb_world (nd_robot nd)))"
    "w_config (rb_world rb1) = w_config (rb_world (nd_robot nd))"
    using 1 by (auto simp: tick_begin_def set_world_def advance_context_def Let_def split: if_splits)
  with full_tick_keeps [OF 2] tick_end_keeps [OF 3] nd'
  show "nd_scheduler nd' = nd_scheduler nd" "w_config (rb_world (nd_robot nd')) = w_config (rb_world (nd_robot nd))"
    "w_context (rb_world (nd_robot nd')) = w_context (advance_context (rb_world (nd_robot nd)))"
    by (simp_all add: keeps_clock_def set_world_def)
qed

text \<open>
  Claim C32.  The clock of a running robot: when a node with the built-in systems runs and no step aborts, \<open>run\<close> returns
  exactly if the stop flag was seen, and the tick counter has advanced by the number of reads of the
  flag before that, modulo \<open>2^64\<close>; the elapsed time is the initial one with the rounded tick length
  added once per tick, whatever the systems did and however the identity rotated.
\<close>

theorem run_advances_clock:
  assumes "mset (sc_systems s) = mset (builtin_systems auth)" "build_graph hc s = (Ok, nd_scheduler nd)"
    and "run_loop auth env nd = Inr (stopped, nd')"
  shows "let n = length (takeWhile (\<lambda>(stop, _). \<not> stop) env); w = rb_world (nd_robot nd); w' = rb_world (nd_robot nd');
             dt = f32_div f32_one (cfg_tick_rate_hz (w_config w)) in
    (stopped \<longleftrightarrow> n < length env) \<and> ctx_tick_count (w_context w') = ctx_tick_count (w_context w) + of_nat n
    \<and> ctx_elapsed_time_s (w_context w') = ((\<lambda>t. f32_add t dt) ^^ n) (ctx_elapsed_time_s (w_context w))"
  using assms(2,3)
proof (induction env arbitrary: nd)
  case (Cons e env)
  obtain stop rd kp where e: "e = (stop, rd, kp)" by (cases e)
  show ?case
  proof (cases stop)
    case False
    then obtain nd1 where t: "world_tick auth rd kp nd = Inr nd1" and rest: "run_loop auth env nd1 = Inr (stopped, nd')"
      using Cons.prems(2) e by (auto simp: rbind_eq_Inr_iff)
    note w = world_tick_clock [OF assms(1) Cons.prems(1) t]
    have sw: "((\<lambda>t. f32_add t d) ^^ k) (f32_add x d) = f32_add (((\<lambda>t. f32_add t d) ^^ k) x) d" for k x d
      using funpow_swap1 [of "\<lambda>t. f32_add t d" k x] by simp
    from Cons.IH [of nd1] Cons.prems(1) rest w False e show ?thesis
      by (simp add: Let_def advance_context_def sw add_ac)
  qed (use Cons.prems(2) e in \<open>simp add: Let_def\<close>)
qed (simp add: Let_def)

definition example_node :: node where
  "example_node = (node_new world_config_default port_none)
     \<lparr>nd_scheduler := snd (build_graph 4 example_stack),
      nd_robot := robot_new ((world_new world_config_default port_none)\<lparr>w_initialized := True\<rparr>)\<rparr>"

lemma example_node_facts:
  "build_graph 4 example_stack = (Ok, nd_scheduler example_node)" "mset (sc_systems example_stack) = mset (builtin_systems None)"
  "w_initialized (rb_world (nd_robot example_node))" "alone (rb_world (nd_robot example_node))"
  "w_config (rb_world (nd_robot example_node)) = world_config_default" "w_context (rb_world (nd_robot example_node)) = swarm_context_default\<lparr>ctx_swarm_id := 1\<rparr>"
  by (simp_all add: example_node_def build_graph_def example_stack_def scheduler_new_def Let_def node_new_def robot_new_def discovery_new_def
      register_message_handler_def alone_def world_new_def world_config_default_def nt_new_def port_none_def)

lemma world_tick_alone:
  assumes "mset (sc_systems s) = mset (builtin_systems auth)" "build_graph hc s = (Ok, nd_scheduler nd)"
    and "w_initialized (rb_world (nd_robot nd))" "alone (rb_world (nd_robot nd))"
    and "cfg_identity_rotation_policy (w_config (rb_world (nd_robot nd))) \<noteq> PERIODIC"
  shows "\<exists>nd'. world_tick auth rd kp nd = Inr nd' \<and> alone (rb_world (nd_robot nd'))"
proof -
  let ?rb = "set_world (\<lambda>w. decay_merge_window (advance_context w)) (nd_robot nd)"
  have rb: "alone (rb_world ?rb)" "w_config (rb_world ?rb) = w_config (rb_world (nd_robot nd))"
    using assms(4) by (simp_all add: set_world_def alone_def decay_merge_window_def advance_context_def Let_def)
  then obtain rb' where rb': "full_tick auth ?rb = Inr rb'" "alone (rb_world rb')" using full_tick_alone by blast
  let ?rb' = "set_world (emit_tick_event (length (sc_systems (nd_scheduler nd)))) rb'"
  from full_tick_keeps [OF rb'(1)] rb(2) assms(5) have "tick_end auth rd kp ?rb' = Inr ?rb'"
    by (simp add: tick_end_def rotation_due_def keeps_clock_def set_world_def)
  moreover have "alone (rb_world ?rb')" using rb'(2) by (simp add: set_world_def)
  ultimately show ?thesis
    using assms(3) rb'(1) builtin_tick [OF assms(1,2), of ?rb] by (simp add: world_tick_def tick_begin_def)
qed

theorem run_advances_clock_witness:
  "\<exists>nd'. run_loop None [(False, \<lambda>_. 0, \<lparr>kp_public_key = [], kp_private_key = []\<rparr>), (True, \<lambda>_. 0, \<lparr>kp_public_key = [], kp_private_key = []\<rparr>)]
      example_node = Inr (True, nd') \<and> ctx_tick_count (w_context (rb_world (nd_robot nd'))) = 1"
proof -
  let ?kp = "\<lparr>kp_public_key = [], kp_private_key = []\<rparr> :: keypair"
  note nd = example_node_facts
  obtain nd' where "world_tick None (\<lambda>_. 0) ?kp example_node = Inr nd'"
    using world_tick_alone [OF nd(2,1,3,4), of "\<lambda>_. 0" ?kp] nd(5) by (auto simp: world_config_default_def)
  then have run: "run_loop None [(False, \<lambda>_. 0, ?kp), (True, \<lambda>_. 0, ?kp)] example_node = Inr (True, nd')" by simp
  from run_advances_clock [OF nd(2,1) run] run nd(6) show ?thesis by (simp add: Let_def swarm_context_default_def)
qed

end
