(* ===== verification/Sim_Bus.thy ===== *)
theory Sim_Bus
  imports World_Lifecycle
begin

text \<open>
  The simulator: \<open>SimClock\<close> (src/sim/sim_clock.cpp) and \<open>SimBus\<close> with \<open>SimTransport\<close> (src/sim/sim_bus.cpp).

  The participants of a bus are nodes; the inboxes of a participant are the pending packets of its
  port.  The code delivers a packet during the tick of the sender, at the call of \<open>send_beacon\<close> or
  \<open>send_message\<close>.  In the model the packets logged during the tick of a world are delivered, in order and from the
  position logged with each, when the tick ends.  That is the same, because a tick reads nothing of
  the other participants and the bus never delivers to the sender.

  The results: which inboxes a beacon, a broadcast and a directed message reach; that the worlds of a bus
  advance in lock step with its clock; and that a robot that has moved since the grid was built
  can be missed though it is in range.
\<close>

section \<open>State\<close>

record sim_config =
  sb_tick_rate_hz :: f32
  sb_comm_range_m :: f32
  sb_packet_loss_pct :: f32
  sb_latency_ms :: f32

definition sim_config_default :: sim_config where
  "sim_config_default = \<lparr>sb_tick_rate_hz = 0x41A00000, sb_comm_range_m = 0x42480000, sb_packet_loss_pct = f32_zero, sb_latency_ms = f32_zero\<rparr>"

record sim_clock =
  ck_delta_time_s :: f32
  ck_elapsed_time_s :: f32
  ck_tick_count :: u64
  ck_worlds :: "nat list"

definition sim_clock_new :: "f32 \<Rightarrow> sim_clock" where
  "sim_clock_new dt = \<lparr>ck_delta_time_s = dt, ck_elapsed_time_s = f32_zero, ck_tick_count = 0, ck_worlds = []\<rparr>"

text \<open>A world is known to the clock by the index of its participant.\<close>

definition register_world :: "nat \<Rightarrow> sim_clock \<Rightarrow> sim_clock" where
  "register_world i c = (if list_ex (\<lambda>j. j = i) (ck_worlds c) then c else c\<lparr>ck_worlds := ck_worlds c @ [i]\<rparr>)"

definition unregister_all :: "sim_clock \<Rightarrow> sim_clock" where
  "unregister_all c = c\<lparr>ck_worlds := []\<rparr>"

record sim_bus =
  sb_config :: sim_config
  sb_clock :: sim_clock
  sb_nodes :: "node list"
  sb_grid :: grid
  sb_cell_size_m :: f32

definition sim_bus_new :: "sim_config \<Rightarrow> sim_bus" where
  "sim_bus_new config =
     \<lparr>sb_config = config, sb_clock = sim_clock_new (f32_div f32_one (sb_tick_rate_hz config)), sb_nodes = [], sb_grid = [],
      sb_cell_size_m = f32_zero\<rparr>"

definition make_world_config :: "sim_bus \<Rightarrow> u16 \<Rightarrow> world_config" where
  "make_world_config bus swarm_id =
     world_config_default\<lparr>cfg_swarm_id := swarm_id, cfg_tick_rate_hz := sb_tick_rate_hz (sb_config bus), cfg_scheduler_mode := Sequential\<rparr>"

definition create_world :: "u16 \<Rightarrow> sim_bus \<Rightarrow> nat \<times> sim_bus" where
  "create_world swarm_id bus =
     (let idx = length (sb_nodes bus);
          nd = node_new (make_world_config bus swarm_id) port_unified
      in (idx, bus\<lparr>sb_nodes := sb_nodes bus @ [nd], sb_clock := register_world idx (sb_clock bus)\<rparr>))"

section \<open>Delivery\<close>

abbreviation sb_world :: "sim_bus \<Rightarrow> nat \<Rightarrow> world" where
  "sb_world bus i \<equiv> rb_world (nd_robot (sb_nodes bus ! i))"

text \<open>\<open>pos_fn\<close>: the registry aborts where \<open>init\<close> was not called.\<close>

definition pos_fn :: "sim_bus \<Rightarrow> nat \<Rightarrow> position res" where
  "pos_fn bus i =
     (if w_initialized (sb_world bus i) then Inr (self_position (w_self (sb_world bus i)))
      else Inl (Abort ''get<T>: component not registered''))"

text \<open>The cell of a position, by the same arithmetic as in the neighbour table.\<close>

definition sim_cell_for :: "f32 \<Rightarrow> position \<Rightarrow> cell res" where
  "sim_cell_for cell_size p = cell_for cell_size p"

definition sim_rebuild_grid :: "sim_bus \<Rightarrow> sim_bus res" where
  "sim_rebuild_grid bus =
     (let cs = sb_comm_range_m (sb_config bus); bus1 = bus\<lparr>sb_cell_size_m := cs, sb_grid := []\<rparr> in
      if f32_le cs f32_zero then Inr bus1
      else
        rmap (\<lambda>g. bus1\<lparr>sb_grid := g\<rparr>)
          (rfold (\<lambda>i g. rbind (pos_fn bus i) (\<lambda>p. rmap (\<lambda>c. grid_push c i g) (sim_cell_for cs p)))
             [0..<length (sb_nodes bus)] []))"

text \<open>The body of the innermost loop: the participant \<open>to\<close> is added to those that receive the packet.\<close>

definition sim_visit :: "sim_bus \<Rightarrow> nat \<Rightarrow> position \<Rightarrow> nat \<Rightarrow> nat list \<Rightarrow> nat list res" where
  "sim_visit bus from from_pos to acc =
     (if to = from then Inr acc
      else rmap (\<lambda>to_pos.
             let range_sq = f32_mul (sb_comm_range_m (sb_config bus)) (sb_comm_range_m (sb_config bus))
             in if f32_le (dist_sq to_pos from_pos) range_sq then acc @ [to] else acc) (pos_fn bus to))"

definition sim_visit_cell :: "sim_bus \<Rightarrow> nat \<Rightarrow> position \<Rightarrow> cell \<Rightarrow> int \<times> int \<times> int \<Rightarrow> nat list \<Rightarrow> nat list res" where
  "sim_visit_cell bus from from_pos centre d acc =
     (case centre of Cell cx cy cz \<Rightarrow> case d of (dz, dy, dx) \<Rightarrow>
        rbind (i32_add cx dx) (\<lambda>kx. rbind (i32_add cy dy) (\<lambda>ky. rbind (i32_add cz dz) (\<lambda>kz.
        rfold (sim_visit bus from from_pos) (grid_at (sb_grid bus) (Cell kx ky kz)) acc))))"

definition recipients :: "sim_bus \<Rightarrow> nat \<Rightarrow> position \<Rightarrow> nat list res" where
  "recipients bus from from_pos =
     (if f32_lt f32_zero (sb_cell_size_m bus) \<and> sb_grid bus \<noteq> []
      then rbind (sim_cell_for (sb_cell_size_m bus) from_pos) (\<lambda>centre.
             rfold (sim_visit_cell bus from from_pos centre) (cube 1) [])
      else rfold (sim_visit bus from from_pos) [0..<length (sb_nodes bus)] [])"

definition upd_port :: "nat \<Rightarrow> (port \<Rightarrow> port) \<Rightarrow> sim_bus \<Rightarrow> sim_bus" where
  "upd_port i f bus =
     bus\<lparr>sb_nodes := (sb_nodes bus)[i := (sb_nodes bus ! i)\<lparr>nd_robot := set_world (\<lambda>w. w\<lparr>w_port := f (w_port w)\<rparr>) (nd_robot (sb_nodes bus ! i))\<rparr>]\<rparr>"

definition push_beacon :: "state_vector \<Rightarrow> nat \<Rightarrow> sim_bus \<Rightarrow> sim_bus" where
  "push_beacon sv i bus = upd_port i (\<lambda>p. p\<lparr>tp_in_beacons := tp_in_beacons p @ [sv]\<rparr>) bus"

definition push_message :: "message \<Rightarrow> nat \<Rightarrow> sim_bus \<Rightarrow> sim_bus" where
  "push_message m i bus = upd_port i (\<lambda>p. p\<lparr>tp_in_messages := tp_in_messages p @ [m]\<rparr>) bus"

definition sim_deliver_beacon :: "nat \<Rightarrow> position \<Rightarrow> state_vector \<Rightarrow> sim_bus \<Rightarrow> sim_bus res" where
  "sim_deliver_beacon from from_pos sv bus =
     (if length (sb_nodes bus) \<le> from then Inr bus
      else rmap (\<lambda>tos. fold (push_beacon sv) tos bus) (recipients bus from from_pos))"

text \<open>The search for the one recipient of a directed message.\<close>

fun find_recipient :: "sim_bus \<Rightarrow> nat \<Rightarrow> hid \<Rightarrow> nat list \<Rightarrow> nat option res" where
  "find_recipient bus from h [] = Inr None"
| "find_recipient bus from h (to # tos) =
     (if to = from then find_recipient bus from h tos
      else rbind (world_identity (sb_world bus to)) (\<lambda>h'. if h' = h then Inr (Some to) else find_recipient bus from h tos))"

definition sim_deliver_message :: "nat \<Rightarrow> position \<Rightarrow> message \<Rightarrow> sim_bus \<Rightarrow> sim_bus res" where
  "sim_deliver_message from from_pos m bus =
     (if length (sb_nodes bus) \<le> from then Inr bus
      else if is_broadcast (msg_recipient m)
        then rmap (\<lambda>tos. fold (push_message m) tos bus) (recipients bus from from_pos)
        else rmap (\<lambda>to. case to of None \<Rightarrow> bus | Some i \<Rightarrow> push_message m i bus)
               (find_recipient bus from (msg_recipient m) [0..<length (sb_nodes bus)]))"

definition sim_send :: "nat \<Rightarrow> packet \<times> position \<Rightarrow> sim_bus \<Rightarrow> sim_bus res" where
  "sim_send from pp bus =
     (case pp of (Beacon sv, pos) \<Rightarrow> sim_deliver_beacon from pos sv bus | (Msg m, pos) \<Rightarrow> sim_deliver_message from pos m bus)"

section \<open>Advancing\<close>

definition clear_log :: "node \<Rightarrow> node" where
  "clear_log nd = nd\<lparr>nd_robot := set_world (\<lambda>w. w\<lparr>w_port := (w_port w)\<lparr>tp_sent := []\<rparr>\<rparr>) (nd_robot nd)\<rparr>"

definition sim_tick_world :: "auth_build \<Rightarrow> (nat \<Rightarrow> u32) \<Rightarrow> keypair \<Rightarrow> nat \<Rightarrow> sim_bus \<Rightarrow> sim_bus res" where
  "sim_tick_world auth rd kp i bus =
     rbind (world_tick auth rd kp (clear_log (sb_nodes bus ! i))) (\<lambda>nd.
       rfold (sim_send i) (tp_sent (w_port (rb_world (nd_robot nd)))) (bus\<lparr>sb_nodes := (sb_nodes bus)[i := nd]\<rparr>))"

text \<open>One iteration of \<open>SimClock::advance\<close>; \<open>env t i\<close> is the randomness that world \<open>i\<close> draws in tick \<open>t\<close>.\<close>

definition clock_round :: "auth_build \<Rightarrow> (u64 \<Rightarrow> nat \<Rightarrow> (nat \<Rightarrow> u32) \<times> keypair) \<Rightarrow> sim_bus \<Rightarrow> sim_bus res" where
  "clock_round auth env bus =
     rmap (\<lambda>bus. bus\<lparr>sb_clock := (sb_clock bus)\<lparr>ck_elapsed_time_s := f32_add (ck_elapsed_time_s (sb_clock bus)) (ck_delta_time_s (sb_clock bus)),
                       ck_tick_count := ck_tick_count (sb_clock bus) + 1\<rparr>\<rparr>)
       (rfold (\<lambda>i. case env (ck_tick_count (sb_clock bus)) i of (rd, kp) \<Rightarrow> sim_tick_world auth rd kp i) (ck_worlds (sb_clock bus)) bus)"

fun clock_advance :: "auth_build \<Rightarrow> (u64 \<Rightarrow> nat \<Rightarrow> (nat \<Rightarrow> u32) \<times> keypair) \<Rightarrow> nat \<Rightarrow> sim_bus \<Rightarrow> sim_bus res" where
  "clock_advance auth env 0 bus = Inr bus"
| "clock_advance auth env (Suc n) bus = rbind (clock_round auth env bus) (clock_advance auth env n)"

fun sim_advance :: "auth_build \<Rightarrow> (u64 \<Rightarrow> nat \<Rightarrow> (nat \<Rightarrow> u32) \<times> keypair) \<Rightarrow> nat \<Rightarrow> sim_bus \<Rightarrow> sim_bus res" where
  "sim_advance auth env 0 bus = Inr bus"
| "sim_advance auth env (Suc n) bus =
     rbind (sim_rebuild_grid bus) (\<lambda>bus. rbind (clock_advance auth env 1 bus) (sim_advance auth env n))"

section \<open>Frames\<close>

text \<open>What delivery leaves alone: everything but the inboxes.\<close>

definition same_but_inboxes :: "sim_bus \<Rightarrow> sim_bus \<Rightarrow> bool" where
  "same_but_inboxes bus bus' \<longleftrightarrow> sb_config bus' = sb_config bus \<and> sb_clock bus' = sb_clock bus \<and> sb_grid bus' = sb_grid bus
     \<and> sb_cell_size_m bus' = sb_cell_size_m bus \<and> length (sb_nodes bus') = length (sb_nodes bus)
     \<and> (\<forall>i < length (sb_nodes bus). nd_scheduler (sb_nodes bus' ! i) = nd_scheduler (sb_nodes bus ! i)
          \<and> (sb_world bus' i)\<lparr>w_port := port_none\<rparr> = (sb_world bus i)\<lparr>w_port := port_none\<rparr>)"

lemma same_but_inboxes_refl [simp]: "same_but_inboxes bus bus"
  by (simp add: same_but_inboxes_def)

lemma same_but_inboxes_trans: "same_but_inboxes a b \<Longrightarrow> same_but_inboxes b c \<Longrightarrow> same_but_inboxes a c"
  by (simp add: same_but_inboxes_def)

lemma same_but_inboxes_world:
  assumes "same_but_inboxes bus bus'" "i < length (sb_nodes bus)"
  shows "w_context (sb_world bus' i) = w_context (sb_world bus i)" "w_config (sb_world bus' i) = w_config (sb_world bus i)"
    "w_self (sb_world bus' i) = w_self (sb_world bus i)" "w_initialized (sb_world bus' i) = w_initialized (sb_world bus i)"
proof -
  have eq: "(sb_world bus' i)\<lparr>w_port := port_none\<rparr> = (sb_world bus i)\<lparr>w_port := port_none\<rparr>"
    using assms by (simp add: same_but_inboxes_def)
  show "w_context (sb_world bus' i) = w_context (sb_world bus i)" using arg_cong [OF eq, of w_context] by simp
  show "w_config (sb_world bus' i) = w_config (sb_world bus i)" using arg_cong [OF eq, of w_config] by simp
  show "w_self (sb_world bus' i) = w_self (sb_world bus i)" using arg_cong [OF eq, of w_self] by simp
  show "w_initialized (sb_world bus' i) = w_initialized (sb_world bus i)" using arg_cong [OF eq, of w_initialized] by simp
qed

lemma upd_port_same: "same_but_inboxes bus (upd_port i f bus)"
  by (cases "i < length (sb_nodes bus)") (auto simp: same_but_inboxes_def upd_port_def set_world_def nth_list_update)

lemma fold_upd_port_same:
  assumes "\<And>i bus. \<exists>f. g i bus = upd_port i f bus"
  shows "same_but_inboxes bus (fold g tos bus)"
proof (induction tos arbitrary: bus)
  case (Cons i tos)
  then show ?case using assms [of i bus] upd_port_same same_but_inboxes_trans by (metis fold_simps(2))
qed simp

lemma fold_upd_port:
  assumes "\<And>i bus. g i bus = upd_port i f bus" "distinct tos" "\<forall>i \<in> set tos. i < length (sb_nodes bus)" "j < length (sb_nodes bus)"
  shows "sb_world (fold g tos bus) j = (if j \<in> set tos then (sb_world bus j)\<lparr>w_port := f (w_port (sb_world bus j))\<rparr> else sb_world bus j)"
  using assms(2-4)
proof (induction tos arbitrary: bus)
  case (Cons i tos)
  have w: "sb_world (upd_port i f bus) j = (if j = i then (sb_world bus j)\<lparr>w_port := f (w_port (sb_world bus j))\<rparr> else sb_world bus j)"
    using Cons.prems by (simp add: upd_port_def set_world_def nth_list_update)
  show ?case using Cons.IH [of "upd_port i f bus"] Cons.prems w by (auto simp: assms(1) upd_port_def)
qed simp

lemma sim_send_same:
  assumes "sim_send from pp bus = Inr bus'"
  shows "same_but_inboxes bus bus'"
proof -
  have "same_but_inboxes bus (fold (push_beacon sv) tos bus)" for sv tos
    by (rule fold_upd_port_same) (auto simp: push_beacon_def)
  moreover have "same_but_inboxes bus (fold (push_message m) tos bus)" for m tos
    by (rule fold_upd_port_same) (auto simp: push_message_def)
  moreover have "same_but_inboxes bus (push_message m i bus)" for m i by (simp add: push_message_def upd_port_same)
  ultimately show ?thesis using assms
    by (auto simp: sim_send_def sim_deliver_beacon_def sim_deliver_message_def rmap_eq_Inr_iff split: prod.splits packet.splits if_splits option.splits)
qed

section \<open>Who receives a packet\<close>

definition hears :: "sim_bus \<Rightarrow> nat \<Rightarrow> position \<Rightarrow> nat \<Rightarrow> bool" where
  "hears bus from from_pos to \<longleftrightarrow> to \<noteq> from
     \<and> f32_le (dist_sq (self_position (w_self (sb_world bus to))) from_pos) (f32_mul (sb_comm_range_m (sb_config bus)) (sb_comm_range_m (sb_config bus)))"

lemma sim_visits:
  "rfold (sim_visit bus from fp) tos acc = Inr r \<Longrightarrow> r = acc @ filter (hears bus from fp) tos"
proof (induction tos arbitrary: acc)
  case (Cons to tos)
  then obtain acc1 where v: "sim_visit bus from fp to acc = Inr acc1" and "rfold (sim_visit bus from fp) tos acc1 = Inr r"
    by (auto simp: rbind_eq_Inr_iff)
  moreover from v have "acc1 = (if hears bus from fp to then acc @ [to] else acc)"
    by (auto simp: sim_visit_def hears_def pos_fn_def rmap_eq_Inr_iff Let_def split: if_splits)
  ultimately show ?case using Cons.IH [of acc1] by auto
qed simp

lemma sim_visit_cells:
  "rfold (sim_visit_cell bus from fp centre) ds acc = Inr r \<Longrightarrow>
     r = acc @ filter (hears bus from fp) (concat (map (\<lambda>d. grid_at (sb_grid bus) (cell_key centre d)) ds))"
proof (induction ds arbitrary: acc)
  case (Cons d ds)
  then obtain acc1 where v: "sim_visit_cell bus from fp centre d acc = Inr acc1" and r: "rfold (sim_visit_cell bus from fp centre) ds acc1 = Inr r"
    by (auto simp: rbind_eq_Inr_iff)
  have "acc1 = acc @ filter (hears bus from fp) (grid_at (sb_grid bus) (cell_key centre d))"
    using v by (cases centre; cases d) (auto simp: sim_visit_cell_def i32_add_def rbind_eq_Inr_iff dest: sim_visits split: if_splits)
  with Cons.IH [OF r] show ?case by simp
qed simp

lemma grid_fold:
  assumes "rfold (\<lambda>i g. rbind (pos i) (\<lambda>p. rmap (\<lambda>c. grid_push c i g) (cf p))) [0..<n] [] = Inr g"
  shows "(\<forall>c. distinct (grid_at g c)) \<and> (\<forall>c i. i \<in> set (grid_at g c) \<longleftrightarrow> i < n \<and> rbind (pos i) cf = Inr c)
    \<and> (\<forall>i < n. \<exists>c. rbind (pos i) cf = Inr c)"
  using assms
proof (induction n arbitrary: g)
  case (Suc n)
  then obtain g1 c where g1: "rfold (\<lambda>i g. rbind (pos i) (\<lambda>p. rmap (\<lambda>c. grid_push c i g) (cf p))) [0..<n] [] = Inr g1"
    and c: "rbind (pos n) cf = Inr c" "g = grid_push c n g1"
    by (auto simp: rfold_append rbind_eq_Inr_iff rmap_eq_Inr_iff)
  from Suc.IH [OF g1] c show ?case by (auto simp: less_Suc_eq)
qed (simp add: grid_at_def)

text \<open>Adjacent cells.\<close>

definition near_cell :: "f32 \<Rightarrow> position \<Rightarrow> position \<Rightarrow> bool" where
  "near_cell cs p q \<longleftrightarrow> (case (sim_cell_for cs p, sim_cell_for cs q) of
     (Inr (Cell px py pz), Inr (Cell qx qy qz)) \<Rightarrow> \<bar>px - qx\<bar> \<le> 1 \<and> \<bar>py - qy\<bar> \<le> 1 \<and> \<bar>pz - qz\<bar> \<le> 1
   | _ \<Rightarrow> False)"

text \<open>The bus \<open>bus\<close> still has the grid that was built from the positions in \<open>bus0\<close>.\<close>

definition indexed_by :: "sim_bus \<Rightarrow> sim_bus \<Rightarrow> bool" where
  "indexed_by bus0 bus \<longleftrightarrow> length (sb_nodes bus) = length (sb_nodes bus0) \<and> sb_config bus = sb_config bus0
     \<and> (\<exists>bus1. sim_rebuild_grid bus0 = Inr bus1 \<and> sb_grid bus = sb_grid bus1 \<and> sb_cell_size_m bus = sb_cell_size_m bus1)"

definition reached :: "sim_bus \<Rightarrow> sim_bus \<Rightarrow> nat \<Rightarrow> position \<Rightarrow> nat \<Rightarrow> bool" where
  "reached bus0 bus from from_pos to \<longleftrightarrow> hears bus from from_pos to
     \<and> (f32_lt f32_zero (sb_comm_range_m (sb_config bus)) \<longrightarrow>
          near_cell (sb_comm_range_m (sb_config bus)) (self_position (w_self (sb_world bus0 to))) from_pos)"

lemma recipients_exact:
  assumes "indexed_by bus0 bus" "from < length (sb_nodes bus)" "recipients bus from fp = Inr tos"
  shows "distinct tos" "set tos = {to. to < length (sb_nodes bus) \<and> reached bus0 bus from fp to}"
proof -
  let ?cs = "sb_comm_range_m (sb_config bus0)" and ?n = "length (sb_nodes bus0)"
  obtain bus1 where bus1: "sim_rebuild_grid bus0 = Inr bus1" "sb_grid bus = sb_grid bus1" "sb_cell_size_m bus = sb_cell_size_m bus1"
    "length (sb_nodes bus) = ?n" "sb_config bus = sb_config bus0"
    using assms(1) by (auto simp: indexed_by_def)
  have cs: "sb_cell_size_m bus = ?cs" using bus1 by (auto simp: sim_rebuild_grid_def Let_def rmap_eq_Inr_iff split: if_splits)
  have "distinct tos \<and> set tos = {to. to < ?n \<and> reached bus0 bus from fp to}"
  proof (cases "f32_le ?cs f32_zero")
    case True
    then have g: "sb_grid bus = []" "\<not> f32_lt f32_zero ?cs" using bus1 f32_pos_not_le by (auto simp: sim_rebuild_grid_def Let_def)
    then have "tos = filter (hears bus from fp) [0..<?n]"
      using assms(3) sim_visits [of bus "from" fp "[0..<?n]" "[]" tos] bus1(4) by (simp add: recipients_def)
    then show ?thesis using g(2) bus1(5) by (auto simp: reached_def)
  next
    case False
    then have "rfold (\<lambda>i g. rbind (pos_fn bus0 i) (\<lambda>p. rmap (\<lambda>c. grid_push c i g) (sim_cell_for ?cs p))) [0..<?n] [] = Inr (sb_grid bus)"
      using bus1(1,2) by (auto simp: sim_rebuild_grid_def Let_def rmap_eq_Inr_iff)
    note g = grid_fold [OF this]
    have n: "from < ?n" using assms(2) bus1(4) by simp
    then obtain c0 where "from \<in> set (grid_at (sb_grid bus) c0)" using g by blast
    then have ne: "sb_grid bus \<noteq> []" by (auto simp: grid_at_def)
    have pos: "f32_lt f32_zero ?cs"
    proof (rule ccontr)
      assume "\<not> f32_lt f32_zero ?cs"
      then have "f32_isnan ?cs" using False f32_not_lt [of f32_zero ?cs] by fastforce
      then show False using g n cell_for_nan by (auto simp: sim_cell_for_def rbind_eq_Inr_iff)
    qed
    have act: "f32_lt f32_zero (sb_cell_size_m bus) \<and> sb_grid bus \<noteq> []" using pos cs ne by simp
    obtain cx cy cz where centre: "sim_cell_for ?cs fp = Inr (Cell cx cy cz)"
      and r: "rfold (sim_visit_cell bus from fp (Cell cx cy cz)) (cube 1) [] = Inr tos"
      using assms(3) act cs by (auto simp: recipients_def rbind_eq_Inr_iff) (metis cell.exhaust)
    let ?js = "concat (map (\<lambda>d. grid_at (sb_grid bus) (cell_key (Cell cx cy cz) d)) (cube 1))"
    have tos: "tos = filter (hears bus from fp) ?js" using sim_visit_cells [OF r] by simp
    have d: "distinct ?js" by (intro distinct_buckets distinct_cube) (use g in auto)
    have "i \<in> set ?js \<longleftrightarrow> i < ?n \<and> near_cell ?cs (self_position (w_self (sb_world bus0 i))) fp" for i
    proof (cases "i < ?n")
      case True
      then obtain c where c: "rbind (pos_fn bus0 i) (sim_cell_for ?cs) = Inr c" using g by blast
      then obtain x y z where xyz: "sim_cell_for ?cs (self_position (w_self (sb_world bus0 i))) = Inr (Cell x y z)" "c = Cell x y z"
        by (cases c) (auto simp: pos_fn_def rbind_eq_Inr_iff split: if_splits)
      have bucket: "i \<in> set (grid_at (sb_grid bus) k) \<longleftrightarrow> k = Cell x y z" for k using g True c xyz(2) by auto
      have "i \<in> set ?js \<longleftrightarrow> (\<exists>d \<in> set (cube 1). cell_key (Cell cx cy cz) d = Cell x y z)" by (simp add: bucket)
      then show ?thesis using True xyz centre by (simp add: near_cell_def cell_key_cube)
    qed (use g in auto)
    then show ?thesis using tos d pos bus1(5) by (auto simp: reached_def)
  qed
  then show "distinct tos" "set tos = {to. to < length (sb_nodes bus) \<and> reached bus0 bus from fp to}" using bus1(4) by simp_all
qed

text \<open>
  Claim C8.  Radio range on the bus: a beacon or a broadcast message that is delivered reaches a participant exactly
  when that is not the sender, is within the communication range of the sender's position now, and was,
  when the grid was built, in the cell of the sender or in one next to it; it is appended to that inbox once,
  and no other inbox changes.  With a range of zero or less the grid is not used.
\<close>

theorem broadcast_reaches_exactly:
  assumes "indexed_by bus0 bus" "from < length (sb_nodes bus)" "to < length (sb_nodes bus)"
  shows "(sim_deliver_beacon from fp sv bus = Inr bus' \<longrightarrow>
      tp_in_beacons (w_port (sb_world bus' to)) =
        tp_in_beacons (w_port (sb_world bus to)) @ (if reached bus0 bus from fp to then [sv] else [])
      \<and> tp_in_messages (w_port (sb_world bus' to)) = tp_in_messages (w_port (sb_world bus to)))
    \<and> (sim_deliver_message from fp m bus = Inr bus' \<and> is_broadcast (msg_recipient m) \<longrightarrow>
      tp_in_messages (w_port (sb_world bus' to)) =
        tp_in_messages (w_port (sb_world bus to)) @ (if reached bus0 bus from fp to then [m] else [])
      \<and> tp_in_beacons (w_port (sb_world bus' to)) = tp_in_beacons (w_port (sb_world bus to)))"
proof -
  note ex = recipients_exact [OF assms(1,2)]
  have b: "sb_world (fold (push_beacon sv) tos bus) to = (if reached bus0 bus from fp to
        then (sb_world bus to)\<lparr>w_port := (w_port (sb_world bus to))\<lparr>tp_in_beacons := tp_in_beacons (w_port (sb_world bus to)) @ [sv]\<rparr>\<rparr>
        else sb_world bus to)" if "recipients bus from fp = Inr tos" for tos
    using ex [OF that] assms(3)
    by (subst fold_upd_port [where f = "\<lambda>p. p\<lparr>tp_in_beacons := tp_in_beacons p @ [sv]\<rparr>"]) (simp_all add: push_beacon_def)
  have m: "sb_world (fold (push_message m) tos bus) to = (if reached bus0 bus from fp to
        then (sb_world bus to)\<lparr>w_port := (w_port (sb_world bus to))\<lparr>tp_in_messages := tp_in_messages (w_port (sb_world bus to)) @ [m]\<rparr>\<rparr>
        else sb_world bus to)" if "recipients bus from fp = Inr tos" for tos
    using ex [OF that] assms(3)
    by (subst fold_upd_port [where f = "\<lambda>p. p\<lparr>tp_in_messages := tp_in_messages p @ [m]\<rparr>"]) (simp_all add: push_message_def)
  show ?thesis using assms(2) b m
    by (auto simp: sim_deliver_beacon_def sim_deliver_message_def rmap_eq_Inr_iff split: if_splits)
qed

lemma find_recipient_first:
  assumes "\<forall>i \<in> set tos. w_initialized (sb_world bus i)"
  shows "find_recipient bus from h tos = Inr (find (\<lambda>i. i \<noteq> from \<and> self_identity (w_self (sb_world bus i)) = h) tos)"
  using assms by (induction tos) (auto simp: world_identity_def)

text \<open>
  Directed messages on the bus: when all worlds are initialised, a message with a recipient is delivered,
  at any distance, to the first participant other than the sender that has this identity, and to no one else;
  nothing aborts and no other inbox changes.
\<close>

theorem directed_message_reaches_one:
  assumes "\<forall>i < length (sb_nodes bus). w_initialized (sb_world bus i)" "from < length (sb_nodes bus)" "\<not> is_broadcast (msg_recipient m)"
  shows "\<exists>bus'. sim_deliver_message from fp m bus = Inr bus' \<and> (\<forall>to < length (sb_nodes bus).
      tp_in_messages (w_port (sb_world bus' to)) = tp_in_messages (w_port (sb_world bus to)) @
        (if to \<noteq> from \<and> self_identity (w_self (sb_world bus to)) = msg_recipient m
            \<and> (\<forall>j < to. j \<noteq> from \<longrightarrow> self_identity (w_self (sb_world bus j)) \<noteq> msg_recipient m) then [m] else [])
      \<and> tp_in_beacons (w_port (sb_world bus' to)) = tp_in_beacons (w_port (sb_world bus to)))"
proof -
  let ?P = "\<lambda>i. i \<noteq> from \<and> self_identity (w_self (sb_world bus i)) = msg_recipient m" and ?n = "length (sb_nodes bus)"
  have del: "sim_deliver_message from fp m bus = Inr (case find ?P [0..<?n] of None \<Rightarrow> bus | Some i \<Rightarrow> push_message m i bus)"
    using assms find_recipient_first [of "[0..<?n]" bus "from" "msg_recipient m"] by (simp add: sim_deliver_message_def)
  show ?thesis
  proof (cases "find ?P [0..<?n]")
    case None
    then have "sim_deliver_message from fp m bus = Inr bus" using del by simp
    moreover have "\<forall>x < ?n. \<not> ?P x" using None by (auto simp: find_None_iff)
    ultimately show ?thesis by auto
  next
    case (Some k)
    then have k: "k < ?n" "?P k" "\<forall>j < k. \<not> ?P j" by (auto simp: find_Some_iff)
    have first: "to = k \<longleftrightarrow> ?P to \<and> (\<forall>j < to. \<not> ?P j)" for to using k(2,3) by (metis nat_neq_iff)
    have w: "sb_world (push_message m k bus) to =
        (if to = k then (sb_world bus to)\<lparr>w_port := (w_port (sb_world bus to))\<lparr>tp_in_messages := tp_in_messages (w_port (sb_world bus to)) @ [m]\<rparr>\<rparr>
         else sb_world bus to)" if "to < ?n" for to
      using that k(1) by (simp add: push_message_def upd_port_def set_world_def nth_list_update)
    have "tp_in_messages (w_port (sb_world (push_message m k bus) to)) = tp_in_messages (w_port (sb_world bus to)) @
        (if ?P to \<and> (\<forall>j < to. \<not> ?P j) then [m] else [])
      \<and> tp_in_beacons (w_port (sb_world (push_message m k bus) to)) = tp_in_beacons (w_port (sb_world bus to))" if "to < ?n" for to
      unfolding w [OF that] first [symmetric] by simp
    then show ?thesis using del Some by auto
  qed
qed

section \<open>Lock step\<close>

text \<open>A world of the bus shows the time and the tick of the clock, and runs at its rate.\<close>

definition in_step :: "sim_bus \<Rightarrow> nat \<Rightarrow> bool" where
  "in_step bus i \<longleftrightarrow> f32_div f32_one (cfg_tick_rate_hz (w_config (sb_world bus i))) = ck_delta_time_s (sb_clock bus)
     \<and> ctx_elapsed_time_s (w_context (sb_world bus i)) = ck_elapsed_time_s (sb_clock bus)
     \<and> ctx_tick_count (w_context (sb_world bus i)) = ck_tick_count (sb_clock bus)"

definition with_builtins :: "auth_build \<Rightarrow> node \<Rightarrow> bool" where
  "with_builtins auth nd \<longleftrightarrow> (\<exists>s hc. mset (sc_systems s) = mset (builtin_systems auth) \<and> build_graph hc s = (Ok, nd_scheduler nd))"

lemma sim_tick_world_step:
  assumes "with_builtins auth (sb_nodes bus ! i)" "i < length (sb_nodes bus)" "sim_tick_world auth rd kp i bus = Inr bus'"
  shows "sb_clock bus' = sb_clock bus" "length (sb_nodes bus') = length (sb_nodes bus)"
    and "j < length (sb_nodes bus) \<Longrightarrow> nd_scheduler (sb_nodes bus' ! j) = nd_scheduler (sb_nodes bus ! j)
      \<and> w_config (sb_world bus' j) = w_config (sb_world bus j)
      \<and> w_context (sb_world bus' j) = (if j = i then w_context (advance_context (sb_world bus j)) else w_context (sb_world bus j))"
proof -
  let ?nd0 = "clear_log (sb_nodes bus ! i)"
  obtain s hc where s: "mset (sc_systems s) = mset (builtin_systems auth)" "build_graph hc s = (Ok, nd_scheduler ?nd0)"
    using assms(1) by (auto simp: with_builtins_def clear_log_def)
  obtain nd where t: "world_tick auth rd kp ?nd0 = Inr nd"
    and sends: "rfold (sim_send i) (tp_sent (w_port (rb_world (nd_robot nd)))) (bus\<lparr>sb_nodes := (sb_nodes bus)[i := nd]\<rparr>) = Inr bus'"
    using assms(3) by (auto simp: sim_tick_world_def rbind_eq_Inr_iff)
  let ?bus1 = "bus\<lparr>sb_nodes := (sb_nodes bus)[i := nd]\<rparr>"
  note w = world_tick_clock [OF s t]
  have same: "same_but_inboxes ?bus1 bus'"
    by (rule rfold_invariant [OF sends]) (auto dest: sim_send_same intro: same_but_inboxes_trans)
  then show "sb_clock bus' = sb_clock bus" "length (sb_nodes bus') = length (sb_nodes bus)" by (simp_all add: same_but_inboxes_def)
  assume j: "j < length (sb_nodes bus)"
  have adv: "w_context (advance_context (rb_world (nd_robot ?nd0))) = w_context (advance_context (sb_world bus i))"
    "w_config (rb_world (nd_robot ?nd0)) = w_config (sb_world bus i)" "nd_scheduler ?nd0 = nd_scheduler (sb_nodes bus ! i)"
    by (simp_all add: clear_log_def set_world_def advance_context_def Let_def)
  show "nd_scheduler (sb_nodes bus' ! j) = nd_scheduler (sb_nodes bus ! j) \<and> w_config (sb_world bus' j) = w_config (sb_world bus j)
      \<and> w_context (sb_world bus' j) = (if j = i then w_context (advance_context (sb_world bus j)) else w_context (sb_world bus j))"
    using same_but_inboxes_world [OF same, of j] same j w adv assms(2)
    by (auto simp: same_but_inboxes_def nth_list_update)
qed

lemma sim_tick_worlds:
  assumes "\<forall>i < length (sb_nodes bus). with_builtins auth (sb_nodes bus ! i)" "distinct is" "\<forall>i \<in> set is. i < length (sb_nodes bus)"
    and "rfold (\<lambda>i. case env i of (rd, kp) \<Rightarrow> sim_tick_world auth rd kp i) is bus = Inr bus'"
  shows "sb_clock bus' = sb_clock bus \<and> length (sb_nodes bus') = length (sb_nodes bus)
    \<and> (\<forall>j < length (sb_nodes bus). nd_scheduler (sb_nodes bus' ! j) = nd_scheduler (sb_nodes bus ! j)
      \<and> w_config (sb_world bus' j) = w_config (sb_world bus j)
      \<and> w_context (sb_world bus' j) = (if j \<in> set is then w_context (advance_context (sb_world bus j)) else w_context (sb_world bus j)))"
  using assms
proof (induction "is" arbitrary: bus)
  case (Cons i "is")
  obtain rd kp where e: "env i = (rd, kp)" by fastforce
  then obtain bus1 where t: "sim_tick_world auth rd kp i bus = Inr bus1"
    and rest: "rfold (\<lambda>i. case env i of (rd, kp) \<Rightarrow> sim_tick_world auth rd kp i) is bus1 = Inr bus'"
    using Cons.prems(4) by (auto simp: rbind_eq_Inr_iff)
  have wi: "with_builtins auth (sb_nodes bus ! i)" "i < length (sb_nodes bus)" using Cons.prems(1,3) by auto
  note one = sim_tick_world_step [OF wi t]
  have "\<forall>j < length (sb_nodes bus1). with_builtins auth (sb_nodes bus1 ! j)"
    using Cons.prems(1) one(2,3) by (simp add: with_builtins_def)
  note IH = Cons.IH [OF this _ _ rest]
  have ctx: "w_context (advance_context (sb_world bus1 j)) = w_context (advance_context (sb_world bus j))" if "j < length (sb_nodes bus)" "j \<noteq> i" for j
    using one(3) [OF that(1)] that(2) by (simp add: advance_context_def Let_def)
  show ?case using IH Cons.prems(2,3) one ctx by auto
qed simp

lemma clock_round_step:
  assumes "\<forall>i < length (sb_nodes bus). with_builtins auth (sb_nodes bus ! i)" "distinct (ck_worlds (sb_clock bus))"
    and "\<forall>i \<in> set (ck_worlds (sb_clock bus)). i < length (sb_nodes bus) \<and> in_step bus i" "clock_round auth env bus = Inr bus'"
  shows "length (sb_nodes bus') = length (sb_nodes bus) \<and> (\<forall>i < length (sb_nodes bus'). with_builtins auth (sb_nodes bus' ! i))
    \<and> ck_worlds (sb_clock bus') = ck_worlds (sb_clock bus) \<and> ck_tick_count (sb_clock bus') = ck_tick_count (sb_clock bus) + 1
    \<and> (\<forall>i \<in> set (ck_worlds (sb_clock bus)). in_step bus' i)"
proof -
  obtain bus1 where r: "rfold (\<lambda>i. case env (ck_tick_count (sb_clock bus)) i of (rd, kp) \<Rightarrow> sim_tick_world auth rd kp i) (ck_worlds (sb_clock bus)) bus = Inr bus1"
    and bus': "bus' = bus1\<lparr>sb_clock := (sb_clock bus1)\<lparr>ck_elapsed_time_s := f32_add (ck_elapsed_time_s (sb_clock bus1)) (ck_delta_time_s (sb_clock bus1)),
                       ck_tick_count := ck_tick_count (sb_clock bus1) + 1\<rparr>\<rparr>"
    using assms(4) by (auto simp: clock_round_def rmap_eq_Inr_iff)
  have "\<forall>i \<in> set (ck_worlds (sb_clock bus)). i < length (sb_nodes bus)" using assms(3) by simp
  note w = sim_tick_worlds [OF assms(1,2) this r]
  then show ?thesis using assms(1,3) bus' by (auto simp: with_builtins_def in_step_def advance_context_def Let_def)
qed

text \<open>
  Claim C13.  Lock step: if the registered worlds of a bus, with the built-in systems, agree with its clock, then
  after \<open>advance(n)\<close>, unless a step aborts, the clock has counted \<open>n\<close> ticks more, modulo \<open>2^64\<close>, and every world still
  has the same tick number and, to the bit, the same elapsed time as the clock, whatever was sent and
  received on the way.
\<close>

theorem simulation_in_lock_step:
  assumes "\<forall>i < length (sb_nodes bus). with_builtins auth (sb_nodes bus ! i)" "distinct (ck_worlds (sb_clock bus))"
    and "\<forall>i \<in> set (ck_worlds (sb_clock bus)). i < length (sb_nodes bus) \<and> in_step bus i" "sim_advance auth env n bus = Inr bus'"
  shows "ck_tick_count (sb_clock bus') = ck_tick_count (sb_clock bus) + of_nat n \<and> ck_worlds (sb_clock bus') = ck_worlds (sb_clock bus)
    \<and> (\<forall>i \<in> set (ck_worlds (sb_clock bus)). ctx_elapsed_time_s (w_context (sb_world bus' i)) = ck_elapsed_time_s (sb_clock bus')
         \<and> ctx_tick_count (w_context (sb_world bus' i)) = ck_tick_count (sb_clock bus'))"
  using assms
proof (induction n arbitrary: bus)
  case (Suc n)
  then obtain bus1 bus2 where g: "sim_rebuild_grid bus = Inr bus1" and c: "clock_round auth env bus1 = Inr bus2"
    and rest: "sim_advance auth env n bus2 = Inr bus'"
    by (auto simp: rbind_eq_Inr_iff)
  have b1: "sb_nodes bus1 = sb_nodes bus" "sb_clock bus1 = sb_clock bus"
    using g by (auto simp: sim_rebuild_grid_def Let_def rmap_eq_Inr_iff split: if_splits)
  have "in_step bus1 i \<longleftrightarrow> in_step bus i" for i by (simp add: in_step_def b1)
  with clock_round_step [of bus1 auth env bus2] Suc.prems b1 c
  have "length (sb_nodes bus2) = length (sb_nodes bus) \<and> (\<forall>i < length (sb_nodes bus2). with_builtins auth (sb_nodes bus2 ! i))
    \<and> ck_worlds (sb_clock bus2) = ck_worlds (sb_clock bus) \<and> ck_tick_count (sb_clock bus2) = ck_tick_count (sb_clock bus) + 1
    \<and> (\<forall>i \<in> set (ck_worlds (sb_clock bus)). in_step bus2 i)" by simp
  with Suc.IH [of bus2] Suc.prems(2,3) rest show ?case by (simp add: add_ac)
qed (simp add: in_step_def)

text \<open>Examples: a bus with one robot, and one with two.\<close>

definition example_bus :: "node list \<Rightarrow> sim_bus" where
  "example_bus nds = (sim_bus_new sim_config_default)\<lparr>sb_nodes := nds,
     sb_clock := fold register_world [0..<length nds] (sb_clock (sim_bus_new sim_config_default))\<rparr>"

theorem simulation_in_lock_step_witness:
  "\<exists>bus'. sim_advance None (\<lambda>_ _. (\<lambda>_. 0, \<lparr>kp_public_key = [], kp_private_key = []\<rparr>)) 1 (example_bus [example_node]) = Inr bus'
     \<and> ck_tick_count (sb_clock bus') = 1 \<and> ctx_tick_count (w_context (sb_world bus' 0)) = 1"
proof -
  let ?kp = "\<lparr>kp_public_key = [], kp_private_key = []\<rparr> :: keypair" and ?b = "example_bus [example_node]"
  let ?env = "\<lambda>_ _. (\<lambda>_. 0, ?kp) :: (nat \<Rightarrow> u32) \<times> keypair"
  note nd = example_node_facts
  have b: "sb_nodes ?b = [example_node]" "ck_worlds (sb_clock ?b) = [0]" "ck_tick_count (sb_clock ?b) = 0"
    "ck_elapsed_time_s (sb_clock ?b) = f32_zero" "ck_delta_time_s (sb_clock ?b) = f32_div f32_one 0x41A00000" "sb_config ?b = sim_config_default"
    by (simp_all add: example_bus_def sim_bus_new_def sim_clock_new_def sim_config_default_def register_world_def)
  have bi: "\<forall>i < length (sb_nodes ?b). with_builtins None (sb_nodes ?b ! i)" using nd(1,2) b(1) by (auto simp: with_builtins_def)
  have st: "\<forall>i \<in> set (ck_worlds (sb_clock ?b)). i < length (sb_nodes ?b) \<and> in_step ?b i"
    using b nd(5,6) by (simp add: in_step_def world_config_default_def swarm_context_default_def)
  have pos: "self_position (w_self (rb_world (nd_robot example_node))) = position_default"
    by (simp add: example_node_def robot_new_def discovery_new_def register_message_handler_def world_new_def self_default_def)
  have cell: "sim_cell_for (sb_comm_range_m sim_config_default) position_default = Inr (Cell 0 0 0)"
    "\<not> f32_le (sb_comm_range_m sim_config_default) f32_zero" by code_simp+
  let ?b1 = "?b\<lparr>sb_cell_size_m := sb_comm_range_m sim_config_default, sb_grid := grid_push (Cell 0 0 0) 0 []\<rparr>"
  have g: "sim_rebuild_grid ?b = Inr ?b1"
    using b nd(3) pos cell by (simp add: sim_rebuild_grid_def Let_def pos_fn_def)
  have "alone (rb_world (nd_robot (clear_log example_node)))" "w_initialized (rb_world (nd_robot (clear_log example_node)))"
    "nd_scheduler (clear_log example_node) = nd_scheduler example_node" "w_config (rb_world (nd_robot (clear_log example_node))) = world_config_default"
    using nd(3,4,5) by (simp_all add: clear_log_def set_world_def alone_def)
  then obtain nd' where t: "world_tick None (\<lambda>_. 0) ?kp (clear_log example_node) = Inr nd'" "tp_sent (w_port (rb_world (nd_robot nd'))) = []"
    using world_tick_alone [OF nd(2), of 4 "clear_log example_node" "\<lambda>_. 0" ?kp] nd(1) by (auto simp: world_config_default_def alone_def)
  have "\<exists>bus'. sim_advance None ?env 1 ?b = Inr bus'"
    using g t b by (simp add: clock_round_def sim_tick_world_def)
  then obtain bus' where run: "sim_advance None ?env 1 ?b = Inr bus'" by blast
  from simulation_in_lock_step [OF bi _ st run] run b show ?thesis by simp
qed

text \<open>A robot at a place, with an identity.\<close>

definition node_at :: "byte \<Rightarrow> f32 \<Rightarrow> node" where
  "node_at k x = example_node\<lparr>nd_robot := set_world (\<lambda>w. w\<lparr>w_self := (self_default (HID 1 (UUID (replicate 16 k))))
     \<lparr>self_position := \<lparr>pos_x = x, pos_y = f32_zero, pos_z = f32_zero\<rparr>\<rparr>\<rparr>) (nd_robot example_node)\<rparr>"

lemma node_at_facts:
  "w_initialized (rb_world (nd_robot (node_at k x)))" "self_identity (w_self (rb_world (nd_robot (node_at k x)))) = HID 1 (UUID (replicate 16 k))"
  "self_position (w_self (rb_world (nd_robot (node_at k x)))) = \<lparr>pos_x = x, pos_y = f32_zero, pos_z = f32_zero\<rparr>"
  "tp_in_beacons (w_port (rb_world (nd_robot (node_at k x)))) = []" "tp_in_messages (w_port (rb_world (nd_robot (node_at k x)))) = []"
  by (simp_all add: node_at_def set_world_def self_default_def example_node_def robot_new_def discovery_new_def register_message_handler_def
      world_new_def port_none_def)

lemma example_bus_sel [simp]: "sb_nodes (example_bus nds) = nds" "sb_config (example_bus nds) = sim_config_default"
  by (simp_all add: example_bus_def sim_bus_new_def)

theorem directed_message_reaches_one_witness:
  "\<exists>bus'. sim_deliver_message 0 position_default (message_default\<lparr>msg_recipient := HID 1 (UUID (replicate 16 2))\<rparr>)
       (example_bus [node_at 1 f32_zero, node_at 2 0x49800000]) = Inr bus'
     \<and> length (tp_in_messages (w_port (sb_world bus' 1))) = 1"
proof -
  let ?b = "example_bus [node_at 1 f32_zero, node_at 2 0x49800000]" and ?m = "message_default\<lparr>msg_recipient := HID 1 (UUID (replicate 16 2))\<rparr>"
  have init: "\<forall>i < length (sb_nodes ?b). w_initialized (sb_world ?b i)" by (auto simp: less_Suc_eq node_at_facts)
  have nb: "\<not> is_broadcast (msg_recipient ?m)" by code_simp
  from directed_message_reaches_one [OF init _ nb, of 0 position_default] node_at_facts show ?thesis by fastforce
qed

text \<open>Two robots 10 m apart.\<close>

theorem broadcast_reaches_exactly_witness:
  "\<exists>bus bus'. sim_rebuild_grid (example_bus [node_at 1 f32_zero, node_at 2 0x41200000]) = Inr bus
     \<and> sim_deliver_beacon 0 position_default state_vector_default bus = Inr bus'
     \<and> tp_in_beacons (w_port (sb_world bus' 0)) = [] \<and> tp_in_beacons (w_port (sb_world bus' 1)) = [state_vector_default]"
proof -
  let ?b = "example_bus [node_at 1 f32_zero, node_at 2 0x41200000]" and ?r = "sb_comm_range_m sim_config_default"
  let ?p = "\<lparr>pos_x = 0x41200000, pos_y = f32_zero, pos_z = f32_zero\<rparr> :: position"
  let ?bus = "?b\<lparr>sb_cell_size_m := ?r, sb_grid := grid_push (Cell 0 0 0) 1 (grid_push (Cell 0 0 0) 0 [])\<rparr>"
  have pd: "position_default = \<lparr>pos_x = f32_zero, pos_y = f32_zero, pos_z = f32_zero\<rparr>" by (simp add: position_default_def)
  have f: "\<not> f32_le ?r f32_zero" "f32_lt f32_zero ?r" "sim_cell_for ?r position_default = Inr (Cell 0 0 0)" "sim_cell_for ?r ?p = Inr (Cell 0 0 0)"
    "f32_le (dist_sq ?p position_default) (f32_mul ?r ?r)" by code_simp+
  have g: "sim_rebuild_grid ?b = Inr ?bus"
    using f by (simp add: sim_rebuild_grid_def Let_def pos_fn_def node_at_facts upt_rec pd)
  then have ix: "indexed_by ?b ?bus" by (simp add: indexed_by_def)
  have c1: "rfold (sim_visit_cell ?bus 0 position_default (Cell 0 0 0)) (cube 1) [] = Inr [1]"
    using f by (simp add: cube_def upto_rec1 sim_visit_cell_def i32_add_def in_i32_def grid_at_def grid_push_def sim_visit_def pos_fn_def node_at_facts Let_def)
  then have d: "sim_deliver_beacon 0 position_default state_vector_default ?bus = Inr (fold (push_beacon state_vector_default) [1] ?bus)"
    using f by (simp add: sim_deliver_beacon_def recipients_def grid_push_def)
  have "reached ?b ?bus 0 position_default 1" "\<not> reached ?b ?bus 0 position_default 0"
    using f by (simp_all add: reached_def hears_def node_at_facts near_cell_def)
  with broadcast_reaches_exactly [OF ix, of 0 1 position_default state_vector_default] broadcast_reaches_exactly [OF ix, of 0 0 position_default state_vector_default] d g
  show ?thesis by (auto simp: node_at_facts)
qed

text \<open>
  A robot that has moved since the grid was built: it is 49.75 m away, within the range of 50 m, and not
  reached, because the grid has it in the cell it left.
\<close>

theorem stale_grid_misses_recipient:
  "let bus0 = example_bus [node_at 1 0x42470000, node_at 2 0x42C90000]; bus = example_bus [node_at 1 0x42470000, node_at 2 0x42C70000];
       fp = \<lparr>pos_x = 0x42470000, pos_y = f32_zero, pos_z = f32_zero\<rparr>
   in hears bus 0 fp 1 \<and> \<not> reached bus0 bus 0 fp 1"
proof -
  let ?q = "\<lambda>x. \<lparr>pos_x = x, pos_y = f32_zero, pos_z = f32_zero\<rparr> :: position" and ?r = "sb_comm_range_m sim_config_default"
  have "f32_le (dist_sq (?q 0x42C70000) (?q 0x42470000)) (f32_mul ?r ?r)" "\<not> near_cell ?r (?q 0x42C90000) (?q 0x42470000)" "f32_lt f32_zero ?r"
    by code_simp+
  then show ?thesis by (simp add: Let_def hears_def reached_def node_at_facts)
qed

section \<open>Polls\<close>

definition sim_drain_beacons :: "nat \<Rightarrow> sim_bus \<Rightarrow> state_vector list \<times> sim_bus" where
  "sim_drain_beacons i bus =
     (if length (sb_nodes bus) \<le> i then ([], bus)
      else (tp_in_beacons (w_port (sb_world bus i)), upd_port i (\<lambda>p. p\<lparr>tp_in_beacons := []\<rparr>) bus))"

definition sim_drain_messages :: "nat \<Rightarrow> sim_bus \<Rightarrow> message list \<times> sim_bus" where
  "sim_drain_messages i bus =
     (if length (sb_nodes bus) \<le> i then ([], bus)
      else (tp_in_messages (w_port (sb_world bus i)), upd_port i (\<lambda>p. p\<lparr>tp_in_messages := []\<rparr>) bus))"

text \<open>The polls of a world are those of its transport on the bus.\<close>

lemma sim_drain_is_take:
  assumes "i < length (sb_nodes bus)"
  shows "take_beacons (sb_world bus i) = (fst (sim_drain_beacons i bus), sb_world (snd (sim_drain_beacons i bus)) i)"
    "take_messages (sb_world bus i) = (fst (sim_drain_messages i bus), sb_world (snd (sim_drain_messages i bus)) i)"
  using assms by (simp_all add: sim_drain_beacons_def sim_drain_messages_def take_beacons_def take_messages_def upd_port_def set_world_def)

end
