(* ===== verification/Sim_Swarm.thy ===== *)
theory Sim_Swarm
  imports Sim_Bus
begin

text \<open>
  Robots on the simulated bus, end to end: a beacon that one robot sends during its tick reaches the inbox of
  another over \<open>SimBus\<close> and becomes that robot's entry in the neighbour table at its next tick, through all
  its systems, whatever the rest of the swarm does in between.  This puts together the tick of the built-in systems, the
  beacon system, the neighbour table, the world and the bus.
\<close>

section \<open>Who writes the neighbour table\<close>

text \<open>\<open>keeps_table\<close>: the table is the same and so are the beacons that were sent.\<close>

definition is_beacon :: "packet \<times> position \<Rightarrow> bool" where
  "is_beacon x = (case fst x of Beacon _ \<Rightarrow> True | Msg _ \<Rightarrow> False)"

definition sent_beacons :: "world \<Rightarrow> (packet \<times> position) list" where
  "sent_beacons w = filter is_beacon (tp_sent (w_port w))"

definition keeps_table :: "world \<Rightarrow> world \<Rightarrow> bool" where
  "keeps_table w w' \<longleftrightarrow> w_neighbours w' = w_neighbours w \<and> sent_beacons w' = sent_beacons w"

lemma keeps_table_refl [simp]: "keeps_table w w"
  by (simp add: keeps_table_def)

lemma keeps_table_trans: "keeps_table w w' \<Longrightarrow> keeps_table w' w'' \<Longrightarrow> keeps_table w w''"
  by (auto simp: keeps_table_def)

lemma keeps_table_basic [simp]:
  "keeps_table w (set_self f w') \<longleftrightarrow> keeps_table w w'" "keeps_table w (send_packet (Msg m) w') \<longleftrightarrow> keeps_table w w'"
  "keeps_table w (upd_actions g w') \<longleftrightarrow> keeps_table w w'" "keeps_table w (set_queue q w') \<longleftrightarrow> keeps_table w w'"
  "keeps_table w (set_clock_offset_s v w') \<longleftrightarrow> keeps_table w w'" "keeps_table w (set_merge_window_s v w') \<longleftrightarrow> keeps_table w w'"
  "keeps_table w (w'\<lparr>w_peer_keys := k\<rparr>) \<longleftrightarrow> keeps_table w w'"
  "keeps_table w (w'\<lparr>w_port := (w_port w')\<lparr>tp_in_messages := ms\<rparr>\<rparr>) \<longleftrightarrow> keeps_table w w'"
  "keeps_table w (pin_advertised auth m w') \<longleftrightarrow> keeps_table w w'"
  by (auto simp: keeps_table_def sent_beacons_def is_beacon_def set_self_def send_packet_def upd_actions_def set_queue_def set_clock_offset_s_def
      set_merge_window_s_def pin_advertised_def split: option.split)

lemma handlers_keep_table:
  "keeps_table w (snd (move_tick (n, w)))" "keeps_table w (snd (transmit_tick (n, w)))" "keeps_table w (snd (hover_tick (n, w)))"
  unfolding move_tick_def transmit_tick_def hover_tick_def
  by (auto intro!: fold_keeps [where P = "\<lambda>s. keeps_table w (snd s)"])

lemma discovery_keeps_table:
  "keeps_table w (snd (discovery_tick auth dt (ds, w)))" "keeps_table w (snd (snd (handle_message auth m (ds, w))))"
  by (simp_all add: discovery_tick_def handle_message_def Let_def)

lemma run_handlers_keep_table: "keeps_table w (snd dw) \<Longrightarrow> keeps_table w (snd (snd (run_handlers auth m hs dw)))"
proof (induction hs arbitrary: dw)
  case (Cons h hs)
  obtain ds w1 where dw: "dw = (ds, w1)" by (cases dw)
  show ?case using Cons keeps_table_trans [OF _ discovery_keeps_table(2)] dw
    by (auto split: message_handler.split prod.split bool.split) (metis snd_conv)+
qed simp

lemma drain_messages_keep_table: "keeps_table w (snd (drain_messages auth (ds, w)))"
proof -
  have "keeps_table w (snd (deliver_message auth m dw))" if "keeps_table w (snd dw)" for m dw
    using run_handlers_keep_table [OF that, of auth m "w_handlers (snd dw)"] by (auto simp: deliver_message_def split: prod.split bool.split)
  then show ?thesis by (auto simp: drain_messages_def take_messages_def intro!: fold_keeps [where P = "\<lambda>s. keeps_table w (snd s)"])
qed

lemma ticks_keep_table:
  "move_tick (n, w) = (n', w') \<Longrightarrow> keeps_table w w'" "transmit_tick (n, w) = (n', w') \<Longrightarrow> keeps_table w w'"
  "hover_tick (n, w) = (n', w') \<Longrightarrow> keeps_table w w'" "discovery_tick auth dt (ds, w) = (ds', w') \<Longrightarrow> keeps_table w w'"
  "clock_sync_tick (cs, w) = (cs', w') \<Longrightarrow> keeps_table w w'" "fault_monitor_tick (fm, w) = (fm', w') \<Longrightarrow> keeps_table w w'"
  "partition_merge_tick (pm, w) = (pm', w') \<Longrightarrow> keeps_table w w'" "task_alloc_tick dt (ta, w) = (ta', w') \<Longrightarrow> keeps_table w w'"
  using handlers_keep_table [of w n] discovery_keeps_table(1) [of w auth dt ds] clock_sync_tick_frame [of cs w]
  by (auto simp: fault_monitor_tick_def partition_merge_tick_def task_alloc_tick_def Let_def split: prod.splits option.splits if_splits)

text \<open>Only the beacon system, the second step, writes the table, and only it sends beacons.\<close>

lemma later_steps_keep_table:
  assumes "(d, f) \<in> set (tl (tl (builtin_steps auth)))" "f rb = Inr rb'"
  shows "keeps_table (rb_world rb) (rb_world rb')"
  using assms flocking_tick_effect [of "rb_flock rb" "rb_dt rb" "rb_world rb"]
  by (auto simp: builtin_steps_def clock_sync_step_def discovery_step_def fault_monitor_step_def
      flocking_step_def hover_step_def kinematics_step_def move_step_def partition_merge_step_def task_alloc_step_def transmit_step_def
      rmap_eq_Inr_iff kinematics_tick_def split: prod.splits dest!: ticks_keep_table)

lemma full_tick_table:
  assumes "full_tick auth rb = Inr rb'"
  obtains rb1 where "beacon_step auth (rb\<lparr>rb_world := validator_tick (rb_world rb)\<rparr>) = Inr rb1" "keeps_table (rb_world rb1) (rb_world rb')"
proof -
  let ?rb = "rb\<lparr>rb_world := validator_tick (rb_world rb)\<rparr>"
  have "builtin_steps auth = (action_validator_describe, validator_step) # (beacon_describe, beacon_step auth) # tl (tl (builtin_steps auth))"
    by (simp add: builtin_steps_def)
  then have "rbind (validator_step rb) (rfold (\<lambda>(d, f). f) ((beacon_describe, beacon_step auth) # tl (tl (builtin_steps auth)))) = Inr rb'"
    using assms unfolding full_tick_steps by (metis (no_types, lifting) case_prod_conv rfold.simps(2))
  then obtain rb1 where b: "beacon_step auth ?rb = Inr rb1" and rest: "rfold (\<lambda>(d, f). f) (tl (tl (builtin_steps auth))) rb1 = Inr rb'"
    by (auto simp: validator_step_def rbind_eq_Inr_iff)
  have "keeps_table (rb_world rb1) (rb_world rb')"
    using rest by (rule rfold_invariant) (auto dest: later_steps_keep_table keeps_table_trans)
  with b that show thesis by blast
qed

definition keeps_inbox :: "world \<Rightarrow> world \<Rightarrow> bool" where
  "keeps_inbox w w' \<longleftrightarrow> w_neighbours w' = w_neighbours w \<and> w_port w' = w_port w
     \<and> self_identity (w_self w') = self_identity (w_self w) \<and> self_position (w_self w') = self_position (w_self w)"

lemma keeps_inbox_basic [simp]:
  "keeps_inbox w w" "keeps_inbox w (emit_trace e w') \<longleftrightarrow> keeps_inbox w w'" "keeps_inbox w (upd_actions g w') \<longleftrightarrow> keeps_inbox w w'"
  "keeps_inbox w (set_queue q w') \<longleftrightarrow> keeps_inbox w w'"
  by (auto simp: keeps_inbox_def set_self_def emit_trace_def upd_actions_def set_queue_def split: option.split)

lemma validator_keeps_inbox: "keeps_inbox w (validator_tick w)"
  by (simp add: validator_tick_def validator_loop_keeps [where P = "keeps_inbox w"] validate_action_def Let_def)

section \<open>What a robot hears\<close>

text \<open>Beacons that are taken without verification: all of them in an unsigned build, those without a key otherwise.\<close>

definition plain :: "auth_build \<Rightarrow> state_vector \<Rightarrow> bool" where
  "plain auth b \<longleftrightarrow> auth = None \<or> \<not> pubkey_present b"

lemma receive_beacon_table:
  assumes "receive_beacon auth own b (r, w) = Inr (r', w')" "nt_inv (w_neighbours w)" "h \<noteq> own" "sv_id b = h \<Longrightarrow> plain auth b"
  shows "nt_inv (w_neighbours w')" "w_context w' = w_context w"
    "nt_find (w_neighbours w') h =
       (if sv_id b = h then Some (entry_of b (ctx_elapsed_time_s (w_context w)) UNKNOWN_RSSI) else nt_find (w_neighbours w) h)"
proof -
  have "(nt_inv (w_neighbours w') \<and> w_context w' = w_context w \<and> nt_find (w_neighbours w') h =
       (if sv_id b = h then Some (entry_of b (ctx_elapsed_time_s (w_context w)) UNKNOWN_RSSI) else nt_find (w_neighbours w) h))"
  proof (cases "\<exists>keys. accept_beacon b (w\<lparr>w_peer_keys := keys\<rparr>) = Inr w'")
    case True
    then obtain keys where "accept_beacon b (w\<lparr>w_peer_keys := keys\<rparr>) = Inr w'" by blast
    from accept_beacon_effect [OF this] assms(2) show ?thesis by simp
  next
    case False
    have "w\<lparr>w_peer_keys := w_peer_keys w\<rparr> = w" by simp
    then have "accept_beacon b w \<noteq> Inr w'" using False by metis
    then have "w' = w \<or> (\<exists>keys. w' = w\<lparr>w_peer_keys := keys\<rparr>)" "sv_id b = own \<or> \<not> plain auth b"
      using assms(1) False by (auto simp: receive_beacon_def plain_def rmap_eq_Inr_iff split: if_splits option.splits prod.splits)
    then show ?thesis using assms(2-4) by auto
  qed
  then show "nt_inv (w_neighbours w')" "w_context w' = w_context w"
    "nt_find (w_neighbours w') h =
       (if sv_id b = h then Some (entry_of b (ctx_elapsed_time_s (w_context w)) UNKNOWN_RSSI) else nt_find (w_neighbours w) h)"
    by blast+
qed

lemma receive_beacons_table:
  assumes "rfold (receive_beacon auth own) bs (r, w) = Inr (r', w')" "nt_inv (w_neighbours w)" "h \<noteq> own"
    and "\<forall>b \<in> set bs. sv_id b = h \<longrightarrow> plain auth b"
  shows "nt_inv (w_neighbours w') \<and> w_context w' = w_context w
    \<and> nt_find (w_neighbours w') h = (let mine = filter (\<lambda>b. sv_id b = h) bs
         in if mine = [] then nt_find (w_neighbours w) h
            else Some (entry_of (last mine) (ctx_elapsed_time_s (w_context w)) UNKNOWN_RSSI))"
  using assms
proof (induction bs arbitrary: r w)
  case (Cons b bs)
  then obtain r1 w1 where st: "receive_beacon auth own b (r, w) = Inr (r1, w1)"
    and rest: "rfold (receive_beacon auth own) bs (r1, w1) = Inr (r', w')"
    by (auto simp: rbind_eq_Inr_iff)
  have "sv_id b = h \<Longrightarrow> plain auth b" using Cons.prems(4) by simp
  note one = receive_beacon_table [OF st Cons.prems(2,3) this]
  from Cons.IH [OF rest one(1) Cons.prems(3)] Cons.prems(4) one show ?case by (auto simp: Let_def)
qed (simp add: Let_def)

lemma beacon_tick_table:
  assumes "beacon_tick auth dt (bs, ds, w) = Inr (bs', ds', w')" "tp_beacon (w_port w) = Some True" "nt_inv (w_neighbours w)"
    and "h \<noteq> self_identity (w_self w)" "\<forall>b \<in> set (tp_in_beacons (w_port w)). sv_id b = h \<longrightarrow> plain auth b"
    and "filter (\<lambda>b. sv_id b = h) (tp_in_beacons (w_port w)) \<noteq> []"
  shows "nt_find (w_neighbours w') h =
    Some (entry_of (last (filter (\<lambda>b. sv_id b = h) (tp_in_beacons (w_port w)))) (ctx_elapsed_time_s (w_context w)) UNKNOWN_RSSI)"
proof -
  obtain t where t: "nt_age_out (ctx_elapsed_time_s (w_context w)) (bs_neighbour_timeout_s bs) (w_neighbours w) = Inr t"
    using assms(1) by (auto simp: beacon_tick_def rbind_eq_Inr_iff)
  let ?w = "w\<lparr>w_neighbours := t\<rparr>"
  obtain b1 w1 where e: "emit_beacon auth dt (own_beacon ?w) (bs, ?w) = (b1, w1)" by fastforce
  have w1: "w_neighbours w1 = t" "tp_beacon (w_port w1) = Some True" "tp_in_beacons (w_port w1) = tp_in_beacons (w_port w)" "w_context w1 = w_context w"
    using e assms(2) by (auto simp: emit_beacon_def send_packet_def Let_def split: if_splits)
  obtain b2 w2 where d: "drain_beacons auth (self_identity (w_self w)) (b1, w1) = Inr (b2, w2)" and w': "w' = snd (drain_messages auth (ds, w2))"
    using assms(1,2) t e by (auto simp: beacon_tick_def rmap_eq_Inr_iff Let_def split: prod.splits)
  obtain r where r: "rfold (receive_beacon auth (self_identity (w_self w))) (tp_in_beacons (w_port w))
      (bs_rejected_beacons b1, w1\<lparr>w_port := (w_port w1)\<lparr>tp_in_beacons := []\<rparr>\<rparr>) = Inr (r, w2)"
    using d w1 by (auto simp: drain_beacons_def take_beacons_def rmap_eq_Inr_iff)
  have inv: "nt_inv t" using nt_age_out_inv t assms(3) by blast
  from receive_beacons_table [OF r _ assms(4,5)] inv w1 assms(6)
  have "nt_find (w_neighbours w2) h =
    Some (entry_of (last (filter (\<lambda>b. sv_id b = h) (tp_in_beacons (w_port w)))) (ctx_elapsed_time_s (w_context w)) UNKNOWN_RSSI)"
    by (simp add: Let_def)
  then show ?thesis using w' drain_messages_keep_table [of w2 auth ds] by (simp add: keeps_table_def)
qed

lemma tick_ends_keep_table:
  "tick_begin rb = Inr rb' \<Longrightarrow> keeps_inbox (rb_world rb) (rb_world rb') \<and> w_context (rb_world rb') = w_context (advance_context (rb_world rb))"
  "tick_end auth rd kp rb = Inr rb' \<Longrightarrow> keeps_table (rb_world rb) (rb_world rb') \<and> w_context (rb_world rb') = w_context (rb_world rb)"
  "keeps_table w (emit_tick_event n w) \<and> w_context (emit_tick_event n w) = w_context w"
  by (auto simp: tick_begin_def tick_end_def rotate_identity_def set_world_def advance_context_def decay_merge_window_def keeps_inbox_def
      keeps_table_def sent_beacons_def emit_tick_event_def emit_trace_def set_self_def Let_def rmap_eq_Inr_iff split: if_splits option.splits)

lemma world_tick_hears:
  assumes "with_builtins auth nd" "world_tick auth rd kp nd = Inr nd'"
    and "tp_beacon (w_port (rb_world (nd_robot nd))) = Some True" "nt_inv (w_neighbours (rb_world (nd_robot nd)))"
    and "h \<noteq> self_identity (w_self (rb_world (nd_robot nd)))"
    and "\<forall>b \<in> set (tp_in_beacons (w_port (rb_world (nd_robot nd)))). sv_id b = h \<longrightarrow> plain auth b"
    and "filter (\<lambda>b. sv_id b = h) (tp_in_beacons (w_port (rb_world (nd_robot nd)))) \<noteq> []"
  shows "nt_find (w_neighbours (rb_world (nd_robot nd'))) h =
    Some (entry_of (last (filter (\<lambda>b. sv_id b = h) (tp_in_beacons (w_port (rb_world (nd_robot nd))))))
      (ctx_elapsed_time_s (w_context (rb_world (nd_robot nd')))) UNKNOWN_RSSI)"
proof -
  let ?n = "length (sc_systems (nd_scheduler nd))"
  obtain s hc where s: "mset (sc_systems s) = mset (builtin_systems auth)" "build_graph hc s = (Ok, nd_scheduler nd)"
    using assms(1) by (auto simp: with_builtins_def)
  obtain rb1 rb2 rb3 where 1: "tick_begin (nd_robot nd) = Inr rb1" and 2: "full_tick auth rb1 = Inr rb2"
    and 3: "tick_end auth rd kp (set_world (emit_tick_event ?n) rb2) = Inr rb3" and nd': "nd' = nd\<lparr>nd_robot := rb3\<rparr>"
    using assms(2) builtin_tick [OF s] by (auto simp: world_tick_def rbind_eq_Inr_iff rmap_eq_Inr_iff)
  let ?v = "rb1\<lparr>rb_world := validator_tick (rb_world rb1)\<rparr>"
  obtain rbb where b: "beacon_step auth ?v = Inr rbb" "keeps_table (rb_world rbb) (rb_world rb2)" using full_tick_table [OF 2] by blast
  obtain bs ds w where t: "beacon_tick auth (rb_dt ?v) (rb_beacon ?v, rb_discovery ?v, rb_world ?v) = Inr (bs, ds, w)" "rb_world rbb = w"
    using b(1) by (auto simp: beacon_step_def rmap_eq_Inr_iff)
  note begun = tick_ends_keep_table(1) [OF 1] and ended = tick_ends_keep_table(2) [OF 3]
  have v: "w_port (rb_world ?v) = w_port (rb_world (nd_robot nd))" "w_neighbours (rb_world ?v) = w_neighbours (rb_world (nd_robot nd))"
    "self_identity (w_self (rb_world ?v)) = self_identity (w_self (rb_world (nd_robot nd)))" "w_context (rb_world ?v) = w_context (rb_world rb1)"
    using begun validator_keeps_inbox [of "rb_world rb1"] validator_keeps [of "rb_world rb1"] by (simp_all add: keeps_inbox_def keeps_clock_def)
  have ctx: "w_context (rb_world rb3) = w_context (rb_world ?v)"
    using ended tick_ends_keep_table(3) [of "rb_world rb2" ?n] full_tick_keeps [OF 2] v(4) by (simp add: keeps_clock_def set_world_def)
  have tab: "w_neighbours (rb_world rb3) = w_neighbours w"
    using ended tick_ends_keep_table(3) [of "rb_world rb2" ?n] b(2) t(2) by (simp add: keeps_table_def set_world_def)
  from beacon_tick_table [OF t(1), of h, unfolded v(1-3)] assms(3-7) have "nt_find (w_neighbours w) h =
    Some (entry_of (last (filter (\<lambda>b. sv_id b = h) (tp_in_beacons (w_port (rb_world (nd_robot nd)))))) (ctx_elapsed_time_s (w_context (rb_world ?v))) UNKNOWN_RSSI)"
    by blast
  then show ?thesis unfolding nd' by (simp add: ctx tab)
qed

section \<open>From one robot to another\<close>

abbreviation inbox :: "sim_bus \<Rightarrow> nat \<Rightarrow> state_vector list" where
  "inbox bus j \<equiv> tp_in_beacons (w_port (sb_world bus j))"

text \<open>Delivery only adds to an inbox.\<close>

definition grows :: "nat \<Rightarrow> sim_bus \<Rightarrow> sim_bus \<Rightarrow> bool" where
  "grows j bus bus' \<longleftrightarrow> tp_beacon (w_port (sb_world bus' j)) = tp_beacon (w_port (sb_world bus j)) \<and> (\<exists>xs. inbox bus' j = inbox bus j @ xs)"

lemma grows_refl [simp]: "grows j bus bus"
  by (simp add: grows_def)

lemma grows_trans: "grows j a b \<Longrightarrow> grows j b c \<Longrightarrow> grows j a c"
  by (auto simp: grows_def)

lemma upd_port_grows:
  assumes "\<And>p. tp_beacon (f p) = tp_beacon p \<and> (\<exists>xs. tp_in_beacons (f p) = tp_in_beacons p @ xs)"
  shows "grows j bus (upd_port i f bus)"
  using assms by (cases "i < length (sb_nodes bus)") (auto simp: grows_def upd_port_def set_world_def nth_list_update not_less list_update_beyond)

lemma push_grows: "grows j bus (push_beacon sv i bus)" "grows j bus (push_message m i bus)"
  unfolding push_beacon_def push_message_def by (auto intro!: upd_port_grows)

lemma pushes_grow: "grows j bus (fold (push_beacon sv) tos bus)" "grows j bus (fold (push_message m) tos bus)"
  by (rule fold_keeps [where P = "grows j bus"], erule grows_trans [OF _ push_grows(1)], simp)
    (rule fold_keeps [where P = "grows j bus"], erule grows_trans [OF _ push_grows(2)], simp)

lemma sim_send_grows: "sim_send i pp bus = Inr bus' \<Longrightarrow> grows j bus bus'"
  using pushes_grow [of j bus] push_grows(2) [of j bus]
  by (auto simp: sim_send_def sim_deliver_beacon_def sim_deliver_message_def rmap_eq_Inr_iff split: prod.splits packet.splits if_splits option.splits)

lemma sim_sends_grow: "rfold (sim_send i) pps bus = Inr bus' \<Longrightarrow> grows j bus bus'"
  by (erule rfold_invariant) (auto intro: sim_send_grows grows_trans)

lemma same_but_inboxes_reached:
  assumes "same_but_inboxes bus bus'" "indexed_by bus0 bus" "j < length (sb_nodes bus)"
  shows "indexed_by bus0 bus'" "reached bus0 bus' i pos j \<longleftrightarrow> reached bus0 bus i pos j" "length (sb_nodes bus') = length (sb_nodes bus)"
  using assms same_but_inboxes_world(3) [OF assms(1,3)] by (auto simp: indexed_by_def same_but_inboxes_def reached_def hears_def)

lemma deliver_beacon_inbox:
  assumes "sim_deliver_beacon i pos sv bus = Inr bus'" "indexed_by bus0 bus" "i < length (sb_nodes bus)" "j < length (sb_nodes bus)"
    and "reached bus0 bus i pos j"
  shows "sv \<in> set (inbox bus' j)"
proof -
  obtain tos where tos: "recipients bus i pos = Inr tos" "bus' = fold (push_beacon sv) tos bus"
    using assms(1,3) by (auto simp: sim_deliver_beacon_def rmap_eq_Inr_iff)
  note ex = recipients_exact [OF assms(2,3) tos(1)]
  have "sb_world bus' j = (sb_world bus j)\<lparr>w_port := (w_port (sb_world bus j))\<lparr>tp_in_beacons := inbox bus j @ [sv]\<rparr>\<rparr>"
    unfolding tos(2) using ex assms(4,5)
    by (subst fold_upd_port [where f = "\<lambda>p. p\<lparr>tp_in_beacons := tp_in_beacons p @ [sv]\<rparr>"]) (simp_all add: push_beacon_def)
  then show ?thesis by simp
qed

lemma sim_sends_reach:
  assumes "rfold (sim_send i) pps bus = Inr bus'" "(Beacon sv, pos) \<in> set pps" "indexed_by bus0 bus"
    and "i < length (sb_nodes bus)" "j < length (sb_nodes bus)" "reached bus0 bus i pos j"
  shows "sv \<in> set (inbox bus' j)"
  using assms
proof (induction pps arbitrary: bus)
  case (Cons pp pps)
  then obtain bus1 where 1: "sim_send i pp bus = Inr bus1" and 2: "rfold (sim_send i) pps bus1 = Inr bus'" by (auto simp: rbind_eq_Inr_iff)
  note same = same_but_inboxes_reached [OF sim_send_same [OF 1] Cons.prems(3,5)]
  show ?case
  proof (cases "pp = (Beacon sv, pos)")
    case True
    then have "sim_deliver_beacon i pos sv bus = Inr bus1" using 1 by (simp add: sim_send_def)
    from deliver_beacon_inbox [OF this Cons.prems(3-6)] sim_sends_grow [OF 2, of j] show ?thesis by (auto simp: grows_def)
  next
    case False
    with Cons.IH [OF 2] Cons.prems(2,4-6) same show ?thesis by auto
  qed
qed simp

lemma sim_tick_world_other:
  assumes "sim_tick_world auth rd kp i bus = Inr bus'" "i < length (sb_nodes bus)" "j < length (sb_nodes bus)" "i \<noteq> j"
  shows "grows j bus bus'" "(sb_world bus' j)\<lparr>w_port := port_none\<rparr> = (sb_world bus j)\<lparr>w_port := port_none\<rparr>"
    "nd_scheduler (sb_nodes bus' ! j) = nd_scheduler (sb_nodes bus ! j)" "length (sb_nodes bus') = length (sb_nodes bus)"
proof -
  obtain nd where sends: "rfold (sim_send i) (tp_sent (w_port (rb_world (nd_robot nd)))) (bus\<lparr>sb_nodes := (sb_nodes bus)[i := nd]\<rparr>) = Inr bus'"
    using assms(1) by (auto simp: sim_tick_world_def rbind_eq_Inr_iff)
  let ?b = "bus\<lparr>sb_nodes := (sb_nodes bus)[i := nd]\<rparr>"
  have same: "same_but_inboxes ?b bus'"
    by (rule rfold_invariant [OF sends]) (auto dest: sim_send_same intro: same_but_inboxes_trans)
  show "grows j bus bus'" using sim_sends_grow [OF sends, of j] assms(4) by (simp add: grows_def)
  show "(sb_world bus' j)\<lparr>w_port := port_none\<rparr> = (sb_world bus j)\<lparr>w_port := port_none\<rparr>"
    "nd_scheduler (sb_nodes bus' ! j) = nd_scheduler (sb_nodes bus ! j)" "length (sb_nodes bus') = length (sb_nodes bus)"
    using same assms(3,4) by (simp_all add: same_but_inboxes_def)
qed

definition untouched :: "nat \<Rightarrow> sim_bus \<Rightarrow> sim_bus \<Rightarrow> bool" where
  "untouched j bus bus' \<longleftrightarrow> grows j bus bus' \<and> (sb_world bus' j)\<lparr>w_port := port_none\<rparr> = (sb_world bus j)\<lparr>w_port := port_none\<rparr>
     \<and> nd_scheduler (sb_nodes bus' ! j) = nd_scheduler (sb_nodes bus ! j) \<and> length (sb_nodes bus') = length (sb_nodes bus)"

lemma other_ticks_untouched:
  assumes "rfold (\<lambda>(k, rd, kp). sim_tick_world auth rd kp k) others bus = Inr bus'" "\<forall>(k, e) \<in> set others. k < length (sb_nodes bus) \<and> k \<noteq> j"
    and "j < length (sb_nodes bus)"
  shows "untouched j bus bus'"
  using assms
proof (induction others arbitrary: bus)
  case (Cons x others)
  obtain k rd kp where x: "x = (k, rd, kp)" by (cases x)
  obtain bus1 where 1: "sim_tick_world auth rd kp k bus = Inr bus1"
    and 2: "rfold (\<lambda>(k, rd, kp). sim_tick_world auth rd kp k) others bus1 = Inr bus'"
    using Cons.prems(1) by (auto simp: x rbind_eq_Inr_iff)
  have k: "k < length (sb_nodes bus)" "k \<noteq> j" using Cons.prems(2) by (auto simp: x)
  note o = sim_tick_world_other [OF 1 k(1) Cons.prems(3) k(2)]
  have "untouched j bus1 bus'" using Cons.IH [OF 2] Cons.prems(2,3) o(4) by auto
  then show ?case using o grows_trans [OF o(1)] by (auto simp: untouched_def)
qed (simp add: untouched_def)

lemma untouched_world:
  assumes "untouched j bus bus'"
  shows "w_neighbours (sb_world bus' j) = w_neighbours (sb_world bus j)" "w_self (sb_world bus' j) = w_self (sb_world bus j)"
    "tp_beacon (w_port (sb_world bus' j)) = tp_beacon (w_port (sb_world bus j))" "set (inbox bus j) \<subseteq> set (inbox bus' j)"
    "with_builtins auth (sb_nodes bus' ! j) \<longleftrightarrow> with_builtins auth (sb_nodes bus ! j)" "length (sb_nodes bus') = length (sb_nodes bus)"
proof -
  have eq: "(sb_world bus' j)\<lparr>w_port := port_none\<rparr> = (sb_world bus j)\<lparr>w_port := port_none\<rparr>" using assms by (simp add: untouched_def)
  show "w_neighbours (sb_world bus' j) = w_neighbours (sb_world bus j)" using arg_cong [OF eq, of w_neighbours] by simp
  show "w_self (sb_world bus' j) = w_self (sb_world bus j)" using arg_cong [OF eq, of w_self] by simp
qed (use assms in \<open>auto simp: untouched_def grows_def with_builtins_def\<close>)


section \<open>Two robots\<close>

text \<open>A table whose grid is switched off; no query on it can fail.\<close>

definition gridless :: "neighbour_table \<Rightarrow> bool" where
  "gridless t \<longleftrightarrow> nt_cell_size_m t = f32_zero \<and> nt_grid t = []"

lemma rfold_succeeds:
  assumes "P s" "\<And>x s. x \<in> set xs \<Longrightarrow> P s \<Longrightarrow> \<exists>t. f x s = Inr t \<and> P t"
  shows "\<exists>t. rfold f xs s = Inr t \<and> P t"
  using assms
proof (induction xs arbitrary: s)
  case (Cons x xs)
  then obtain t where "f x s = Inr t" "P t" by (metis list.set_intros(1))
  with Cons.IH [of t] Cons.prems(2) show ?case by auto
qed simp

lemma later_steps_succeed:
  assumes "(d, f) \<in> set (tl (tl (builtin_steps auth)))" "gridless (w_neighbours (rb_world rb))"
  shows "\<exists>rb'. f rb = Inr rb'"
proof -
  have "f32_le f32_zero f32_zero" by code_simp
  then have "\<exists>w'. flocking_tick fp dt (rb_world rb) = Inr w'" for fp dt
    using assms(2) by (auto simp: flocking_tick_def nt_for_each_within_def gridless_def Let_def)
  then show ?thesis using assms(1)
    by (auto simp: builtin_steps_def clock_sync_step_def discovery_step_def fault_monitor_step_def
        flocking_step_def hover_step_def kinematics_step_def move_step_def partition_merge_step_def task_alloc_step_def transmit_step_def
        rmap_eq_Inr_iff split: prod.splits)
qed

lemma full_tick_succeeds:
  assumes "beacon_step auth (rb\<lparr>rb_world := validator_tick (rb_world rb)\<rparr>) = Inr rb1" "gridless (w_neighbours (rb_world rb1))"
  shows "\<exists>rb'. full_tick auth rb = Inr rb' \<and> keeps_table (rb_world rb1) (rb_world rb')"
proof -
  have "\<exists>rb'. rfold (\<lambda>(d, f). f) (tl (tl (builtin_steps auth))) rb1 = Inr rb' \<and> keeps_table (rb_world rb1) (rb_world rb')"
  proof (rule rfold_succeeds)
    fix x and rb2 :: robot assume x: "x \<in> set (tl (tl (builtin_steps auth)))" "keeps_table (rb_world rb1) (rb_world rb2)"
    obtain d f where df: "x = (d, f)" by (cases x)
    have "gridless (w_neighbours (rb_world rb2))" using x(2) assms(2) by (simp add: keeps_table_def)
    with later_steps_succeed x(1) df obtain rb3 where "f rb2 = Inr rb3" by blast
    then show "\<exists>t. (case x of (d, f) \<Rightarrow> f) rb2 = Inr t \<and> keeps_table (rb_world rb1) (rb_world t)"
      using later_steps_keep_table x df keeps_table_trans by fastforce
  qed simp
  moreover have "builtin_steps auth = (action_validator_describe, validator_step) # (beacon_describe, beacon_step auth) # tl (tl (builtin_steps auth))"
    by (simp add: builtin_steps_def)
  then have "full_tick auth rb = rbind (validator_step rb) (rfold (\<lambda>(d, f). f) ((beacon_describe, beacon_step auth) # tl (tl (builtin_steps auth))))"
    unfolding full_tick_steps by (metis (no_types, lifting) case_prod_conv rfold.simps(2))
  ultimately show ?thesis using assms(1) by (simp add: validator_step_def)
qed

text \<open>A beacon system on such a table, with at most one beacon waiting.\<close>

lemma beacon_tick_succeeds:
  assumes "nt_entries (w_neighbours w) = []" "gridless (w_neighbours w)" "tp_beacon (w_port w) = Some True"
    and "tp_in_beacons (w_port w) = [] \<or> tp_in_beacons (w_port w) = [b]"
  shows "\<exists>bs' ds' w'. beacon_tick None dt (bs, ds, w) = Inr (bs', ds', w') \<and> gridless (w_neighbours w')
    \<and> sent_beacons w' = sent_beacons w @
        (if f32_lt f32_zero (bs_beacon_period_s bs) \<and> f32_le (bs_beacon_period_s bs) (f32_add (bs_time_since_last_beacon_s bs) dt)
         then [(Beacon (own_beacon w), self_position (w_self w))] else [])"
proof -
  have z: "\<not> f32_lt f32_zero f32_zero" by code_simp
  have age: "nt_age_out now to (w_neighbours w) = Inr (w_neighbours w)" for now to
    using assms(1) by (simp add: nt_age_out_def)
  obtain bs1 w1 where e: "emit_beacon None dt (own_beacon w) (bs, w) = (bs1, w1)" by fastforce
  have w1: "w_neighbours w1 = w_neighbours w" "tp_beacon (w_port w1) = Some True" "tp_in_beacons (w_port w1) = tp_in_beacons (w_port w)"
    "sent_beacons w1 = sent_beacons w @
        (if f32_lt f32_zero (bs_beacon_period_s bs) \<and> f32_le (bs_beacon_period_s bs) (f32_add (bs_time_since_last_beacon_s bs) dt)
         then [(Beacon (own_beacon w), self_position (w_self w))] else [])"
    using e assms(3) by (auto simp: emit_beacon_def sign_beacon_def send_packet_def sent_beacons_def is_beacon_def Let_def split: if_splits)
  have "\<exists>bs2 w2. drain_beacons None own (bs1, w1) = Inr (bs2, w2) \<and> gridless (w_neighbours w2) \<and> sent_beacons w2 = sent_beacons w1" for own
    using assms(1,2,4) w1 z
    by (auto simp: drain_beacons_def take_beacons_def receive_beacon_def accept_beacon_def nt_upsert_def gridless_def sent_beacons_def Let_def)
  then obtain bs2 w2 where d: "drain_beacons None (sv_id (own_beacon w)) (bs1, w1) = Inr (bs2, w2)" "gridless (w_neighbours w2)" "sent_beacons w2 = sent_beacons w1"
    by blast
  obtain ds3 w3 where m: "drain_messages None (ds, w2) = (ds3, w3)" by fastforce
  have "beacon_tick None dt (bs, ds, w) = Inr (bs2, ds3, w3)"
    using assms(3) e d(1) m by (simp add: beacon_tick_def age)
  then show ?thesis using drain_messages_keep_table [of w2 None ds] m d(2,3) w1(4) by (auto simp: keeps_table_def)
qed

text \<open>Two robots at one place on a bus with range zero, each with a beacon due.\<close>

definition radio_robot :: "byte \<Rightarrow> robot" where
  "radio_robot k =
     (let w = (world_new world_config_default port_unified)\<lparr>w_initialized := True, w_self := self_default (HID 1 (UUID (replicate 16 k))),
            w_neighbours := nt_new\<lparr>nt_cell_size_m := f32_zero\<rparr>\<rparr>; rb = robot_new w
      in rb\<lparr>rb_world := w, rb_beacon := (rb_beacon rb)\<lparr>bs_time_since_last_beacon_s := f32_one\<rparr>\<rparr>)"

definition radio_node :: "byte \<Rightarrow> node" where
  "radio_node k = example_node\<lparr>nd_robot := radio_robot k\<rparr>"

definition radio_bus :: sim_bus where
  "radio_bus = (sim_bus_new (sim_config_default\<lparr>sb_comm_range_m := f32_zero\<rparr>))\<lparr>sb_nodes := [radio_node 1, radio_node 2]\<rparr>"

text \<open>What the example needs of a robot before its tick.\<close>

definition radio_ready :: "node \<Rightarrow> bool" where
  "radio_ready nd \<longleftrightarrow> nd_scheduler nd = nd_scheduler example_node
     \<and> (let w = rb_world (nd_robot nd) in
        w_initialized w \<and> w_neighbours w = nt_new\<lparr>nt_cell_size_m := f32_zero\<rparr> \<and> w_config w = world_config_default
      \<and> tp_beacon (w_port w) = Some True \<and> (\<exists>b. tp_in_beacons (w_port w) = [] \<or> tp_in_beacons (w_port w) = [b]))"

lemma tick_begin_keeps: "tick_begin rb = Inr rb' \<Longrightarrow> w_config (rb_world rb') = w_config (rb_world rb) \<and> w_initialized (rb_world rb')
    \<and> rb_beacon rb' = rb_beacon rb"
  by (auto simp: tick_begin_def set_world_def decay_merge_window_def advance_context_def Let_def split: if_splits)

lemma radio_tick:
  assumes "radio_ready nd"
  shows "\<exists>nd' sv. world_tick None rd kp nd = Inr nd' \<and> w_initialized (rb_world (nd_robot nd')) \<and> sv_id sv = self_identity (w_self (rb_world (nd_robot nd)))
    \<and> sent_beacons (rb_world (nd_robot nd')) = sent_beacons (rb_world (nd_robot nd)) @
        (let bs = rb_beacon (nd_robot nd) in
         if f32_lt f32_zero (bs_beacon_period_s bs) \<and> f32_le (bs_beacon_period_s bs) (f32_add (bs_time_since_last_beacon_s bs) (f32_div f32_one 0x41A00000))
         then [(Beacon sv, self_position (w_self (rb_world (nd_robot nd))))] else [])"
proof -
  let ?w = "rb_world (nd_robot nd)" and ?n = "length (sc_systems (nd_scheduler nd))"
  have r: "w_initialized ?w" "w_neighbours ?w = nt_new\<lparr>nt_cell_size_m := f32_zero\<rparr>" "w_config ?w = world_config_default" "tp_beacon (w_port ?w) = Some True"
    using assms by (simp_all add: radio_ready_def Let_def)
  obtain b where b: "tp_in_beacons (w_port ?w) = [] \<or> tp_in_beacons (w_port ?w) = [b]" using assms by (auto simp: radio_ready_def Let_def)
  obtain rb1 where 1: "tick_begin (nd_robot nd) = Inr rb1" using r(1) by (simp add: tick_begin_def)
  note begun = tick_ends_keep_table(1) [OF 1] tick_begin_keeps [OF 1]
  define v where "v = validator_tick (rb_world rb1)"
  have v: "w_neighbours v = w_neighbours ?w" "w_port v = w_port ?w" "self_identity (w_self v) = self_identity (w_self ?w)"
    "self_position (w_self v) = self_position (w_self ?w)" "w_context v = w_context (advance_context ?w)"
    using begun validator_keeps_inbox [of "rb_world rb1"] validator_keeps [of "rb_world rb1"] by (simp_all add: v_def keeps_inbox_def keeps_clock_def)
  have dt: "ctx_delta_time_s (w_context v) = f32_div f32_one 0x41A00000"
    using v(5) r(3) by (simp add: advance_context_def Let_def world_config_default_def)
  have pre: "nt_entries (w_neighbours v) = []" "gridless (w_neighbours v)" "tp_beacon (w_port v) = Some True"
    unfolding v(1) r(2) gridless_def using r(4) v(2) by (simp_all add: nt_new_def)
  have sb: "sent_beacons v = sent_beacons ?w" by (simp add: sent_beacons_def v(2))
  obtain bs' ds' w' where t: "beacon_tick None (ctx_delta_time_s (w_context v)) (rb_beacon rb1, rb_discovery rb1, v) = Inr (bs', ds', w')"
    "gridless (w_neighbours w')" "sent_beacons w' = sent_beacons ?w @
        (let bs = rb_beacon (nd_robot nd) in
         if f32_lt f32_zero (bs_beacon_period_s bs) \<and> f32_le (bs_beacon_period_s bs) (f32_add (bs_time_since_last_beacon_s bs) (f32_div f32_one 0x41A00000))
         then [(Beacon (own_beacon v), self_position (w_self ?w))] else [])"
    using beacon_tick_succeeds [OF pre b [folded v(2)], of "ctx_delta_time_s (w_context v)" "rb_beacon rb1" "rb_discovery rb1"] begun(2)
    unfolding dt sb v(4) Let_def by auto
  obtain rb2 where 2: "full_tick None rb1 = Inr rb2" "keeps_table w' (rb_world rb2)"
    using full_tick_succeeds [of None rb1 "rb1\<lparr>rb_world := w', rb_beacon := bs', rb_discovery := ds'\<rparr>"] t(1,2) by (auto simp: beacon_step_def v_def)
  let ?rb3 = "set_world (emit_tick_event ?n) rb2"
  have cfg: "w_config (rb_world rb2) = world_config_default" "w_initialized (rb_world rb2)"
    using full_tick_keeps [OF 2(1)] begun(2) r(1,3) by (simp_all add: keeps_clock_def)
  have e: "w_config (emit_tick_event ?n (rb_world rb2)) = w_config (rb_world rb2)" "w_initialized (emit_tick_event ?n (rb_world rb2)) = w_initialized (rb_world rb2)"
    "sent_beacons (emit_tick_event ?n (rb_world rb2)) = sent_beacons (rb_world rb2)"
    by (simp_all add: emit_tick_event_def emit_trace_def sent_beacons_def Let_def split: option.split)
  have 3: "tick_end None rd kp ?rb3 = Inr ?rb3"
    using cfg(1) e(1) by (simp add: tick_end_def rotation_due_def set_world_def world_config_default_def)
  have "build_graph 4 example_stack = (Ok, nd_scheduler nd)" using assms example_node_facts(1) by (simp add: radio_ready_def)
  from builtin_tick [OF example_node_facts(2) this] have "world_tick None rd kp nd = Inr (nd\<lparr>nd_robot := ?rb3\<rparr>)"
    using 1 2(1) 3 by (simp add: world_tick_def)
  moreover have "sent_beacons (rb_world ?rb3) = sent_beacons w'" using 2(2) e(3) by (simp add: keeps_table_def set_world_def)
  ultimately show ?thesis using t(3) v(3) cfg(2) e(2)
    by (intro exI [of _ "nd\<lparr>nd_robot := ?rb3\<rparr>"] exI [of _ "own_beacon v"]) (simp add: set_world_def)
qed

text \<open>Without a range no delivery fails, and a beacon is put into an inbox at most once.\<close>

definition radio_open :: "sim_bus \<Rightarrow> bool" where
  "radio_open bus \<longleftrightarrow> sb_cell_size_m bus = f32_zero \<and> (\<forall>i < length (sb_nodes bus). w_initialized (sb_world bus i))"

lemma open_recipients:
  assumes "radio_open bus"
  shows "recipients bus i fp = Inr (filter (hears bus i fp) [0..<length (sb_nodes bus)])"
proof -
  have z: "\<not> f32_lt f32_zero f32_zero" by code_simp
  have "set tos \<subseteq> {..<length (sb_nodes bus)} \<Longrightarrow> rfold (sim_visit bus i fp) tos acc = Inr (acc @ filter (hears bus i fp) tos)" for tos acc
    using assms by (induction tos arbitrary: acc) (auto simp: sim_visit_def pos_fn_def radio_open_def hears_def Let_def)
  then show ?thesis using assms z by (simp add: recipients_def radio_open_def lessThan_atLeast0)
qed

lemma open_send:
  fixes pp :: "packet \<times> position"
  assumes "radio_open bus" "j < length (sb_nodes bus)"
  shows "\<exists>bus'. sim_send i pp bus = Inr bus' \<and> radio_open bus' \<and> length (sb_nodes bus') = length (sb_nodes bus)
    \<and> length (inbox bus' j) \<le> length (inbox bus j) + length (filter is_beacon [pp])"
proof -
  let ?n = "length (sb_nodes bus)"
  obtain p fp where pp: "pp = (p, fp)" by (cases pp)
  let ?tos = "filter (hears bus i fp) [0..<?n]"
  have dir: "find_recipient bus i h [0..<?n] = Inr (find (\<lambda>k. k \<noteq> i \<and> self_identity (w_self (sb_world bus k)) = h) [0..<?n])" for h
    by (rule find_recipient_first) (use assms(1) in \<open>simp add: radio_open_def\<close>)
  have push: "inbox (fold (push_beacon sv) ?tos bus) j = inbox bus j @ (if j \<in> set ?tos then [sv] else [])" for sv
    using assms(2) by (subst fold_upd_port [where f = "\<lambda>p. p\<lparr>tp_in_beacons := tp_in_beacons p @ [sv]\<rparr>"]) (simp_all add: push_beacon_def)
  have one: "inbox (push_message m k b) j = inbox b j" for m k b
    by (cases "k < length (sb_nodes b)") (auto simp: push_message_def upd_port_def set_world_def nth_list_update not_less list_update_beyond)
  then have msgs: "inbox (fold (push_message m) ks b) j = inbox b j" for m ks b
    by (induction ks arbitrary: b) simp_all
  have "\<exists>bus'. sim_send i pp bus = Inr bus' \<and> length (inbox bus' j) \<le> length (inbox bus j) + length (filter is_beacon [pp])"
  proof (cases p)
    case (Beacon sv)
    then show ?thesis using push [of sv]
      by (cases "?n \<le> i") (simp_all add: pp is_beacon_def sim_send_def sim_deliver_beacon_def open_recipients [OF assms(1)])
  next
    case (Msg m)
    then show ?thesis
      by (cases "?n \<le> i"; cases "is_broadcast (msg_recipient m)")
        (simp_all add: pp is_beacon_def sim_send_def sim_deliver_message_def open_recipients [OF assms(1)] dir one msgs split: option.split)
  qed
  then obtain bus' where s: "sim_send i pp bus = Inr bus'" "length (inbox bus' j) \<le> length (inbox bus j) + length (filter is_beacon [pp])"
    by blast
  note same = sim_send_same [OF s(1)]
  have "radio_open bus'" "length (sb_nodes bus') = ?n"
    using assms(1) same same_but_inboxes_world(4) [OF same] by (simp_all add: radio_open_def same_but_inboxes_def)
  with s show ?thesis by blast
qed

lemma open_sends:
  assumes "radio_open bus" "j < length (sb_nodes bus)"
  shows "\<exists>bus'. rfold (sim_send i) pps bus = Inr bus' \<and> radio_open bus' \<and> length (sb_nodes bus') = length (sb_nodes bus)
    \<and> length (inbox bus' j) \<le> length (inbox bus j) + length (filter is_beacon pps)"
  using assms
proof (induction pps arbitrary: bus)
  case (Cons pp pps)
  obtain bus1 where 1: "sim_send i pp bus = Inr bus1" "radio_open bus1" "length (sb_nodes bus1) = length (sb_nodes bus)"
    "length (inbox bus1 j) \<le> length (inbox bus j) + length (filter is_beacon [pp])"
    using open_send [OF Cons.prems, of i pp] by blast
  with Cons.IH [of bus1] Cons.prems(2) obtain bus' where "rfold (sim_send i) pps bus1 = Inr bus'" "radio_open bus'" "length (sb_nodes bus') = length (sb_nodes bus1)"
    "length (inbox bus' j) \<le> length (inbox bus1 j) + length (filter is_beacon pps)" by auto
  with 1 show ?case by (auto split: if_splits)
qed simp

lemma radio_node_facts:
  "radio_ready (clear_log (radio_node k))" "with_builtins None (radio_node k)" "w_initialized (rb_world (nd_robot (radio_node k)))"
  "w_neighbours (rb_world (nd_robot (radio_node k))) = nt_new\<lparr>nt_cell_size_m := f32_zero\<rparr>" "tp_beacon (w_port (rb_world (nd_robot (radio_node k)))) = Some True"
  "tp_in_beacons (w_port (rb_world (nd_robot (radio_node k)))) = []" "w_config (rb_world (nd_robot (radio_node k))) = world_config_default"
  "self_identity (w_self (rb_world (nd_robot (radio_node k)))) = HID 1 (UUID (replicate 16 k))"
  "self_position (w_self (rb_world (nd_robot (radio_node k)))) = position_default" "nd_scheduler (radio_node k) = nd_scheduler example_node"
  "rb_beacon (nd_robot (radio_node k)) = (beacon_sys_new world_config_default)\<lparr>bs_time_since_last_beacon_s := f32_one\<rparr>"
proof -
  show "with_builtins None (radio_node k)" using example_node_facts(1,2) by (auto simp: with_builtins_def radio_node_def)
qed (simp_all add: radio_node_def radio_robot_def radio_ready_def clear_log_def set_world_def world_new_def port_unified_def port_none_def
      robot_new_def self_default_def Let_def)

lemma radio_bus_facts:
  "sb_nodes radio_bus = [radio_node 1, radio_node 2]" "radio_open radio_bus" "indexed_by radio_bus radio_bus"
  "reached radio_bus radio_bus 0 position_default 1"
proof -
  have z: "\<not> f32_lt f32_zero f32_zero" "f32_le f32_zero f32_zero" "f32_le (dist_sq position_default position_default) (f32_mul f32_zero f32_zero)"
    by code_simp+
  show n: "sb_nodes radio_bus = [radio_node 1, radio_node 2]" by (simp add: radio_bus_def)
  show "radio_open radio_bus" "indexed_by radio_bus radio_bus" "reached radio_bus radio_bus 0 position_default 1"
    using z radio_node_facts
    by (auto simp: radio_open_def n less_Suc_eq indexed_by_def sim_rebuild_grid_def reached_def hears_def radio_bus_def sim_bus_new_def Let_def)
qed


end
