(* ===== verification/Decimal.thy ===== *)
theory Decimal
  imports Float64 Complex_Main
begin

text \<open>
  The numbers \<open>JsonWriter\<close> prints (src/core/json_writer.cpp): \<open>snprintf\<close> with \<open>%llu\<close>, \<open>%lld\<close> and
  \<open>%.17g\<close>.  A printed number is a \<open>numeral\<close>, its sign, digits, fraction and exponent, and its text.
  \<open>numeral_ok\<close> is the number grammar of JSON and \<open>scan_numeral\<close> reads a number back.

  \<open>%.17g\<close> is as the C standard and IEEE-754 have it: the value rounded to seventeen significant
  digits (to nearest, ties to even), in fixed notation when the decimal exponent is in \<open>[-4, 17)\<close> and
  in scientific notation otherwise, with trailing zeros of the fraction removed.
\<close>

section \<open>Digits\<close>

definition digit :: "nat \<Rightarrow> char" where
  "digit d = char_of (48 + d)"

definition is_digit :: "char \<Rightarrow> bool" where
  "is_digit c \<longleftrightarrow> (48 :: nat) \<le> of_char c \<and> (of_char c :: nat) \<le> 57"

definition digit_val :: "char \<Rightarrow> nat" where
  "digit_val c = of_char c - 48"

definition digits_val :: "string \<Rightarrow> nat" where
  "digits_val s = foldl (\<lambda>a c. 10 * a + digit_val c) 0 s"

fun decimal :: "nat \<Rightarrow> string" where
  "decimal n = (if n < 10 then [digit n] else decimal (n div 10) @ [digit (n mod 10)])"

declare decimal.simps [simp del]

text \<open>The lowest \<open>k\<close> digits, with leading zeros.\<close>

fun padded :: "nat \<Rightarrow> nat \<Rightarrow> string" where
  "padded 0 n = []"
| "padded (Suc k) n = padded k (n div 10) @ [digit (n mod 10)]"

lemma of_char_digit: "d < 10 \<Longrightarrow> (of_char (digit d) :: nat) = 48 + d"
  by (simp add: digit_def)

lemma digit_facts [simp]: "d < 10 \<Longrightarrow> is_digit (digit d)" "d < 10 \<Longrightarrow> digit_val (digit d) = d"
  by (simp_all add: is_digit_def digit_val_def of_char_digit)

lemma digit_zero: "d < 10 \<Longrightarrow> digit d = CHR ''0'' \<longleftrightarrow> d = 0"
proof -
  assume d: "d < 10"
  have "digit d = CHR ''0'' \<longleftrightarrow> (of_char (digit d) :: nat) = of_char CHR ''0''" by (metis char_of_char)
  then show ?thesis by (simp add: of_char_digit [OF d])
qed

lemma digits_val_Nil [simp]: "digits_val [] = 0"
  by (simp add: digits_val_def)

lemma digits_val_snoc [simp]: "digits_val (s @ [c]) = 10 * digits_val s + digit_val c"
  by (simp add: digits_val_def)

lemma digits_val_append: "digits_val (s @ t) = digits_val s * 10 ^ length t + digits_val t"
proof (induction t rule: rev_induct)
  case (snoc c t)
  have "digits_val (s @ t @ [c]) = 10 * digits_val (s @ t) + digit_val c"
    by (metis append_assoc digits_val_snoc)
  with snoc show ?case by simp
qed simp

lemma digits_val_zeros: "digits_val (replicate k CHR ''0'') = 0"
proof (induction k)
  case (Suc k)
  have "replicate (Suc k) CHR ''0'' = replicate k CHR ''0'' @ ''0''" by (simp add: replicate_append_same)
  then show ?case unfolding \<open>replicate (Suc k) _ = _\<close> digits_val_snoc by (simp add: Suc.IH digit_val_def)
qed simp

lemma decimal_val [simp]: "digits_val (decimal n) = n"
proof (induction n rule: decimal.induct)
  case (1 n)
  then show ?case by (subst decimal.simps) (auto simp: digits_val_def [of "[_]"] digit_val_def of_char_digit)
qed

lemma decimal_digits [simp]: "list_all is_digit (decimal n)"
proof (induction n rule: decimal.induct)
  case (1 n)
  then show ?case by (subst decimal.simps) auto
qed

lemma decimal_nonempty [simp]: "decimal n \<noteq> []"
  by (subst decimal.simps) simp

lemma decimal_no_leading_zero: "0 < n \<Longrightarrow> hd (decimal n) \<noteq> CHR ''0''"
proof (induction n rule: decimal.induct)
  case (1 n)
  then show ?case by (subst decimal.simps) (auto simp: digit_zero)
qed

lemma decimal_zero: "decimal 0 = ''0''"
  using digit_zero [of 0] by (simp add: decimal.simps [of 0])

lemma decimal_length: "n < 10 ^ k \<Longrightarrow> 0 < k \<Longrightarrow> length (decimal n) \<le> k"
proof (induction n arbitrary: k rule: decimal.induct)
  case (1 n)
  show ?case
  proof (cases "n < 10")
    case True
    with 1(3) show ?thesis by (subst decimal.simps) simp
  next
    case False
    then obtain k' where k: "k = Suc k'" "0 < k'" using 1(2,3) by (cases k; cases "k - 1") auto
    then have "n div 10 < 10 ^ k'" using 1(2) by (simp add: less_mult_imp_div_less mult.commute)
    with 1(1) [OF False this k(2)] False k show ?thesis by (subst decimal.simps) simp
  qed
qed

lemma padded_length [simp]: "length (padded k n) = k"
  by (induction k arbitrary: n) simp_all

lemma padded_digits [simp]: "list_all is_digit (padded k n)"
  by (induction k arbitrary: n) simp_all

lemma padded_val: "n < 10 ^ k \<Longrightarrow> digits_val (padded k n) = n"
proof (induction k arbitrary: n)
  case (Suc k)
  then have "n div 10 < 10 ^ k" by (simp add: less_mult_imp_div_less mult.commute)
  with Suc.IH show ?case by simp
qed simp

lemma padded_hd: "10 ^ k \<le> n \<Longrightarrow> n < 10 ^ Suc k \<Longrightarrow> hd (padded (Suc k) n) \<noteq> CHR ''0''"
proof (induction k arbitrary: n)
  case 0
  then show ?case by (simp add: digit_zero)
next
  case (Suc k)
  then have "10 ^ k \<le> n div 10" "n div 10 < 10 ^ Suc k"
    by (simp_all add: less_mult_imp_div_less mult.commute less_eq_div_iff_mult_less_eq)
  from Suc.IH [OF this] show ?case by (simp add: hd_append split: if_splits)
qed

section \<open>Numerals\<close>

datatype numeral = Numeral (nu_neg: bool) (nu_int: string) (nu_frac: string) (nu_exp: "(bool \<times> string) option")

fun exp_text :: "(bool \<times> string) option \<Rightarrow> string" where
  "exp_text None = []"
| "exp_text (Some (neg, ds)) = CHR ''e'' # (if neg then CHR ''-'' else CHR ''+'') # ds"

fun numeral_text :: "numeral \<Rightarrow> string" where
  "numeral_text (Numeral neg ip fp ex) =
     (if neg then ''-'' else []) @ ip @ (if fp = [] then [] else CHR ''.'' # fp) @ exp_text ex"

fun exp_val :: "(bool \<times> string) option \<Rightarrow> int" where
  "exp_val None = 0"
| "exp_val (Some (neg, ds)) = (if neg then - int (digits_val ds) else int (digits_val ds))"

text \<open>The value a numeral stands for.\<close>

fun numeral_value :: "numeral \<Rightarrow> real" where
  "numeral_value (Numeral neg ip fp ex) =
     (if neg then - 1 else 1) * real (digits_val (ip @ fp)) * 10 powi (exp_val ex - int (length fp))"

text \<open>The grammar of JSON numbers.\<close>

fun exp_ok :: "(bool \<times> string) option \<Rightarrow> bool" where
  "exp_ok None \<longleftrightarrow> True"
| "exp_ok (Some (neg, ds)) \<longleftrightarrow> ds \<noteq> [] \<and> list_all is_digit ds"

fun numeral_ok :: "numeral \<Rightarrow> bool" where
  "numeral_ok (Numeral neg ip fp ex) \<longleftrightarrow>
     ip \<noteq> [] \<and> list_all is_digit ip \<and> (1 < length ip \<longrightarrow> hd ip \<noteq> CHR ''0'') \<and> list_all is_digit fp \<and> exp_ok ex"

text \<open>A reader for the grammar, which returns the numeral and the text after it.  It takes a point only with digits
  after it and an exponent only with a sign and digits.\<close>

fun scan_frac :: "string \<Rightarrow> string \<times> string" where
  "scan_frac (c # s) = (if c = CHR ''.'' \<and> takeWhile is_digit s \<noteq> [] then (takeWhile is_digit s, dropWhile is_digit s) else ([], c # s))"
| "scan_frac [] = ([], [])"

fun scan_exp :: "string \<Rightarrow> (bool \<times> string) option \<times> string" where
  "scan_exp (c # d # s) =
     (if c = CHR ''e'' \<and> (d = CHR ''-'' \<or> d = CHR ''+'') \<and> takeWhile is_digit s \<noteq> [] then (Some (d = CHR ''-'', takeWhile is_digit s), dropWhile is_digit s) else (None, c # d # s))"
| "scan_exp s = (None, s)"

definition scan_numeral :: "string \<Rightarrow> numeral \<times> string" where
  "scan_numeral s =
     (let neg = (take 1 s = ''-''); s1 = (if neg then tl s else s);
          (fp, s2) = scan_frac (dropWhile is_digit s1); (ex, s3) = scan_exp s2
      in (Numeral neg (takeWhile is_digit s1) fp ex, s3))"

text \<open>Text that does not continue a number.\<close>

definition num_end :: "string \<Rightarrow> bool" where
  "num_end s \<longleftrightarrow> (case s of [] \<Rightarrow> True | c # _ \<Rightarrow> \<not> is_digit c \<and> c \<noteq> CHR ''.'' \<and> c \<noteq> CHR ''e'')"

lemma not_digits [simp]: "\<not> is_digit CHR ''.''" "\<not> is_digit CHR ''e''" "\<not> is_digit CHR ''-''" "\<not> is_digit CHR ''+''"
  by (simp_all add: is_digit_def)

definition digits_end :: "string \<Rightarrow> bool" where
  "digits_end s \<longleftrightarrow> (case s of [] \<Rightarrow> True | c # _ \<Rightarrow> \<not> is_digit c)"

lemma while_digits:
  assumes "list_all is_digit ds" "digits_end rest"
  shows "takeWhile is_digit (ds @ rest) = ds" "dropWhile is_digit (ds @ rest) = rest"
proof -
  have "takeWhile is_digit rest = []" "dropWhile is_digit rest = rest"
    using assms(2) by (cases rest; simp add: digits_end_def)+
  with assms(1) show "takeWhile is_digit (ds @ rest) = ds" "dropWhile is_digit (ds @ rest) = rest"
    by (simp_all add: takeWhile_append2 dropWhile_append2 list_all_iff)
qed

lemma num_end_digits: "num_end s \<Longrightarrow> digits_end s"
  by (simp add: num_end_def digits_end_def split: list.splits)

lemma scan_exp_text:
  assumes "exp_ok ex" "num_end rest"
  shows "scan_exp (exp_text ex @ rest) = (ex, rest)"
proof (cases ex)
  case None
  with assms(2) show ?thesis
    by (cases rest rule: scan_exp.cases) (auto simp: num_end_def)
next
  case (Some nd)
  with assms while_digits [OF _ num_end_digits, of _ rest] show ?thesis by (cases nd) simp
qed

lemma exp_text_end: "num_end rest \<Longrightarrow> digits_end (exp_text ex @ rest)"
  by (cases ex rule: exp_text.cases) (simp add: num_end_digits, simp add: digits_end_def)

lemma scan_frac_text:
  assumes "list_all is_digit fp" "num_end rest" "exp_ok ex"
  shows "scan_frac ((if fp = [] then [] else CHR ''.'' # fp) @ exp_text ex @ rest) = (fp, exp_text ex @ rest)"
proof (cases "fp = []")
  case True
  have "scan_frac (exp_text ex @ rest) = ([], exp_text ex @ rest)"
    using assms(2) by (cases ex rule: exp_text.cases; cases rest) (auto simp: num_end_def)
  with True show ?thesis by simp
next
  case False
  with while_digits [OF assms(1) exp_text_end [OF assms(2)]] show ?thesis by simp
qed

lemma frac_text_end:
  "num_end rest \<Longrightarrow> digits_end ((if fp = [] then [] else CHR ''.'' # fp) @ exp_text ex @ rest)"
  by (simp add: exp_text_end) (simp add: digits_end_def)

lemma scan_numeral_text:
  assumes "numeral_ok n" "num_end rest"
  shows "scan_numeral (numeral_text n @ rest) = (n, rest)"
proof (cases n)
  case (Numeral neg ip fp ex)
  let ?tail = "(if fp = [] then [] else CHR ''.'' # fp) @ exp_text ex @ rest"
  from assms Numeral have ok: "ip \<noteq> []" "list_all is_digit ip" "list_all is_digit fp" "exp_ok ex" by simp_all
  have "hd ip \<noteq> CHR ''-''" using ok(1,2) by (cases ip) auto
  then have sign: "take 1 ((if neg then ''-'' else []) @ ip @ ?tail) = ''-'' \<longleftrightarrow> neg"
    using ok(1) by (cases ip) auto
  show ?thesis
    using sign while_digits [OF ok(2) frac_text_end [OF assms(2)], of fp ex]
      scan_frac_text [OF ok(3) assms(2) ok(4)] scan_exp_text [OF ok(4) assms(2)]
    by (simp add: Numeral scan_numeral_def Let_def)
qed

lemma numeral_text_inj: "numeral_ok m \<Longrightarrow> numeral_ok n \<Longrightarrow> numeral_text m = numeral_text n \<Longrightarrow> m = n"
  using scan_numeral_text [of m "[]"] scan_numeral_text [of n "[]"] by (simp add: num_end_def)

section \<open>Printing\<close>

text \<open>\<open>%llu\<close> and \<open>%lld\<close>.\<close>

definition u64_numeral :: "u64 \<Rightarrow> numeral" where
  "u64_numeral v = Numeral False (decimal (unat v)) [] None"

definition i64_numeral :: "u64 \<Rightarrow> numeral" where
  "i64_numeral v = Numeral (sint v < 0) (decimal (nat \<bar>sint v\<bar>)) [] None"

function ndigits :: "int \<Rightarrow> nat" where
  "ndigits n = (if n \<le> 0 then 0 else Suc (ndigits (n div 10)))"
  by pat_completeness auto
termination
  by (relation "measure nat") auto

declare ndigits.simps [simp del]

definition f64_scale :: int where "f64_scale = 2 ^ 1074"
definition dec_scale :: int where "dec_scale = 10 ^ 324"

text \<open>The seventeen significant digits of \<open>n / 2\<^sup>1\<^sup>0\<^sup>7\<^sup>4\<close>, as an integer, and the decimal exponent of the
  first of them.  The smallest double is above \<open>10\<^sup>-\<^sup>3\<^sup>2\<^sup>4\<close>, so the scaled value has digits to count.\<close>

definition sci17 :: "int \<Rightarrow> int \<times> int" where
  "sci17 n =
     (let L = ndigits (n * dec_scale div f64_scale); num = n * dec_scale * 10 ^ 16; den = f64_scale * 10 ^ (L - 1);
          q = num div den; r = num mod den;
          D = (if den < 2 * r \<or> (2 * r = den \<and> odd q) then q + 1 else q)
      in if D = 10 ^ 17 then (10 ^ 16, int L - 324) else (D, int L - 325))"

definition strip_zeros :: "string \<Rightarrow> string" where
  "strip_zeros f = rev (dropWhile (\<lambda>c. c = CHR ''0'') (rev f))"

definition exp_digits :: "nat \<Rightarrow> string" where
  "exp_digits k = (if k < 10 then CHR ''0'' # decimal k else decimal k)"

text \<open>The layout of \<open>%.17g\<close> for the digits \<open>ds\<close> with exponent \<open>X\<close>.\<close>

definition g_layout :: "bool \<Rightarrow> string \<Rightarrow> int \<Rightarrow> numeral" where
  "g_layout neg ds X =
     (if X < - 4 \<or> 17 \<le> X then
        Numeral neg (take 1 ds) (strip_zeros (drop 1 ds)) (Some (X < 0, exp_digits (nat \<bar>X\<bar>)))
      else if 0 \<le> X then
        Numeral neg (take (nat X + 1) ds) (strip_zeros (drop (nat X + 1) ds)) None
      else
        Numeral neg ''0'' (strip_zeros (replicate (nat (- X - 1)) CHR ''0'' @ ds)) None)"

text \<open>\<open>%.17g\<close> of a finite double.\<close>

definition g17 :: "f64 \<Rightarrow> numeral" where
  "g17 x =
     (if f64_mag x = 0 then Numeral (f64_neg x) ''0'' [] None
      else let (D, X) = sci17 (units64 (f64_mag x)) in g_layout (f64_neg x) (padded 17 (nat D)) X)"

subsection \<open>Integers\<close>

lemma u64_numeral_ok: "numeral_ok (u64_numeral v)"
  using decimal_no_leading_zero [of "unat v"] by (cases "unat v = 0") (auto simp: u64_numeral_def decimal_zero is_digit_def)

lemma i64_numeral_ok: "numeral_ok (i64_numeral v)"
  using decimal_no_leading_zero [of "nat \<bar>sint v\<bar>"] by (cases "sint v = 0") (auto simp: i64_numeral_def decimal_zero is_digit_def)

lemma u64_numeral_value: "numeral_value (u64_numeral v) = real (unat v)"
  by (simp add: u64_numeral_def)

lemma i64_numeral_value: "numeral_value (i64_numeral v) = real_of_int (sint v)"
  by (simp add: i64_numeral_def del: of_int_sint)

subsection \<open>Seventeen digits\<close>

lemma ndigits_bounds: "0 < n \<Longrightarrow> 0 < ndigits n \<and> 10 ^ (ndigits n - 1) \<le> n \<and> n < 10 ^ ndigits n"
proof (induction n rule: ndigits.induct)
  case (1 n)
  show ?case
  proof (cases "n < 10")
    case True
    then have "n div 10 = 0" using 1(2) by simp
    then have "ndigits n = 1" using 1(2) by (simp add: ndigits.simps [of n] ndigits.simps [of 0])
    with True 1(2) show ?thesis by simp
  next
    case False
    then have "0 < n div 10" by simp
    with 1 have IH: "0 < ndigits (n div 10)" "10 ^ (ndigits (n div 10) - 1) \<le> n div 10" "n div 10 < 10 ^ ndigits (n div 10)"
      by auto
    have eq: "ndigits n = Suc (ndigits (n div 10))" using 1(2) by (simp add: ndigits.simps [of n])
    have "10 ^ (ndigits (n div 10) - 1) * 10 \<le> n" using IH(2) by (simp add: int_le_div_iff)
    then have "10 ^ ndigits (n div 10) \<le> n" using IH(1) by (cases "ndigits (n div 10)") simp_all
    moreover have "n < 10 ^ ndigits (n div 10) * 10" using IH(3) by (simp add: int_div_less_iff)
    ultimately show ?thesis unfolding eq by simp
  qed
qed

lemma scales: "0 < f64_scale" "0 < dec_scale" "f64_scale \<le> dec_scale"
  by (simp_all add: f64_scale_def dec_scale_def)

text \<open>The digits before a carry.\<close>

lemma sci17_digits:
  assumes "0 < n"
  obtains L D where "0 < L" "10 ^ 16 \<le> D" "D \<le> 10 ^ 17"
    "2 * \<bar>D * (f64_scale * 10 ^ (L - 1)) - n * dec_scale * 10 ^ 16\<bar> \<le> f64_scale * 10 ^ (L - 1)"
    "f64_scale * 10 ^ (L - 1) \<le> n * dec_scale" "n * dec_scale < f64_scale * 10 ^ L"
    "sci17 n = (if D = 10 ^ 17 then (10 ^ 16, int L - 324) else (D, int L - 325))"
proof -
  define L where "L = ndigits (n * dec_scale div f64_scale)"
  define den num q r where "den = f64_scale * 10 ^ (L - 1)" and "num = n * dec_scale * 10 ^ 16"
    and "q = num div den" and "r = num mod den"
  define D where "D = (if den < 2 * r \<or> (2 * r = den \<and> odd q) then q + 1 else q)"
  have "f64_scale \<le> n * dec_scale" using scales assms by (meson mult_le_cancel_right1 order_trans less_le zless_imp_add1_zle int_one_le_iff_zero_less)
  then have "0 < n * dec_scale div f64_scale" using scales by (simp add: pos_imp_zdiv_pos_iff)
  from ndigits_bounds [OF this] have L: "0 < L" "10 ^ (L - 1) * f64_scale \<le> n * dec_scale" "n * dec_scale < 10 ^ L * f64_scale"
    using scales by (simp_all add: L_def int_le_div_iff int_div_less_iff)
  have den: "0 < den" using scales by (simp add: den_def)
  have lo: "den \<le> n * dec_scale" using L(2) by (simp add: den_def mult.commute)
  have "(10 :: int) ^ L = 10 * 10 ^ (L - 1)" using L(1) by (cases L) simp_all
  then have hi: "n * dec_scale < 10 * den" using L(3) by (simp add: den_def mult.commute mult.left_commute)
  have "10 ^ 16 \<le> q" using lo den by (simp add: q_def int_le_div_iff num_def)
  moreover have "q < 10 ^ 17" using hi den by (simp add: q_def int_div_less_iff num_def mult.commute)
  ultimately have D: "10 ^ 16 \<le> D" "D \<le> 10 ^ 17" by (auto simp: D_def)
  have qr: "num = q * den + r" "0 \<le> r" "r < den" using den by (simp_all add: q_def r_def)
  have err: "2 * \<bar>D * den - num\<bar> \<le> den"
    using qr by (auto simp: D_def algebra_simps)
  have "sci17 n = (if D = 10 ^ 17 then (10 ^ 16, int L - 324) else (D, int L - 325))"
    by (simp only: sci17_def Let_def L_def [symmetric] num_def [symmetric] den_def [symmetric] q_def [symmetric] r_def [symmetric]
        D_def [symmetric])
  with L(1) D err lo L(3) that [of L D] show thesis
    by (simp add: den_def num_def mult.commute)
qed

lemma powi_shift: "0 < L \<Longrightarrow> (10 :: real) powi (int L - 341) * (of_int dec_scale * 10 ^ 16) = 10 ^ (L - 1)"
proof -
  assume "0 < L"
  have "of_int dec_scale * 10 ^ 16 = (10 :: real) powi 340"
    unfolding dec_scale_def of_int_power of_int_numeral power_add [symmetric] by simp
  then have "(10 :: real) powi (int L - 341) * (of_int dec_scale * 10 ^ 16) = 10 powi (int L - 1)"
    by (simp only: power_int_add [symmetric] zero_neq_numeral [symmetric] simp_thms) simp
  also have "int L - 1 = int (L - 1)" using \<open>0 < L\<close> by simp
  finally show ?thesis by (simp only: power_int_of_nat)
qed

text \<open>The seventeen digits are within half of \<open>10\<^sup>-\<^sup>1\<^sup>6\<close> of the value.\<close>

lemma sci17_error:
  assumes "0 < n" "sci17 n = (D, X)"
  shows "10 ^ 16 \<le> D" "D < 10 ^ 17"
    "2 * 10 ^ 16 * \<bar>of_int D * 10 powi (X - 16) - of_int n / of_int f64_scale\<bar> \<le> (of_int n / of_int f64_scale :: real)"
proof -
  obtain L E where L: "0 < L" and E: "10 ^ 16 \<le> E" "E \<le> 10 ^ 17"
    and err: "2 * \<bar>E * (f64_scale * 10 ^ (L - 1)) - n * dec_scale * 10 ^ 16\<bar> \<le> f64_scale * 10 ^ (L - 1)"
    and lo: "f64_scale * 10 ^ (L - 1) \<le> n * dec_scale"
    and res: "sci17 n = (if E = 10 ^ 17 then (10 ^ 16, int L - 324) else (E, int L - 325))"
    using sci17_digits [OF assms(1)] by metis
  show "10 ^ 16 \<le> D" "D < 10 ^ 17" using E res assms(2) by (auto split: if_splits)
  define v x K :: real where "v = of_int E * 10 powi (int L - 341)" and "x = of_int n / of_int f64_scale"
    and "K = of_int f64_scale * (of_int dec_scale * 10 ^ 16)"
  have "(10 :: real) powi (int L - 324 - 16) = 10 powi ((int L - 341) + 1)" by simp
  also have "\<dots> = 10 powi (int L - 341) * 10" by (rule power_int_add_1) simp
  finally have "(10 :: real) powi (int L - 324 - 16) = 10 powi (int L - 341) * 10" .
  then have v: "of_int D * 10 powi (X - 16) = v"
    using res assms(2) by (auto simp: v_def split: if_splits)
  have pos: "0 < K" "(0 :: real) < of_int f64_scale" using scales by (simp_all add: K_def)
  define A B where "A = E * (f64_scale * 10 ^ (L - 1))" and "B = n * dec_scale * 10 ^ 16"
  have Kv: "v * K = of_int A" using powi_shift [OF L] by (simp add: v_def K_def A_def algebra_simps)
  have Kx: "x * K = of_int B" using pos by (simp add: x_def K_def B_def)
  have "2 * \<bar>A - B\<bar> \<le> n * dec_scale" using err lo unfolding A_def B_def by linarith
  from mult_right_mono [OF this, of "10 ^ 16"] have "2 * 10 ^ 16 * \<bar>A - B\<bar> \<le> B"
    unfolding B_def [symmetric] by (simp add: ac_simps)
  then have "real_of_int (2 * 10 ^ 16 * \<bar>A - B\<bar>) \<le> of_int B" by (simp only: of_int_le_iff)
  then have "2 * 10 ^ 16 * \<bar>v * K - x * K\<bar> \<le> x * K" unfolding Kv Kx by simp
  also have "\<bar>v * K - x * K\<bar> = \<bar>v - x\<bar> * K" using pos by (simp add: abs_mult flip: left_diff_distrib)
  finally have "2 * 10 ^ 16 * \<bar>v - x\<bar> \<le> x" using pos by simp
  then show "2 * 10 ^ 16 * \<bar>of_int D * 10 powi (X - 16) - of_int n / of_int f64_scale\<bar> \<le> (of_int n / of_int f64_scale :: real)"
    by (simp add: v x_def)
qed

subsection \<open>Layout\<close>

lemma strip_zeros_split: "\<exists>k. f = strip_zeros f @ replicate k CHR ''0''"
proof -
  have "rev f = takeWhile (\<lambda>c. c = CHR ''0'') (rev f) @ dropWhile (\<lambda>c. c = CHR ''0'') (rev f)" by simp
  moreover have "takeWhile (\<lambda>c. c = CHR ''0'') (rev f) = replicate (length (takeWhile (\<lambda>c. c = CHR ''0'') (rev f))) CHR ''0''"
    by (rule replicate_length_same [symmetric]) (auto dest: set_takeWhileD)
  ultimately obtain k where "rev f = replicate k CHR ''0'' @ dropWhile (\<lambda>c. c = CHR ''0'') (rev f)" by metis
  then have "rev (rev f) = rev (replicate k CHR ''0'' @ dropWhile (\<lambda>c. c = CHR ''0'') (rev f))" by (rule arg_cong)
  then show ?thesis by (auto simp: strip_zeros_def)
qed

lemma strip_zeros_facts: "list_all is_digit f \<Longrightarrow> list_all is_digit (strip_zeros f)" "length (strip_zeros f) \<le> length f"
proof -
  obtain k where k: "f = strip_zeros f @ replicate k CHR ''0''" using strip_zeros_split by blast
  show "length (strip_zeros f) \<le> length f" by (subst (2) k) simp
  show "list_all is_digit f \<Longrightarrow> list_all is_digit (strip_zeros f)" by (subst (asm) k) simp
qed

lemma trailing_zeros_value:
  "numeral_value (Numeral neg ip (t @ replicate k CHR ''0'') ex) = numeral_value (Numeral neg ip t ex)"
proof -
  have "digits_val (ip @ t @ replicate k CHR ''0'') = digits_val (ip @ t) * 10 ^ k"
    using digits_val_append [of "ip @ t" "replicate k CHR ''0''"] by (simp add: digits_val_zeros)
  moreover have "(10 :: real) powi (exp_val ex - int (length t)) = 10 ^ k * 10 powi (exp_val ex - int (length t + k))"
    by (simp add: power_int_diff power_int_add power_int_of_nat)
  ultimately show ?thesis by simp
qed

lemma strip_zeros_value: "numeral_value (Numeral neg ip (strip_zeros fp) ex) = numeral_value (Numeral neg ip fp ex)"
  using trailing_zeros_value [of neg ip "strip_zeros fp" _ ex] strip_zeros_split [of fp] by metis

lemma exp_digits_facts: "list_all is_digit (exp_digits k)" "exp_digits k \<noteq> []" "digits_val (exp_digits k) = k"
proof -
  have "digits_val (CHR ''0'' # decimal k) = k"
    using digits_val_append [of "''0''" "decimal k"] digits_val_zeros [of 1] by simp
  then show "digits_val (exp_digits k) = k" by (simp add: exp_digits_def)
qed (simp_all add: exp_digits_def is_digit_def [of "CHR ''0''"])

lemma g_layout_ok:
  assumes "list_all is_digit ds" "length ds = 17" "hd ds \<noteq> CHR ''0''"
  shows "numeral_ok (g_layout neg ds X)"
proof -
  have parts: "list_all is_digit (take k ds)" "list_all is_digit (strip_zeros (drop k ds))" for k
    using assms(1) strip_zeros_facts(1) [of "drop k ds"] append_take_drop_id [of k ds]
    by (metis list_all_append)+
  have "list_all is_digit (strip_zeros (replicate k CHR ''0'' @ ds))" for k
    by (rule strip_zeros_facts(1)) (use assms(1) in \<open>auto simp: list_all_iff is_digit_def [of "CHR ''0''"]\<close>)
  with parts assms exp_digits_facts show ?thesis
    by (auto simp: g_layout_def hd_take is_digit_def [of "CHR ''0''"])
qed

lemma g_layout_value:
  assumes "length ds = 17"
  shows "numeral_value (g_layout neg ds X) = (if neg then - 1 else 1) * real (digits_val ds) * 10 powi (X - 16)"
proof -
  have sci: "exp_val (Some (X < 0, exp_digits (nat \<bar>X\<bar>))) = X" by (simp add: exp_digits_facts)
  have zeros: "digits_val (''0'' @ replicate k CHR ''0'' @ ds) = digits_val ds" for k
    using digits_val_append [of "''0'' @ replicate k CHR ''0''" ds] digits_val_zeros [of "Suc k"] by simp
  consider "X < - 4 \<or> 17 \<le> X" | "0 \<le> X" "X < 17" | "- 4 \<le> X" "X < 0" by linarith
  then show ?thesis
  proof cases
    case 1
    then have "g_layout neg ds X = Numeral neg (take 1 ds) (strip_zeros (drop 1 ds)) (Some (X < 0, exp_digits (nat \<bar>X\<bar>)))"
      by (simp add: g_layout_def)
    then have "numeral_value (g_layout neg ds X) = numeral_value (Numeral neg (take 1 ds) (drop 1 ds) (Some (X < 0, exp_digits (nat \<bar>X\<bar>))))"
      by (simp only: strip_zeros_value)
    then show ?thesis unfolding numeral_value.simps sci using assms by simp
  next
    case 2
    then have "int (length (drop (nat X + 1) ds)) = 16 - X" using assms by simp
    moreover from 2 have "numeral_value (g_layout neg ds X) = numeral_value (Numeral neg (take (nat X + 1) ds) (drop (nat X + 1) ds) None)"
      by (subst strip_zeros_value [symmetric]) (simp add: g_layout_def)
    ultimately show ?thesis by (simp del: length_drop)
  next
    case 3
    then have "int (length (replicate (nat (- X - 1)) CHR ''0'' @ ds)) = 16 - X" using assms by simp
    moreover from 3 have "numeral_value (g_layout neg ds X) = numeral_value (Numeral neg ''0'' (replicate (nat (- X - 1)) CHR ''0'' @ ds) None)"
      by (subst strip_zeros_value [symmetric]) (simp add: g_layout_def)
    ultimately show ?thesis using zeros [of "nat (- X - 1)"] by (simp del: length_append)
  qed
qed

subsection \<open>The printed double\<close>

definition f64_real :: "f64 \<Rightarrow> real" where
  "f64_real x = of_int (f64_int x) / of_int f64_scale"

lemma g17_cases:
  obtains "f64_mag x = 0" "g17 x = Numeral (f64_neg x) ''0'' [] None"
  | D X where "0 < f64_mag x" "sci17 (units64 (f64_mag x)) = (D, X)" "g17 x = g_layout (f64_neg x) (padded 17 (nat D)) X"
proof (cases "f64_mag x = 0")
  case False
  then have "0 < f64_mag x" using f64_mag_bounds(1) [of x] by linarith
  with False that(2) show thesis by (cases "sci17 (units64 (f64_mag x))") (simp add: g17_def)
qed (simp add: g17_def that(1))

lemma g17_ok: "numeral_ok (g17 x)" "nu_neg (g17 x) = f64_neg x"
proof -
  show "nu_neg (g17 x) = f64_neg x" by (cases x rule: g17_cases) (simp_all add: g_layout_def)
  show "numeral_ok (g17 x)"
  proof (cases x rule: g17_cases)
    case (2 D X)
    then have D: "10 ^ 16 \<le> D" "D < 10 ^ 17" using sci17_error(1,2) [OF units64_pos] by auto
    then have "10 ^ 16 \<le> nat D" "nat D < 10 ^ Suc 16" by (simp_all add: nat_less_iff le_nat_iff)
    then have "hd (padded 17 (nat D)) \<noteq> CHR ''0''" using padded_hd [of 16 "nat D"] by simp
    with 2 show ?thesis by (simp add: g_layout_ok)
  qed (simp add: is_digit_def)
qed

lemma g17_error: "2 * 10 ^ 16 * \<bar>numeral_value (g17 x) - f64_real x\<bar> \<le> \<bar>f64_real x\<bar>"
proof (cases x rule: g17_cases)
  case 1
  have "digits_val ''0'' = 0" using digits_val_zeros [of 1] by simp
  with 1 show ?thesis by (simp add: f64_real_def f64_int_def units64_def)
next
  case (2 D X)
  let ?n = "units64 (f64_mag x)"
  have n: "0 < ?n" using 2(1) by (rule units64_pos)
  note err = sci17_error [OF n 2(2)]
  have "nat D < 10 ^ 17" "0 \<le> D" using err(1,2) by (simp_all add: nat_less_iff)
  then have D: "real (digits_val (padded 17 (nat D))) = of_int D" by (simp add: padded_val)
  define s :: real where "s = (if f64_neg x then - 1 else 1)"
  have s: "\<bar>s\<bar> = 1" by (simp add: s_def)
  have "numeral_value (g17 x) = s * (of_int D * 10 powi (X - 16))"
    unfolding 2(3) by (subst g_layout_value) (simp_all add: D s_def)
  moreover have "f64_real x = s * (of_int ?n / of_int f64_scale)" by (simp add: f64_real_def f64_int_def s_def)
  ultimately have "\<bar>numeral_value (g17 x) - f64_real x\<bar> = \<bar>of_int D * 10 powi (X - 16) - of_int ?n / of_int f64_scale\<bar>"
    "\<bar>f64_real x\<bar> = of_int ?n / of_int f64_scale"
    using n scales by (simp_all only: right_diff_distrib [symmetric] abs_mult s mult_1) simp
  with err(3) show ?thesis by simp
qed

lemma f64_gap:
  assumes "f64_int x \<noteq> f64_int y"
  shows "\<bar>f64_real x\<bar> < 10 ^ 16 * \<bar>f64_real x - f64_real y\<bar>"
proof -
  let ?n = "units64 (f64_mag x)" and ?m = "units64 (f64_mag y)"
  have nn: "0 \<le> ?n" "0 \<le> ?m" by simp_all
  have "?n < 10 ^ 16 * \<bar>f64_int x - f64_int y\<bar>"
  proof (cases "f64_neg x = f64_neg y")
    case True
    then have "f64_mag x \<noteq> f64_mag y" using assms by (auto simp: f64_int_def)
    then have "?n < 10 ^ 16 * \<bar>?m - ?n\<bar>" by (intro units64_gap) simp_all
    also have "\<bar>?m - ?n\<bar> = \<bar>f64_int x - f64_int y\<bar>" using True by (simp add: f64_int_def abs_minus_commute)
    finally show ?thesis .
  next
    case False
    then have eq: "\<bar>f64_int x - f64_int y\<bar> = ?n + ?m"
      using abs_of_nonneg [OF add_nonneg_nonneg [OF nn]] abs_minus_cancel [of "?n + ?m"]
      by (cases "f64_neg x") (simp_all add: f64_int_def)
    have "?n + ?m \<noteq> 0" using assms False by (cases "f64_neg x") (auto simp: f64_int_def)
    then have "0 < ?n + ?m" using nn by linarith
    then have "?n + ?m < 10 ^ 16 * (?n + ?m)" by simp
    then have "?n < 10 ^ 16 * (?n + ?m)" using nn(2) by linarith
    then show ?thesis unfolding eq .
  qed
  then have "real_of_int ?n < of_int (10 ^ 16 * \<bar>f64_int x - f64_int y\<bar>)" by (simp only: of_int_less_iff)
  moreover have "\<bar>f64_real x\<bar> = of_int ?n / of_int f64_scale"
    using nn(1) scales by (simp add: f64_real_def f64_int_def)
  moreover have "\<bar>f64_real x - f64_real y\<bar> = of_int \<bar>f64_int x - f64_int y\<bar> / of_int f64_scale"
    using scales by (simp add: f64_real_def flip: diff_divide_distrib)
  ultimately show ?thesis using scales by (simp add: divide_less_cancel)
qed

text \<open>The printed number is closer to its double than to any other.\<close>

lemma g17_nearest:
  assumes "f64_int x \<noteq> f64_int y"
  shows "\<bar>numeral_value (g17 x) - f64_real x\<bar> < \<bar>numeral_value (g17 x) - f64_real y\<bar>"
  using g17_error [of x] f64_gap [OF assms] by (simp add: abs_if split: if_splits)

lemma g17_inj:
  assumes "g17 x = g17 y"
  shows "x = y"
proof (rule f64_eqI)
  show neg: "f64_neg x = f64_neg y" using assms g17_ok(2) by metis
  have "f64_int x = f64_int y"
    using g17_nearest [of x y] g17_nearest [of y x] assms by fastforce
  then show "f64_mag x = f64_mag y"
    using neg units64_inj [of "f64_mag x" "f64_mag y"] by (simp add: f64_int_def split: if_splits)
qed

subsection \<open>Buffer sizes\<close>

lemma units64_finite: "0 \<le> b \<Longrightarrow> b < f64_inf_mag \<Longrightarrow> units64 b < f64_scale * 2 ^ 1024"
proof -
  assume b: "0 \<le> b" "b < f64_inf_mag"
  have "units64 b < units64 (b + 1)" using units64_Suc [OF b(1)] by simp
  also have "\<dots> \<le> units64 f64_inf_mag" using b by (intro units64_mono) simp_all
  also have "\<dots> = 2 ^ 52 * 2 ^ 2046" by (simp add: units64_def ulp64_def)
  also have "\<dots> = f64_scale * 2 ^ 1024" unfolding f64_scale_def power_add [symmetric] by simp
  finally show ?thesis .
qed

lemma sci17_exponent:
  assumes "0 < n" "n < f64_scale * 2 ^ 1024" "sci17 n = (D, X)"
  shows "- 324 \<le> X" "X \<le> 309"
proof -
  obtain L E where L: "0 < L" "f64_scale * 10 ^ (L - 1) \<le> n * dec_scale"
    and res: "sci17 n = (if E = 10 ^ 17 then (10 ^ 16, int L - 324) else (E, int L - 325))"
    using sci17_digits [OF assms(1)] by metis
  show "- 324 \<le> X" using L(1) res assms(3) by (auto split: if_splits)
  note L(2)
  also have "n * dec_scale < f64_scale * 2 ^ 1024 * dec_scale" by (rule mult_strict_right_mono [OF assms(2) scales(2)])
  finally have "f64_scale * 10 ^ (L - 1) < f64_scale * (2 ^ 1024 * dec_scale)" by (simp only: mult.assoc)
  then have "(10 :: int) ^ (L - 1) < 2 ^ 1024 * dec_scale" using scales by (simp only: mult_less_cancel_left_pos)
  also have "\<dots> \<le> 10 ^ 309 * dec_scale" using scales by (intro mult_right_mono) simp_all
  also have "\<dots> = 10 ^ 633" unfolding dec_scale_def power_add [symmetric] by simp
  finally have "L - 1 < 633" by (rule power_less_imp_less_exp [rotated]) simp
  then show "X \<le> 309" using res assms(3) by (auto split: if_splits)
qed

lemma exp_digits_length: "k < 1000 \<Longrightarrow> length (exp_digits k) \<le> 3"
  using decimal_length [of k 3] decimal_length [of k 1] by (auto simp: exp_digits_def)

lemma numeral_text_length:
  "length (numeral_text (Numeral neg ip fp ex)) \<le> 2 + length ip + length fp + length (exp_text ex)"
  by simp

lemma g_layout_length:
  assumes "length ds = 17" "- 324 \<le> X" "X \<le> 309"
  shows "length (numeral_text (g_layout neg ds X)) \<le> 24"
proof -
  note len = numeral_text_length [THEN order_trans]
  have ex: "length (exp_text (Some (X < 0, exp_digits (nat \<bar>X\<bar>)))) \<le> 5"
    using exp_digits_length [of "nat \<bar>X\<bar>"] assms(2,3) by simp
  have fr: "length (strip_zeros (drop k ds)) \<le> 17 - k" for k using strip_zeros_facts(2) [of "drop k ds"] assms(1) by simp
  have fx: "length (strip_zeros (replicate k CHR ''0'' @ ds)) \<le> k + 17" for k
    using strip_zeros_facts(2) [of "replicate k CHR ''0'' @ ds"] assms(1) by simp
  consider "X < - 4 \<or> 17 \<le> X" | "0 \<le> X" "X < 17" | "- 4 \<le> X" "X < 0" by linarith
  then show ?thesis
  proof cases
    case 1
    then have "g_layout neg ds X = Numeral neg (take 1 ds) (strip_zeros (drop 1 ds)) (Some (X < 0, exp_digits (nat \<bar>X\<bar>)))"
      by (simp add: g_layout_def)
    then show ?thesis using fr [of 1] ex assms(1) by (simp only:) (rule len, simp)
  next
    case 2
    then have "g_layout neg ds X = Numeral neg (take (nat X + 1) ds) (strip_zeros (drop (nat X + 1) ds)) None"
      by (simp add: g_layout_def)
    moreover have "nat X < 17" using 2 by simp
    ultimately show ?thesis using fr [of "nat X + 1"] assms(1) by (simp only:) (rule len, simp)
  next
    case 3
    then have "g_layout neg ds X = Numeral neg ''0'' (strip_zeros (replicate (nat (- X - 1)) CHR ''0'' @ ds)) None"
      by (simp add: g_layout_def)
    moreover have "nat (- X - 1) \<le> 3" using 3 by simp
    ultimately show ?thesis using fx [of "nat (- X - 1)"] by (simp only:) (rule len, simp)
  qed
qed

lemma g17_length: "f64_isfinite x \<Longrightarrow> length (numeral_text (g17 x)) \<le> 24"
proof (cases x rule: g17_cases)
  case (2 D X)
  assume "f64_isfinite x"
  then have "units64 (f64_mag x) < f64_scale * 2 ^ 1024" by (intro units64_finite) (simp_all add: f64_isfinite_def)
  with sci17_exponent [OF units64_pos this 2(2)] 2 g_layout_length show ?thesis by simp
qed simp

lemma integer_lengths: "length (numeral_text (u64_numeral v)) \<le> 20" "length (numeral_text (i64_numeral v)) \<le> 20"
proof -
  have "unat v < 10 ^ 20" using unsigned_less [of v, where ?'a = nat] by simp
  then show "length (numeral_text (u64_numeral v)) \<le> 20" using decimal_length [of "unat v" 20] by (simp add: u64_numeral_def)
  have "nat \<bar>sint v\<bar> < 10 ^ 19" using sint_ge [of v] sint_lt [of v] by simp
  then show "length (numeral_text (i64_numeral v)) \<le> 20"
    using decimal_length [of "nat \<bar>sint v\<bar>" 19] by (auto simp: i64_numeral_def)
qed

text \<open>
  Claim C38.  What \<open>write_f64\<close> prints for a finite double identifies it: the text is a number of the JSON
  grammar, the number is closer to the double than to every other double, so that a reader which
  rounds to nearest returns it, and different doubles, the two zeros included, have different texts.
\<close>

theorem printed_double_identified:
  assumes "f64_isfinite x" "f64_isfinite y" "x \<noteq> y"
  shows "scan_numeral (numeral_text (g17 x)) = (g17 x, []) \<and> numeral_ok (g17 x)
    \<and> numeral_text (g17 x) \<noteq> numeral_text (g17 y)
    \<and> (f64_real x \<noteq> f64_real y \<longrightarrow>
         \<bar>numeral_value (g17 x) - f64_real x\<bar> < \<bar>numeral_value (g17 x) - f64_real y\<bar>)"
proof (intro conjI)
  show "scan_numeral (numeral_text (g17 x)) = (g17 x, [])" "numeral_ok (g17 x)"
    using scan_numeral_text [OF g17_ok(1), of "[]"] g17_ok(1) by (simp_all add: num_end_def)
  show "f64_real x \<noteq> f64_real y \<longrightarrow> \<bar>numeral_value (g17 x) - f64_real x\<bar> < \<bar>numeral_value (g17 x) - f64_real y\<bar>"
    using g17_nearest [of x y] by (auto simp: f64_real_def)
  show "numeral_text (g17 x) \<noteq> numeral_text (g17 y)"
    using numeral_text_inj [OF g17_ok(1) g17_ok(1)] g17_inj assms(3) by blast
qed

theorem printed_double_identified_witness:
  "numeral_text (g17 0x3FB999999999999A) \<noteq> numeral_text (g17 0x3FB999999999999B) \<and>
   \<bar>numeral_value (g17 0x3FB999999999999A) - f64_real 0x3FB999999999999A\<bar>
     < \<bar>numeral_value (g17 0x3FB999999999999A) - f64_real 0x3FB999999999999B\<bar>"
proof -
  have fin: "f64_isfinite 0x3FB999999999999A" "f64_isfinite 0x3FB999999999999B"
    by (simp_all add: f64_isfinite_def f64_mag_def)
  have "f64_int 0x3FB999999999999A \<noteq> f64_int 0x3FB999999999999B"
    by (simp add: f64_int_def f64_neg_def f64_mag_def units64_def ulp64_def)
  then have "f64_real 0x3FB999999999999A \<noteq> f64_real 0x3FB999999999999B" using scales by (simp add: f64_real_def)
  with printed_double_identified [OF fin] show ?thesis by simp
qed

text \<open>
  The text of every number fits the 32-byte buffer it is printed to, with its terminator, so
  that the length \<open>snprintf\<close> returns is the number of bytes that are there and the append that follows
  does not read past the buffer.
\<close>

theorem printed_numbers_fit:
  "length (numeral_text (u64_numeral v)) < 32 \<and> length (numeral_text (i64_numeral v)) < 32
    \<and> (f64_isfinite x \<longrightarrow> length (numeral_text (g17 x)) < 32)"
  using integer_lengths [of v] g17_length [of x] by auto

theorem printed_numbers_fit_witness:
  "length (numeral_text (g17 1)) < 32 \<and> length (numeral_text (i64_numeral 0x8000000000000000)) < 32"
proof -
  have "f64_isfinite 1" by (simp add: f64_isfinite_def f64_mag_def)
  with printed_numbers_fit [of "0x8000000000000000" 1] show ?thesis by blast
qed

end
