(* ===== verification/Json_Writer.thy ===== *)
theory Json_Writer
  imports Decimal
begin

text \<open>
  \<open>JsonWriter\<close> (include/mith/core/json_writer.h, src/core/json_writer.cpp): the JSON emitter of the
  trace sink and of \<open>World::dump_state\<close>.  A \<open>char\<close> is a byte; \<open>std::string\<close> is a list of them.  The
  scope stack has its back at the head of the list.

  The specification is the type \<open>json\<close> of documents with its printer \<open>json_text\<close>; \<open>write_json\<close> is the
  sequence of calls that writes a document in the natural order.  The writer produces the printer's
  text in every context, with the commas where they belong, and \<open>parse_json\<close>, a reader for the
  grammar, gives the document back.
\<close>

section \<open>The writer\<close>

datatype scope_kind = Object_Scope | Array_Scope

record scope =
  sp_kind :: scope_kind
  sp_first :: bool

record json_writer =
  jw_buf :: string
  jw_stack :: "scope list"

definition json_writer_new :: json_writer where
  "json_writer_new = \<lparr>jw_buf = [], jw_stack = []\<rparr>"

text \<open>\<open>buf_.append\<close> and \<open>buf_.push_back\<close>.\<close>

definition buf_append :: "string \<Rightarrow> json_writer \<Rightarrow> json_writer" where
  "buf_append s w = w\<lparr>jw_buf := jw_buf w @ s\<rparr>"

definition handle_array_separator :: "json_writer \<Rightarrow> json_writer" where
  "handle_array_separator w =
     (case jw_stack w of
        [] \<Rightarrow> w
      | t # ts \<Rightarrow>
          if sp_kind t = Array_Scope
          then (if \<not> sp_first t then buf_append '','' w else w)\<lparr>jw_stack := t\<lparr>sp_first := False\<rparr> # ts\<rparr>
          else w)"

text \<open>\<open>snprintf\<close> with \<open>%04x\<close>.\<close>

definition hex_digit :: "nat \<Rightarrow> char" where
  "hex_digit d = (if d < 10 then char_of (48 + d) else char_of (87 + d))"

definition hex4 :: "nat \<Rightarrow> string" where
  "hex4 n = map hex_digit [n div 4096 mod 16, n div 256 mod 16, n div 16 mod 16, n mod 16]"

definition escape_char :: "char \<Rightarrow> string" where
  "escape_char c =
     (if c = CHR 0x22 then [CHR 0x5C, CHR 0x22]
      else if c = CHR 0x5C then [CHR 0x5C, CHR 0x5C]
      else if c = CHR 0x08 then [CHR 0x5C, CHR ''b'']
      else if c = CHR 0x0C then [CHR 0x5C, CHR ''f'']
      else if c = CHR 0x0A then [CHR 0x5C, CHR ''n'']
      else if c = CHR 0x0D then [CHR 0x5C, CHR ''r'']
      else if c = CHR 0x09 then [CHR 0x5C, CHR ''t'']
      else if (of_char c :: nat) < 0x20 then CHR 0x5C # CHR ''u'' # hex4 (of_char c)
      else [c])"

definition write_quoted_string :: "string \<Rightarrow> json_writer \<Rightarrow> json_writer" where
  "write_quoted_string s w =
     buf_append [CHR 0x22] (fold (\<lambda>c. buf_append (escape_char c)) s (buf_append [CHR 0x22] w))"

definition begin_object :: "json_writer \<Rightarrow> json_writer" where
  "begin_object w =
     (let w1 = buf_append ''{'' (handle_array_separator w)
      in w1\<lparr>jw_stack := \<lparr>sp_kind = Object_Scope, sp_first = True\<rparr> # jw_stack w1\<rparr>)"

definition end_object :: "json_writer \<Rightarrow> json_writer" where
  "end_object w =
     (let w1 = buf_append ''}'' w
      in if jw_stack w1 \<noteq> [] then w1\<lparr>jw_stack := tl (jw_stack w1)\<rparr> else w1)"

definition begin_array :: "json_writer \<Rightarrow> json_writer" where
  "begin_array w =
     (let w1 = buf_append ''['' (handle_array_separator w)
      in w1\<lparr>jw_stack := \<lparr>sp_kind = Array_Scope, sp_first = True\<rparr> # jw_stack w1\<rparr>)"

definition end_array :: "json_writer \<Rightarrow> json_writer" where
  "end_array w =
     (let w1 = buf_append '']'' w
      in if jw_stack w1 \<noteq> [] then w1\<lparr>jw_stack := tl (jw_stack w1)\<rparr> else w1)"

definition json_key :: "string \<Rightarrow> json_writer \<Rightarrow> json_writer" where
  "json_key k w =
     (let w1 = (if jw_stack w \<noteq> [] \<and> \<not> sp_first (hd (jw_stack w)) then buf_append '','' w else w);
          w2 = buf_append '':'' (write_quoted_string k w1)
      in if jw_stack w2 \<noteq> [] then w2\<lparr>jw_stack := (hd (jw_stack w2))\<lparr>sp_first := False\<rparr> # tl (jw_stack w2)\<rparr> else w2)"

definition write_null :: "json_writer \<Rightarrow> json_writer" where
  "write_null w = buf_append ''null'' (handle_array_separator w)"

definition write_bool :: "bool \<Rightarrow> json_writer \<Rightarrow> json_writer" where
  "write_bool v w = buf_append (if v then ''true'' else ''false'') (handle_array_separator w)"

definition write_i64 :: "u64 \<Rightarrow> json_writer \<Rightarrow> json_writer" where
  "write_i64 v w = buf_append (numeral_text (i64_numeral v)) (handle_array_separator w)"

definition write_u64 :: "u64 \<Rightarrow> json_writer \<Rightarrow> json_writer" where
  "write_u64 v w = buf_append (numeral_text (u64_numeral v)) (handle_array_separator w)"

definition write_f64 :: "f64 \<Rightarrow> json_writer \<Rightarrow> json_writer" where
  "write_f64 v w =
     (let w1 = handle_array_separator w in
      if \<not> f64_isfinite v then buf_append ''null'' w1 else buf_append (numeral_text (g17 v)) w1)"

definition write_string :: "string \<Rightarrow> json_writer \<Rightarrow> json_writer" where
  "write_string s w = write_quoted_string s (handle_array_separator w)"

definition newline :: "json_writer \<Rightarrow> json_writer" where
  "newline w = buf_append [CHR 0x0A] w"

definition json_take :: "json_writer \<Rightarrow> string \<times> json_writer" where
  "json_take w = (jw_buf w, w\<lparr>jw_buf := [], jw_stack := []\<rparr>)"

definition json_clear :: "json_writer \<Rightarrow> json_writer" where
  "json_clear w = w\<lparr>jw_buf := [], jw_stack := []\<rparr>"

definition well_formed :: "json_writer \<Rightarrow> bool" where
  "well_formed w \<longleftrightarrow> jw_stack w = []"

section \<open>Documents\<close>

datatype json = JNull | JBool bool | JNum numeral | JStr string | JArr "json list" | JObj "(string \<times> json) list"

definition quoted :: "string \<Rightarrow> string" where
  "quoted s = CHR 0x22 # concat (map escape_char s) @ [CHR 0x22]"

fun commas :: "string list \<Rightarrow> string" where
  "commas [] = []"
| "commas [x] = x"
| "commas (x # y # ys) = x @ '','' @ commas (y # ys)"

fun json_text :: "json \<Rightarrow> string" where
  "json_text JNull = ''null''"
| "json_text (JBool b) = (if b then ''true'' else ''false'')"
| "json_text (JNum n) = numeral_text n"
| "json_text (JStr s) = quoted s"
| "json_text (JArr js) = ''['' @ commas (map json_text js) @ '']''"
| "json_text (JObj ms) = ''{'' @ commas (map (\<lambda>(k, v). quoted k @ '':'' @ json_text v) ms) @ ''}''"

text \<open>The calls that write a document.  A number is a \<open>write_u64\<close>, \<open>write_i64\<close> or \<open>write_f64\<close>.\<close>

fun write_json :: "json \<Rightarrow> json_writer \<Rightarrow> json_writer" where
  "write_json JNull w = write_null w"
| "write_json (JBool b) w = write_bool b w"
| "write_json (JNum n) w = buf_append (numeral_text n) (handle_array_separator w)"
| "write_json (JStr s) w = write_string s w"
| "write_json (JArr js) w = end_array (fold write_json js (begin_array w))"
| "write_json (JObj ms) w = end_object (fold (\<lambda>(k, v) w. write_json v (json_key k w)) ms (begin_object w))"

definition f64_json :: "f64 \<Rightarrow> json" where
  "f64_json v = (if f64_isfinite v then JNum (g17 v) else JNull)"

lemma write_number_json:
  "write_u64 v w = write_json (JNum (u64_numeral v)) w" "write_i64 v w = write_json (JNum (i64_numeral v)) w"
  "write_f64 x w = write_json (f64_json x) w"
  by (simp_all add: write_u64_def write_i64_def write_f64_def f64_json_def write_null_def Let_def)

section \<open>The writer writes the document\<close>

lemma buf_append_sel [simp]: "jw_buf (buf_append s w) = jw_buf w @ s" "jw_stack (buf_append s w) = jw_stack w"
  by (simp_all add: buf_append_def)

lemma writer_eqI: "jw_buf v = jw_buf w \<Longrightarrow> jw_stack v = jw_stack w \<Longrightarrow> v = (w :: json_writer)"
  by simp

lemma write_quoted_string_eq: "write_quoted_string s w = buf_append (quoted s) w"
proof -
  have "fold (\<lambda>c. buf_append (escape_char c)) s w = buf_append (concat (map escape_char s)) w" for w
    by (induction s arbitrary: w) (simp_all add: buf_append_def)
  then show ?thesis by (simp add: write_quoted_string_def quoted_def buf_append_def)
qed

text \<open>Items of a scope: the first without a comma, when the scope has none yet.\<close>

definition items :: "bool \<Rightarrow> string list \<Rightarrow> string" where
  "items first xs = (if first then commas xs else concat (map (\<lambda>x. CHR '','' # x) xs))"

lemma commas_Cons: "commas (x # xs) = x @ concat (map (\<lambda>x. CHR '','' # x) xs)"
  by (induction xs arbitrary: x) simp_all

lemma items_Cons: "items first (x # xs) = (if first then [] else '','') @ x @ items False xs"
  by (simp add: items_def commas_Cons)

lemma items_Nil [simp]: "items first [] = []"
  by (simp add: items_def)

lemma json_key_object:
  "jw_stack w = \<lparr>sp_kind = Object_Scope, sp_first = first\<rparr> # st \<Longrightarrow>
     json_key k w = \<lparr>jw_buf = jw_buf w @ (if first then [] else '','') @ quoted k @ '':'',
       jw_stack = \<lparr>sp_kind = Object_Scope, sp_first = False\<rparr> # st\<rparr>"
  by (rule writer_eqI) (simp_all add: json_key_def write_quoted_string_eq)

lemma separator_object: "jw_stack w = \<lparr>sp_kind = Object_Scope, sp_first = first\<rparr> # st \<Longrightarrow> handle_array_separator w = w"
  by (simp add: handle_array_separator_def)

lemma separator_array:
  "jw_stack w = \<lparr>sp_kind = Array_Scope, sp_first = first\<rparr> # st \<Longrightarrow>
     handle_array_separator w = \<lparr>jw_buf = jw_buf w @ (if first then [] else '',''),
       jw_stack = \<lparr>sp_kind = Array_Scope, sp_first = False\<rparr> # st\<rparr>"
  by (rule writer_eqI) (simp_all add: handle_array_separator_def)

text \<open>A call writes \<open>t\<close> where a value may stand.\<close>

definition writes :: "(json_writer \<Rightarrow> json_writer) \<Rightarrow> string \<Rightarrow> bool" where
  "writes f t \<longleftrightarrow> (\<forall>w. f w = buf_append t (handle_array_separator w))"

lemma fold_array_items:
  assumes "list_all (\<lambda>j. writes (f j) (pr j)) js" "jw_stack w = \<lparr>sp_kind = Array_Scope, sp_first = first\<rparr> # st"
  shows "\<exists>first'. fold f js w = \<lparr>jw_buf = jw_buf w @ items first (map pr js),
    jw_stack = \<lparr>sp_kind = Array_Scope, sp_first = first'\<rparr> # st\<rparr>"
  using assms
proof (induction js arbitrary: w first)
  case Nil
  then show ?case by (auto intro!: exI [of _ first])
next
  case (Cons j js)
  let ?w = "f j w"
  have w: "?w = \<lparr>jw_buf = jw_buf w @ (if first then [] else '','') @ pr j, jw_stack = \<lparr>sp_kind = Array_Scope, sp_first = False\<rparr> # st\<rparr>"
    using Cons.prems by (simp add: writes_def separator_array buf_append_def)
  then show ?case using Cons.IH [of ?w False] Cons.prems(1) by (auto simp: items_Cons)
qed

lemma fold_object_items:
  assumes "list_all (\<lambda>(k, j). writes (f j) (pr j)) ms" "jw_stack w = \<lparr>sp_kind = Object_Scope, sp_first = first\<rparr> # st"
  shows "\<exists>first'. fold (\<lambda>(k, j) w. f j (json_key k w)) ms w =
    \<lparr>jw_buf = jw_buf w @ items first (map (\<lambda>(k, j). quoted k @ '':'' @ pr j) ms),
     jw_stack = \<lparr>sp_kind = Object_Scope, sp_first = first'\<rparr> # st\<rparr>"
  using assms
proof (induction ms arbitrary: w first)
  case Nil
  then show ?case by (auto intro!: exI [of _ first])
next
  case (Cons kj ms)
  obtain k j where kj: "kj = (k, j)" by (cases kj)
  let ?w = "f j (json_key k w)"
  have "writes (f j) (pr j)" using Cons.prems(1) kj by simp
  then have w: "?w = \<lparr>jw_buf = jw_buf w @ (if first then [] else '','') @ quoted k @ '':'' @ pr j,
      jw_stack = \<lparr>sp_kind = Object_Scope, sp_first = False\<rparr> # st\<rparr>"
    using json_key_object [OF Cons.prems(2), of k] separator_object [of "json_key k w" False st]
    by (simp add: writes_def buf_append_def)
  have "fold (\<lambda>(k, j) w. f j (json_key k w)) (kj # ms) w = fold (\<lambda>(k, j) w. f j (json_key k w)) ms ?w" by (simp add: kj)
  moreover have "list_all (\<lambda>(k, j). writes (f j) (pr j)) ms" using Cons.prems(1) by simp
  ultimately show ?case using w Cons.IH [of ?w False] by (auto simp: items_Cons kj)
qed

lemma write_array:
  assumes "list_all (\<lambda>j. writes (f j) (pr j)) js"
  shows "writes (\<lambda>w. end_array (fold f js (begin_array w))) (''['' @ commas (map pr js) @ '']'')"
  unfolding writes_def
proof
  fix w
  let ?w = "begin_array w"
  have st: "jw_stack ?w = \<lparr>sp_kind = Array_Scope, sp_first = True\<rparr> # jw_stack (handle_array_separator w)"
    "jw_buf ?w = jw_buf (handle_array_separator w) @ ''[''"
    by (simp_all add: begin_array_def)
  from fold_array_items [OF assms st(1)] obtain first where
    "fold f js ?w = \<lparr>jw_buf = jw_buf ?w @ items True (map pr js),
      jw_stack = \<lparr>sp_kind = Array_Scope, sp_first = first\<rparr> # jw_stack (handle_array_separator w)\<rparr>" by blast
  with st show "end_array (fold f js ?w) = buf_append (''['' @ commas (map pr js) @ '']'') (handle_array_separator w)"
    by (intro writer_eqI) (simp_all add: end_array_def items_def)
qed

lemma write_object:
  assumes "list_all (\<lambda>(k, j). writes (f j) (pr j)) ms"
  shows "writes (\<lambda>w. end_object (fold (\<lambda>(k, j) w. f j (json_key k w)) ms (begin_object w)))
    (''{'' @ commas (map (\<lambda>(k, j). quoted k @ '':'' @ pr j) ms) @ ''}'')"
  unfolding writes_def
proof
  fix w
  let ?w = "begin_object w"
  have st: "jw_stack ?w = \<lparr>sp_kind = Object_Scope, sp_first = True\<rparr> # jw_stack (handle_array_separator w)"
    "jw_buf ?w = jw_buf (handle_array_separator w) @ ''{''"
    by (simp_all add: begin_object_def)
  from fold_object_items [OF assms st(1)] obtain first where
    "fold (\<lambda>(k, j) w. f j (json_key k w)) ms ?w =
      \<lparr>jw_buf = jw_buf ?w @ items True (map (\<lambda>(k, j). quoted k @ '':'' @ pr j) ms),
       jw_stack = \<lparr>sp_kind = Object_Scope, sp_first = first\<rparr> # jw_stack (handle_array_separator w)\<rparr>" by blast
  with st show "end_object (fold (\<lambda>(k, j) w. f j (json_key k w)) ms ?w) =
      buf_append (''{'' @ commas (map (\<lambda>(k, j). quoted k @ '':'' @ pr j) ms) @ ''}'') (handle_array_separator w)"
    by (intro writer_eqI) (simp_all add: end_object_def items_def)
qed

lemma write_json_writes: "writes (write_json j) (json_text j)"
proof (induction j)
  case (JArr js)
  then have "list_all (\<lambda>j. writes (write_json j) (json_text j)) js" by (simp add: list_all_iff)
  from write_array [OF this] show ?case by (simp add: writes_def)
next
  case (JObj ms)
  then have "list_all (\<lambda>(k, j). writes (write_json j) (json_text j)) ms" by (force simp: list_all_iff)
  from write_object [OF this] show ?case by (simp add: writes_def)
qed (simp_all add: writes_def write_null_def write_bool_def write_string_def write_quoted_string_eq)

section \<open>Reading a document\<close>

definition hex_val :: "char \<Rightarrow> nat option" where
  "hex_val c =
     (let n = of_char c in
      if 48 \<le> n \<and> n \<le> 57 then Some (n - 48) else if 97 \<le> n \<and> n \<le> 102 then Some (n - 87) else None)"

definition hex4_val :: "char \<Rightarrow> char \<Rightarrow> char \<Rightarrow> char \<Rightarrow> nat option" where
  "hex4_val a b c d =
     (case (hex_val a, hex_val b, hex_val c, hex_val d) of
        (Some x, Some y, Some z, Some v) \<Rightarrow> Some (((x * 16 + y) * 16 + z) * 16 + v)
      | _ \<Rightarrow> None)"

definition simple_escape :: "char \<Rightarrow> char option" where
  "simple_escape e =
     (if e = CHR 0x22 then Some (CHR 0x22) else if e = CHR 0x5C then Some (CHR 0x5C) else if e = CHR ''/'' then Some (CHR ''/'')
      else if e = CHR ''b'' then Some (CHR 0x08) else if e = CHR ''f'' then Some (CHR 0x0C)
      else if e = CHR ''n'' then Some (CHR 0x0A) else if e = CHR ''r'' then Some (CHR 0x0D)
      else if e = CHR ''t'' then Some (CHR 0x09) else None)"

text \<open>The characters of a string up to its closing quote.  A raw control character is an error, and so
  is an escape of a code point that is not one byte in UTF-8.\<close>

fun scan_string :: "string \<Rightarrow> (string \<times> string) option" where
  "scan_string [] = None"
| "scan_string (c # s) =
     (if c = CHR 0x22 then Some ([], s)
      else if c = CHR 0x5C then
        (case s of
           e # t \<Rightarrow>
             if e = CHR ''u'' then
               (case t of
                  h1 # h2 # h3 # h4 # r \<Rightarrow>
                    (case hex4_val h1 h2 h3 h4 of
                       Some n \<Rightarrow> if n < 128 then map_option (\<lambda>(cs, r'). (char_of n # cs, r')) (scan_string r) else None
                     | None \<Rightarrow> None)
                | _ \<Rightarrow> None)
             else (case simple_escape e of
                     Some c' \<Rightarrow> map_option (\<lambda>(cs, r). (c' # cs, r)) (scan_string t)
                   | None \<Rightarrow> None)
         | [] \<Rightarrow> None)
      else if (of_char c :: nat) < 0x20 then None
      else map_option (\<lambda>(cs, r). (c # cs, r)) (scan_string s))"

text \<open>Recursive descent; the fuel bounds the recursion.\<close>

fun parse_value :: "nat \<Rightarrow> string \<Rightarrow> (json \<times> string) option"
  and parse_elems :: "nat \<Rightarrow> string \<Rightarrow> (json list \<times> string) option"
  and parse_members :: "nat \<Rightarrow> string \<Rightarrow> ((string \<times> json) list \<times> string) option" where
  "parse_value 0 s = None"
| "parse_value (Suc f) s =
     (if take 4 s = ''null'' then Some (JNull, drop 4 s)
      else if take 4 s = ''true'' then Some (JBool True, drop 4 s)
      else if take 5 s = ''false'' then Some (JBool False, drop 5 s)
      else if take 1 s = [CHR 0x22] then map_option (\<lambda>(cs, r). (JStr cs, r)) (scan_string (drop 1 s))
      else if take 2 s = ''[]'' then Some (JArr [], drop 2 s)
      else if take 1 s = ''['' then map_option (\<lambda>(js, r). (JArr js, r)) (parse_elems f (drop 1 s))
      else if take 2 s = ''{}'' then Some (JObj [], drop 2 s)
      else if take 1 s = ''{'' then map_option (\<lambda>(ms, r). (JObj ms, r)) (parse_members f (drop 1 s))
      else let (n, r) = scan_numeral s in if numeral_ok n then Some (JNum n, r) else None)"
| "parse_elems 0 s = None"
| "parse_elems (Suc f) s =
     (case parse_value f s of
        None \<Rightarrow> None
      | Some (j, r) \<Rightarrow>
          if take 1 r = '','' then map_option (\<lambda>(js, r'). (j # js, r')) (parse_elems f (drop 1 r))
          else if take 1 r = '']'' then Some ([j], drop 1 r) else None)"
| "parse_members 0 s = None"
| "parse_members (Suc f) s =
     (if take 1 s \<noteq> [CHR 0x22] then None
      else case scan_string (drop 1 s) of
        None \<Rightarrow> None
      | Some (k, r) \<Rightarrow>
          if take 1 r \<noteq> '':'' then None
          else case parse_value f (drop 1 r) of
            None \<Rightarrow> None
          | Some (j, r') \<Rightarrow>
              if take 1 r' = '','' then map_option (\<lambda>(ms, r''). ((k, j) # ms, r'')) (parse_members f (drop 1 r'))
              else if take 1 r' = ''}'' then Some ([(k, j)], drop 1 r') else None)"

text \<open>The text is the document and nothing else.\<close>

definition parse_json :: "string \<Rightarrow> json option" where
  "parse_json s = (case parse_value (length s) s of Some (j, []) \<Rightarrow> Some j | _ \<Rightarrow> None)"

section \<open>Reading back what was written\<close>

text \<open>The documents the writer is used for: the numbers are numbers of the grammar.\<close>

fun json_ok :: "json \<Rightarrow> bool" where
  "json_ok (JNum n) \<longleftrightarrow> numeral_ok n"
| "json_ok (JArr js) \<longleftrightarrow> list_all json_ok js"
| "json_ok (JObj ms) \<longleftrightarrow> list_all (\<lambda>(k, j). json_ok j) ms"
| "json_ok _ \<longleftrightarrow> True"

lemma hex_val_digit: "d < 16 \<Longrightarrow> hex_val (hex_digit d) = Some d"
  by (simp add: hex_val_def hex_digit_def Let_def)

lemma hex4_val_hex4: "n < 65536 \<Longrightarrow> \<exists>a b c d. hex4 n = [a, b, c, d] \<and> hex4_val a b c d = Some n"
proof -
  assume "n < 65536"
  then have top: "n div 4096 mod 16 = n div 4096" by (simp add: less_mult_imp_div_less)
  have steps: "n div 4096 = n div 256 div 16" "n div 256 = n div 16 div 16" by (simp_all add: div_mult2_eq [symmetric])
  have "((n div 4096 mod 16 * 16 + n div 256 mod 16) * 16 + n div 16 mod 16) * 16 + n mod 16 = n"
    unfolding top unfolding steps(1) div_mult_mod_eq unfolding steps(2) div_mult_mod_eq ..
  moreover have "n div 4096 < 16" using \<open>n < 65536\<close> by (simp add: less_mult_imp_div_less)
  ultimately show ?thesis using top by (simp add: hex4_def hex4_val_def hex_val_digit)
qed

lemma char_code_eq: "c = d \<longleftrightarrow> (of_char c :: nat) = of_char d"
  by (metis char_of_char)

lemma scan_escape: "scan_string (escape_char c @ s) = map_option (\<lambda>(cs, r). (c # cs, r)) (scan_string s)"
proof -
  let ?named = "{CHR 0x22, CHR 0x5C, CHR 0x08, CHR 0x0C, CHR 0x0A, CHR 0x0D, CHR 0x09}"
  show ?thesis
  proof (cases "c \<in> ?named")
    case True
    then obtain e where "escape_char c = [CHR 0x5C, e]" "e \<noteq> CHR ''u''" "simple_escape e = Some c"
      by (elim insertE emptyE) (auto simp: escape_char_def simple_escape_def)
    then show ?thesis by simp
  next
    case False
    then have esc: "escape_char c = (if (of_char c :: nat) < 0x20 then CHR 0x5C # CHR ''u'' # hex4 (of_char c) else [c])"
      by (simp add: escape_char_def)
    show ?thesis
    proof (cases "(of_char c :: nat) < 0x20")
      case True
      obtain a b d e where h: "hex4 (of_char c) = [a, b, d, e]" "hex4_val a b d e = Some (of_char c)"
        using hex4_val_hex4 [of "of_char c"] True by auto
      then show ?thesis using True esc by (simp add: char_of_char)
    next
      case ge: False
      then show ?thesis using False esc by simp
    qed
  qed
qed

lemma scan_string_quoted: "scan_string (concat (map escape_char cs) @ CHR 0x22 # rest) = Some (cs, rest)"
  by (induction cs) (simp_all add: scan_escape)

lemma quoted_take: "take 1 (quoted s @ r) = [CHR 0x22]" "drop 1 (quoted s @ r) = concat (map escape_char s) @ CHR 0x22 # r"
  by (simp_all add: quoted_def)

subsection \<open>Enough fuel\<close>

fun weight :: "json \<Rightarrow> nat" where
  "weight (JArr js) = Suc (sum_list (map (\<lambda>j. Suc (weight j)) js))"
| "weight (JObj ms) = Suc (sum_list (map (\<lambda>(k, j). Suc (weight j)) ms))"
| "weight _ = 1"

lemma length_commas: "length (commas xs) = sum_list (map length xs) + (length xs - 1)"
  by (induction xs rule: commas.induct) simp_all

lemma sum_list_Suc: "sum_list (map (\<lambda>x. Suc (f x)) xs) = sum_list (map f xs) + length xs"
  by (induction xs) simp_all

lemma numeral_text_nonempty: "numeral_ok n \<Longrightarrow> Suc 0 \<le> length (numeral_text n)"
  by (cases n) (auto simp: Suc_le_eq)

lemma weight_le: "json_ok j \<Longrightarrow> weight j \<le> length (json_text j)"
proof (induction j)
  case (JArr js)
  then have "sum_list (map weight js) \<le> sum_list (map (length \<circ> json_text) js)"
    by (intro sum_list_mono) (auto simp: list_all_iff)
  then show ?case by (simp add: sum_list_Suc length_commas)
next
  case (JObj ms)
  have "sum_list (map (\<lambda>(k, j). Suc (weight j)) ms) \<le> sum_list (map (length \<circ> (\<lambda>(k, v). quoted k @ CHR '':'' # json_text v)) ms)"
    by (intro sum_list_mono) (use JObj in \<open>force simp: list_all_iff\<close>)
  then show ?case by (simp add: length_commas)
qed (simp_all add: numeral_text_nonempty quoted_def)

subsection \<open>The round trip\<close>

text \<open>What a document can start with decides the branch of the reader.\<close>

definition starts_value :: "string \<Rightarrow> bool" where
  "starts_value s \<longleftrightarrow> s \<noteq> [] \<and> hd s \<notin> {CHR '']'', CHR ''}''}"

lemma json_text_starts: "json_ok j \<Longrightarrow> starts_value (json_text j)"
proof (cases j)
  case (JNum n)
  assume "json_ok j"
  with JNum show ?thesis
    by (cases n; cases "nu_int n") (auto simp: starts_value_def is_digit_def)
qed (simp_all add: starts_value_def quoted_def)

lemma numeral_text_other:
  assumes "numeral_ok n"
  shows "take 4 (numeral_text n @ r) \<noteq> ''null''" "take 4 (numeral_text n @ r) \<noteq> ''true''" "take 5 (numeral_text n @ r) \<noteq> ''false''"
    "take 1 (numeral_text n @ r) \<noteq> [CHR 0x22]" "take 2 (numeral_text n @ r) \<noteq> ''[]''" "take 1 (numeral_text n @ r) \<noteq> ''[''"
    "take 2 (numeral_text n @ r) \<noteq> ''{}''" "take 1 (numeral_text n @ r) \<noteq> ''{''"
proof -
  obtain c cs where c: "numeral_text n = c # cs" "is_digit c \<or> c = CHR ''-''"
  proof (cases n)
    case (Numeral neg ip fp ex)
    with assms obtain d ds where "ip = d # ds" "is_digit d" by (cases ip) auto
    with Numeral that show thesis by (cases neg) auto
  qed
  have "c \<notin> {CHR ''n'', CHR ''t'', CHR ''f'', CHR 0x22, CHR ''['', CHR ''{''}" using c(2) by (auto simp: is_digit_def)
  with c(1) show "take 4 (numeral_text n @ r) \<noteq> ''null''" "take 4 (numeral_text n @ r) \<noteq> ''true''" "take 5 (numeral_text n @ r) \<noteq> ''false''"
    "take 1 (numeral_text n @ r) \<noteq> [CHR 0x22]" "take 2 (numeral_text n @ r) \<noteq> ''[]''" "take 1 (numeral_text n @ r) \<noteq> ''[''"
    "take 2 (numeral_text n @ r) \<noteq> ''{}''" "take 1 (numeral_text n @ r) \<noteq> ''{''"
    by auto
qed

definition reads :: "json \<Rightarrow> bool" where
  "reads j \<longleftrightarrow> (\<forall>fuel rest. weight j \<le> fuel \<longrightarrow> num_end rest \<longrightarrow> parse_value fuel (json_text j @ rest) = Some (j, rest))"

lemma num_end_separators [simp]: "num_end (CHR '','' # r)" "num_end (CHR '']'' # r)" "num_end (CHR ''}'' # r)" "num_end []"
  by (simp_all add: num_end_def is_digit_def)

lemma parse_elems_text:
  assumes "js \<noteq> []" "list_all reads js" "sum_list (map (\<lambda>j. Suc (weight j)) js) \<le> fuel"
  shows "parse_elems fuel (commas (map json_text js) @ CHR '']'' # rest) = Some (js, rest)"
  using assms
proof (induction js arbitrary: fuel)
  case (Cons j js)
  then obtain f where f: "fuel = Suc f" "weight j \<le> f" "sum_list (map (\<lambda>j. Suc (weight j)) js) \<le> f" by (cases fuel) auto
  have rd: "num_end r \<Longrightarrow> parse_value f (json_text j @ r) = Some (j, r)" for r using Cons.prems(2) f(2) by (simp add: reads_def)
  show ?case
  proof (cases js)
    case Nil
    then show ?thesis using rd [of "CHR '']'' # rest"] by (simp add: f(1))
  next
    case (Cons j' js')
    then have "parse_elems f (commas (map json_text js) @ CHR '']'' # rest) = Some (js, rest)"
      using Cons.IH [of f] \<open>list_all reads (j # js)\<close> f(3) by simp
    then show ?thesis
      using rd [of "CHR '','' # commas (map json_text js) @ CHR '']'' # rest"] Cons by (simp add: f(1))
  qed
qed simp

lemma parse_members_text:
  assumes "ms \<noteq> []" "list_all (\<lambda>(k, j). reads j) ms" "sum_list (map (\<lambda>(k, j). Suc (weight j)) ms) \<le> fuel"
  shows "parse_members fuel (commas (map (\<lambda>(k, v). quoted k @ CHR '':'' # json_text v) ms) @ CHR ''}'' # rest) = Some (ms, rest)"
  using assms
proof (induction ms arbitrary: fuel)
  case (Cons kj ms)
  obtain k j where kj: "kj = (k, j)" by (cases kj)
  with Cons obtain f where f: "fuel = Suc f" "weight j \<le> f" "sum_list (map (\<lambda>(k, j). Suc (weight j)) ms) \<le> f" by (cases fuel) auto
  have rd: "num_end r \<Longrightarrow> parse_value f (json_text j @ r) = Some (j, r)" for r using Cons.prems(2) f(2) kj by (simp add: reads_def)
  note str = quoted_take [of k] scan_string_quoted [of k]
  show ?case
  proof (cases ms)
    case Nil
    then show ?thesis using rd [of "CHR ''}'' # rest"] str by (simp add: f(1) kj)
  next
    case (Cons kj' ms')
    then have "parse_members f (commas (map (\<lambda>(k, v). quoted k @ CHR '':'' # json_text v) ms) @ CHR ''}'' # rest) = Some (ms, rest)"
      using Cons.IH [of f] \<open>list_all _ (kj # ms)\<close> f(3) by simp
    then show ?thesis
      using rd [of "CHR '','' # commas (map (\<lambda>(k, v). quoted k @ CHR '':'' # json_text v) ms) @ CHR ''}'' # rest"] str Cons
      by (simp add: f(1) kj)
  qed
qed simp

lemma parse_number: "numeral_ok n \<Longrightarrow> num_end r \<Longrightarrow> parse_value (Suc f) (numeral_text n @ r) = Some (JNum n, r)"
  by (simp only: parse_value.simps numeral_text_other if_False scan_numeral_text Let_def case_prod_conv if_True)

lemma parse_string: "parse_value (Suc f) (quoted s @ r) = Some (JStr s, r)"
  using scan_string_quoted [of s r] by (simp add: quoted_def)

lemma readsI:
  assumes "\<And>f rest. k \<le> f \<Longrightarrow> num_end rest \<Longrightarrow> parse_value (Suc f) (json_text j @ rest) = Some (j, rest)" "weight j = Suc k"
  shows "reads j"
  unfolding reads_def
proof (intro allI impI)
  fix fuel rest
  assume "weight j \<le> fuel" "num_end rest"
  moreover from this(1) assms(2) obtain f where "fuel = Suc f" "k \<le> f" by (cases fuel) auto
  ultimately show "parse_value fuel (json_text j @ rest) = Some (j, rest)" using assms(1) by blast
qed

lemma json_reads: "json_ok j \<Longrightarrow> reads j"
proof (induction j)
  case (JNum n)
  then show ?case by (intro readsI) (simp_all add: parse_number del: parse_value.simps)
next
  case (JStr s)
  show ?case by (rule readsI) (simp_all add: parse_string del: parse_value.simps)
next
  case (JArr js)
  then have rs: "list_all reads js" by (simp add: list_all_iff)
  show ?case
  proof (cases "js = []")
    case False
    have "starts_value (commas (map json_text js))"
      using False JArr.prems json_text_starts [of "hd js"] by (cases js) (auto simp: starts_value_def commas_Cons)
    then obtain c cs where c: "commas (map json_text js) = c # cs" "c \<noteq> CHR '']''"
      by (cases "commas (map json_text js)") (auto simp: starts_value_def)
    have "parse_value (Suc f) (json_text (JArr js) @ rest) = Some (JArr js, rest)"
      if "sum_list (map (\<lambda>j. Suc (weight j)) js) \<le> f" for f rest
      using parse_elems_text [OF False rs that, of rest] c by simp
    then show ?thesis by (rule readsI) (assumption, simp)
  qed (auto intro: readsI)
next
  case (JObj ms)
  then have rs: "list_all (\<lambda>(k, j). reads j) ms" by (force simp: list_all_iff)
  show ?case
  proof (cases "ms = []")
    case False
    have c: "take 1 (commas (map (\<lambda>(k, v). quoted k @ CHR '':'' # json_text v) ms)) = [CHR 0x22]"
      using False by (cases ms) (auto simp: commas_Cons quoted_def)
    then obtain cs where c: "commas (map (\<lambda>(k, v). quoted k @ CHR '':'' # json_text v) ms) = CHR 0x22 # cs"
      by (cases "commas (map (\<lambda>(k, v). quoted k @ CHR '':'' # json_text v) ms)") auto
    have "parse_value (Suc f) (json_text (JObj ms) @ rest) = Some (JObj ms, rest)"
      if "sum_list (map (\<lambda>(k, j). Suc (weight j)) ms) \<le> f" for f rest
      using parse_members_text [OF False rs that, of rest] c by simp
    then show ?thesis by (rule readsI) (assumption, simp)
  qed (auto intro: readsI)
qed (auto intro: readsI)

lemma hex_digit_plain: "d < 16 \<Longrightarrow> (0x20 :: nat) \<le> of_char (hex_digit d)"
  by (simp add: hex_digit_def)

lemma escape_plain: "list_all (\<lambda>c. (0x20 :: nat) \<le> of_char c) (escape_char c)"
  by (auto simp: escape_char_def hex4_def hex_digit_plain)

lemma quoted_plain: "list_all (\<lambda>c. (0x20 :: nat) \<le> of_char c) (quoted s)"
  using escape_plain by (auto simp: quoted_def list_all_iff)

lemma commas_plain: "list_all (\<lambda>c. (0x20 :: nat) \<le> of_char c) (commas xs) \<longleftrightarrow> list_all (list_all (\<lambda>c. (0x20 :: nat) \<le> of_char c)) xs"
  by (induction xs rule: commas.induct) simp_all

lemma digits_plain: "list_all is_digit s \<Longrightarrow> list_all (\<lambda>c. (0x20 :: nat) \<le> of_char c) s"
  by (auto simp: list_all_iff is_digit_def)

lemma numeral_plain: "numeral_ok n \<Longrightarrow> list_all (\<lambda>c. (0x20 :: nat) \<le> of_char c) (numeral_text n)"
  by (cases n; cases "nu_exp n" rule: exp_text.cases) (auto simp: digits_plain)

text \<open>A document is one line: no control character is written raw.\<close>

lemma json_text_plain: "json_ok j \<Longrightarrow> list_all (\<lambda>c. (0x20 :: nat) \<le> of_char c) (json_text j)"
proof (induction j)
  case (JArr js)
  then have "list_all (list_all (\<lambda>c. (0x20 :: nat) \<le> of_char c)) (map json_text js)" by (simp add: list_all_iff)
  then show ?case by (simp add: commas_plain)
next
  case (JObj ms)
  then have "list_all (list_all (\<lambda>c. (0x20 :: nat) \<le> of_char c)) (map (\<lambda>(k, v). quoted k @ CHR '':'' # json_text v) ms)"
    using quoted_plain by (force simp: list_all_iff)
  then show ?case by (simp add: commas_plain)
qed (simp_all add: quoted_plain numeral_plain)

lemma json_take_document: "json_take (write_json j json_writer_new) = (json_text j, json_writer_new)"
  using write_json_writes [of j]
  by (simp add: writes_def json_take_def json_writer_new_def handle_array_separator_def buf_append_def)

lemma parse_json_text: "json_ok j \<Longrightarrow> parse_json (json_text j) = Some j"
  using json_reads [of j] weight_le [of j] unfolding reads_def parse_json_def
  by (metis (mono_tags, lifting) append_Nil2 case_prod_conv list.simps(4) num_end_separators(4) option.simps(5))

text \<open>
  Claim C14.  Whatever document is written, through whatever nesting of objects and arrays, by the calls
  in natural order, the writer ends well-formed and its buffer is the document: a reader of the JSON
  grammar accepts the whole text and returns exactly the document, keys and strings with every byte
  they had.
\<close>

theorem written_document_reads_back:
  assumes "json_ok j"
  shows "let w = write_json j json_writer_new; text = fst (json_take w) in
    parse_json text = Some j \<and> well_formed w \<and> list_all (\<lambda>c. (0x20 :: nat) \<le> of_char c) text"
  using write_json_writes [of j] parse_json_text [OF assms] json_text_plain [OF assms]
  by (simp add: Let_def json_take_document)
    (simp add: writes_def well_formed_def json_writer_new_def handle_array_separator_def)

definition example_document :: json where
  "example_document = JObj [(''a'', JArr [JNum (u64_numeral 7), JNull, JArr []]), ([CHR 0x0A, CHR 0x22], JStr [CHR 0x01])]"

theorem written_document_reads_back_witness:
  "parse_json (fst (json_take (write_json example_document json_writer_new))) = Some example_document"
  using written_document_reads_back [of example_document]
  by (simp add: Let_def) (simp add: example_document_def u64_numeral_ok)

end
