(* ===== verification/Trace_Sinks.thy ===== *)
theory Trace_Sinks
  imports Json_Writer Registry Byte_Order Bounded_Queue
begin

text \<open>
  The trace sinks: \<open>JsonTraceSink\<close> and \<open>NullTraceSink\<close> (include/mith/core/trace_sink.h,
  src/core/trace_sink.cpp) and \<open>BinaryTraceSink\<close> (include/mith/core/binary_trace_sink.h,
  src/core/binary_trace_sink.cpp).

  The destination \<open>FILE*\<close> of the JSON sink is the text written to it, \<open>None\<close> for a null pointer.  The
  ring of the binary sink is the flat byte buffer of the code with its indices as 64-bit words; a
  write outside of the buffer is undefined behaviour.  The offline decoder the header speaks of is
  \<open>decode_frame\<close>, after the layout documented there.

  Shown: a JSON log can be split into lines and read back event by event; a frame decodes to the
  event, up to the documented truncation; and the binary ring is a drop-oldest queue of frames, an
  interpretation of the interface of \<open>Bounded_Queue\<close>, that never writes outside of its buffer.
\<close>

section \<open>The JSON sink\<close>

fun trace_level_str :: "trace_level \<Rightarrow> string" where
  "trace_level_str Off = ''off''"
| "trace_level_str Warn = ''warn''"
| "trace_level_str Info = ''info''"
| "trace_level_str Debug = ''debug''"

fun field_key :: "trace_field \<Rightarrow> string" where
  "field_key (FStr k _) = k"
| "field_key (FI64 k _) = k"
| "field_key (FU64 k _) = k"
| "field_key (FF64 k _) = k"
| "field_key (FBool k _) = k"

fun write_field_value :: "trace_field \<Rightarrow> json_writer \<Rightarrow> json_writer" where
  "write_field_value (FStr _ v) w = write_string v w"
| "write_field_value (FI64 _ v) w = write_i64 v w"
| "write_field_value (FU64 _ v) w = write_u64 v w"
| "write_field_value (FF64 _ v) w = write_f64 v w"
| "write_field_value (FBool _ v) w = write_bool v w"

definition json_format :: "trace_level \<Rightarrow> string \<Rightarrow> trace_field list \<Rightarrow> string" where
  "json_format level event flds =
     (let w1 = begin_object json_writer_new;
          w2 = write_string (trace_level_str level) (json_key ''level'' w1);
          w3 = write_string event (json_key ''event'' w2);
          w4 = fold (\<lambda>f w. write_field_value f (json_key (field_key f) w)) flds w3
      in fst (json_take (newline (end_object w4))))"

definition json_sink_emit :: "trace_event \<Rightarrow> string option \<Rightarrow> string option" where
  "json_sink_emit ev dest =
     (case ev of TraceEvent level event flds \<Rightarrow>
        if level = Off then dest
        else case dest of None \<Rightarrow> None | Some out \<Rightarrow> Some (out @ json_format level event flds))"

definition null_sink_emit :: "trace_event \<Rightarrow> 's \<Rightarrow> 's" where
  "null_sink_emit ev s = s"

section \<open>The binary sink\<close>

definition FRAME_BYTES :: nat where "FRAME_BYTES = 256"
definition MAX_NAME_LEN :: nat where "MAX_NAME_LEN = 64"
definition FIELD_BYTES :: nat where "FIELD_BYTES = 16"
definition MAX_KEY_BYTES :: nat where "MAX_KEY_BYTES = 6"

record binary_sink =
  bt_buffer :: "byte list"
  bt_capacity :: u64
  bt_mask :: u64
  bt_head :: u64
  bt_size :: u64
  bt_wall_seq :: u64
  bt_dropped :: u64
  bt_total_emits :: u64

text \<open>The loop \<open>while ((p << 1) > p && (p << 1) <= n) p <<= 1\<close>.\<close>

function floor_pow2_loop :: "u64 \<Rightarrow> u64 \<Rightarrow> u64" where
  "floor_pow2_loop n p = (if p < push_bit 1 p \<and> push_bit 1 p \<le> n then floor_pow2_loop n (push_bit 1 p) else p)"
  by pat_completeness auto
termination
  by (relation "measure (\<lambda>(n, p). unat n - unat p)")
    (auto simp: word_less_nat_alt word_le_nat_alt)

declare floor_pow2_loop.simps [simp del]

definition floor_pow2 :: "u64 \<Rightarrow> u64" where
  "floor_pow2 n = (if n = 0 then 1 else floor_pow2_loop n 1)"

text \<open>The constructor; the product is computed in \<open>size_t\<close>.\<close>

definition binary_sink_new :: "u64 \<Rightarrow> binary_sink" where
  "binary_sink_new capacity =
     (let cap = floor_pow2 (if capacity = 0 then 1 else capacity)
      in \<lparr>bt_buffer = replicate (unat (cap * of_nat FRAME_BYTES)) 0, bt_capacity = cap, bt_mask = cap - 1, bt_head = 0,
          bt_size = 0, bt_wall_seq = 0, bt_dropped = 0, bt_total_emits = 0\<rparr>)"

fun level_code :: "trace_level \<Rightarrow> byte" where
  "level_code Off = 0"
| "level_code Warn = 1"
| "level_code Info = 2"
| "level_code Debug = 3"

fun kind_code :: "trace_field \<Rightarrow> byte" where
  "kind_code (FStr _ _) = 0"
| "kind_code (FI64 _ _) = 1"
| "kind_code (FU64 _ _) = 2"
| "kind_code (FF64 _ _) = 3"
| "kind_code (FBool _ _) = 4"

text \<open>\<open>memcpy\<close> to an offset of a frame.\<close>

definition copy_to :: "nat \<Rightarrow> byte list \<Rightarrow> byte list \<Rightarrow> byte list" where
  "copy_to off bs frame = take off frame @ bs @ drop (off + length bs) frame"

definition chars :: "string \<Rightarrow> byte list" where
  "chars s = map of_char s"

fun write_value :: "nat \<Rightarrow> trace_field \<Rightarrow> byte list \<Rightarrow> byte list" where
  "write_value p (FI64 _ v) frame = copy_to (p + 8) (put_u64_le v) frame"
| "write_value p (FU64 _ v) frame = copy_to (p + 8) (put_u64_le v) frame"
| "write_value p (FF64 _ v) frame = copy_to (p + 8) (put_u64_le v) frame"
| "write_value p (FBool _ v) frame = copy_to (p + 8) [if v then 1 else 0] frame"
| "write_value p (FStr _ v) frame = copy_to (p + 8) (chars (take (min (length v) 8) v)) frame"

definition write_field :: "nat \<Rightarrow> trace_field \<Rightarrow> byte list \<Rightarrow> byte list" where
  "write_field p f frame =
     (let key_len = min (length (field_key f)) MAX_KEY_BYTES;
          f1 = copy_to p [kind_code f] frame;
          f2 = copy_to (p + 1) [of_nat key_len] f1;
          f3 = copy_to (p + 2) (chars (take key_len (field_key f))) f2
      in write_value p f f3)"

fun write_fields :: "nat \<Rightarrow> trace_field list \<Rightarrow> byte list \<Rightarrow> byte list" where
  "write_fields p [] frame = frame"
| "write_fields p (f # fs) frame = write_fields (p + FIELD_BYTES) fs (write_field p f frame)"

definition name_room :: "string \<Rightarrow> nat" where
  "name_room event = min (length event) MAX_NAME_LEN"

definition max_fields :: "string \<Rightarrow> nat" where
  "max_fields event = (FRAME_BYTES - 12 - name_room event) div FIELD_BYTES"

text \<open>The bytes \<open>emit\<close> leaves in its slot, from the \<open>memset\<close> on.\<close>

definition frame_bytes :: "u64 \<Rightarrow> trace_level \<Rightarrow> string \<Rightarrow> trace_field list \<Rightarrow> byte list" where
  "frame_bytes seq level event flds =
     (let f_count = min (length flds) (max_fields event);
          f0 = replicate FRAME_BYTES 0;
          f1 = copy_to 8 [level_code level] (copy_to 0 (put_u64_le seq) f0);
          f2 = copy_to 10 (put_u16 (of_nat (name_room event))) (copy_to 9 [of_nat f_count] f1);
          f3 = copy_to 12 (chars (take (name_room event) event)) f2
      in write_fields (12 + name_room event) (take f_count flds) f3)"

text \<open>A frame in the slot at the head, which is the oldest one when the ring is full.\<close>

definition store_frame :: "byte list \<Rightarrow> binary_sink \<Rightarrow> binary_sink res" where
  "store_frame frame s =
     (let s1 = (if bt_size s = bt_capacity s then s\<lparr>bt_dropped := bt_dropped s + 1\<rparr> else s\<lparr>bt_size := bt_size s + 1\<rparr>);
          off = unat ((bt_head s AND bt_mask s) * of_nat FRAME_BYTES)
      in if off + FRAME_BYTES \<le> length (bt_buffer s)
         then Inr (s1\<lparr>bt_head := (bt_head s + 1) AND bt_mask s, bt_buffer := copy_to off frame (bt_buffer s)\<rparr>)
         else Inl (Undefined ''write outside of the trace buffer''))"

definition binary_sink_emit :: "trace_event \<Rightarrow> binary_sink \<Rightarrow> binary_sink res" where
  "binary_sink_emit ev s =
     (case ev of TraceEvent level event flds \<Rightarrow>
        if level = Off then Inr s
        else
          let s1 = s\<lparr>bt_total_emits := bt_total_emits s + 1\<rparr>; seq = bt_wall_seq s1
          in rmap (\<lambda>s2. s2\<lparr>bt_wall_seq := seq + 1\<rparr>) (store_frame (frame_bytes seq level event flds) s1))"

definition bt_held :: "binary_sink \<Rightarrow> u64" where
  "bt_held s = bt_size s"

definition frame_at :: "binary_sink \<Rightarrow> u64 \<Rightarrow> byte list" where
  "frame_at s i = take FRAME_BYTES (drop (unat (i * of_nat FRAME_BYTES)) (bt_buffer s))"

definition peek_oldest :: "binary_sink \<Rightarrow> byte list option" where
  "peek_oldest s =
     (if bt_size s = 0 then None
      else Some (frame_at s ((bt_head s + bt_capacity s - bt_size s) AND bt_mask s)))"

definition pop_oldest :: "binary_sink \<Rightarrow> bool \<times> binary_sink" where
  "pop_oldest s = (if bt_size s = 0 then (False, s) else (True, s\<lparr>bt_size := bt_size s - 1\<rparr>))"

definition binary_sink_clear :: "binary_sink \<Rightarrow> binary_sink" where
  "binary_sink_clear s = s\<lparr>bt_head := 0, bt_size := 0\<rparr>"

section \<open>A JSON log reads back\<close>

fun field_value :: "trace_field \<Rightarrow> json" where
  "field_value (FStr _ v) = JStr v"
| "field_value (FI64 _ v) = JNum (i64_numeral v)"
| "field_value (FU64 _ v) = JNum (u64_numeral v)"
| "field_value (FF64 _ v) = f64_json v"
| "field_value (FBool _ v) = JBool v"

fun event_json :: "trace_event \<Rightarrow> json" where
  "event_json (TraceEvent level event flds) =
     JObj ((''level'', JStr (trace_level_str level)) # (''event'', JStr event) # map (\<lambda>f. (field_key f, field_value f)) flds)"

lemma write_field_value_json: "write_field_value f w = write_json (field_value f) w"
  by (cases f) (simp_all add: write_number_json)

lemma field_value_ok: "json_ok (field_value f)"
  by (cases f) (simp_all add: i64_numeral_ok u64_numeral_ok f64_json_def g17_ok)

lemma event_json_ok: "json_ok (event_json ev)"
  by (cases ev) (simp add: list_all_iff field_value_ok)

lemma json_format_eq: "json_format level event flds = json_text (event_json (TraceEvent level event flds)) @ [CHR 0x0A]"
proof -
  have "fold (\<lambda>(k, v) w. write_json v (json_key k w)) (map (\<lambda>f. (field_key f, field_value f)) flds) w
      = fold (\<lambda>f w. write_field_value f (json_key (field_key f) w)) flds w" for w
    by (simp add: fold_map comp_def write_field_value_json)
  then have "json_format level event flds = fst (json_take (newline (write_json (event_json (TraceEvent level event flds)) json_writer_new)))"
    by (simp add: json_format_def Let_def)
  also have "\<dots> = json_text (event_json (TraceEvent level event flds)) @ [CHR 0x0A]"
    using json_take_document [of "event_json (TraceEvent level event flds)"] by (simp add: json_take_def newline_def del: write_json.simps)
  finally show ?thesis .
qed

text \<open>A reader of JSON lines: a line ends at a newline.\<close>

fun split_lines :: "string \<Rightarrow> string \<Rightarrow> string list" where
  "split_lines cur [] = (if cur = [] then [] else [cur])"
| "split_lines cur (c # s) = (if c = CHR 0x0A then cur # split_lines [] s else split_lines (cur @ [c]) s)"

definition is_off :: "trace_event \<Rightarrow> bool" where
  "is_off ev \<longleftrightarrow> (case ev of TraceEvent level _ _ \<Rightarrow> level = Off)"

lemma split_lines_append: "CHR 0x0A \<notin> set l \<Longrightarrow> split_lines cur (l @ CHR 0x0A # s) = (cur @ l) # split_lines [] s"
  by (induction l arbitrary: cur) auto

lemma split_lines_log: "\<forall>l \<in> set ls. CHR 0x0A \<notin> set l \<Longrightarrow> split_lines [] (concat (map (\<lambda>l. l @ [CHR 0x0A]) ls)) = ls"
  by (induction ls) (simp_all add: split_lines_append)

lemma event_text_one_line: "CHR 0x0A \<notin> set (json_text (event_json ev))"
  using json_text_plain [OF event_json_ok, of ev] by (auto simp: list_all_iff)

lemma json_sink_log:
  "fold json_sink_emit evs (Some out) =
     Some (out @ concat (map (\<lambda>l. l @ [CHR 0x0A]) (map (\<lambda>ev. json_text (event_json ev)) (filter (\<lambda>ev. \<not> is_off ev) evs))))"
proof (induction evs arbitrary: out)
  case (Cons ev evs)
  obtain level event flds where ev: "ev = TraceEvent level event flds" by (cases ev)
  have "json_sink_emit ev (Some out) = Some (if is_off ev then out else out @ json_text (event_json ev) @ [CHR 0x0A])"
    by (simp add: ev json_sink_emit_def is_off_def json_format_eq del: event_json.simps)
  with Cons.IH show ?case by (simp del: event_json.simps)
qed simp

text \<open>
  The JSON log is one document per line and loses nothing: whatever events are emitted, with
  any strings as names, keys and values, splitting the log at its newlines and reading each line
  returns exactly the documents of the events that are not \<open>Off\<close>, in order.
\<close>

theorem json_log_reads_back:
  "map_option (\<lambda>log. map parse_json (split_lines [] log)) (fold json_sink_emit evs (Some []))
     = Some (map (\<lambda>ev. Some (event_json ev)) (filter (\<lambda>ev. \<not> is_off ev) evs))"
proof -
  have "split_lines [] (concat (map (\<lambda>l. l @ [CHR 0x0A]) (map (\<lambda>ev. json_text (event_json ev)) evs))) = map (\<lambda>ev. json_text (event_json ev)) evs" for evs
    by (rule split_lines_log) (simp add: event_text_one_line del: event_json.simps)
  then show ?thesis
    by (simp add: json_sink_log parse_json_text event_json_ok comp_def del: event_json.simps map_map)
      (simp add: parse_json_text event_json_ok del: event_json.simps)
qed

section \<open>The layout of a frame\<close>

text \<open>The sixteen bytes of a field.\<close>

definition zero_pad :: "nat \<Rightarrow> byte list \<Rightarrow> byte list" where
  "zero_pad n bs = bs @ replicate (n - length bs) 0"

fun value_bytes :: "trace_field \<Rightarrow> byte list" where
  "value_bytes (FStr _ v) = zero_pad 8 (chars (take 8 v))"
| "value_bytes (FI64 _ v) = put_u64_le v"
| "value_bytes (FU64 _ v) = put_u64_le v"
| "value_bytes (FF64 _ v) = put_u64_le v"
| "value_bytes (FBool _ v) = zero_pad 8 [if v then 1 else 0]"

definition field_bytes :: "trace_field \<Rightarrow> byte list" where
  "field_bytes f = kind_code f # of_nat (min (length (field_key f)) 6) # zero_pad 6 (chars (take 6 (field_key f))) @ value_bytes f"

definition head_bytes :: "u64 \<Rightarrow> trace_level \<Rightarrow> nat \<Rightarrow> nat \<Rightarrow> byte list" where
  "head_bytes seq level count room = put_u64_le seq @ level_code level # of_nat count # put_u16 (of_nat room)"

lemma length_chars [simp]: "length (chars s) = length s"
  by (simp add: chars_def)

lemma length_zero_pad [simp]: "length bs \<le> n \<Longrightarrow> length (zero_pad n bs) = n"
  by (simp add: zero_pad_def)

lemma length_value_bytes [simp]: "length (value_bytes f) = 8"
  by (cases f) simp_all

lemma length_field_bytes [simp]: "length (field_bytes f) = 16"
  by (simp add: field_bytes_def)

lemma length_head_bytes [simp]: "length (head_bytes seq level n r) = 12"
  by (simp add: head_bytes_def)

text \<open>Copying into zeros that follow a prefix.\<close>

lemma copy_to_zeros:
  assumes "p = length as" "length bs \<le> k"
  shows "copy_to p bs (as @ replicate k 0 @ r) = as @ bs @ replicate (k - length bs) 0 @ r"
  using assms by (simp add: copy_to_def)

lemma write_value_zeros:
  assumes "length as = p + 8"
  shows "write_value p f (as @ replicate 8 0 @ r) = as @ value_bytes f @ r"
  using assms by (cases f) (simp_all add: copy_to_zeros zero_pad_def min_def)

lemma replicate_cut: "k \<le> n \<Longrightarrow> replicate n x = replicate k x @ replicate (n - k) x"
  by (simp flip: replicate_add)

lemma write_field_zeros:
  assumes "length as = p"
  shows "write_field p f (as @ replicate 16 0 @ r) = as @ field_bytes f @ r"
proof -
  let ?k = "min (length (field_key f)) 6" and ?key = "chars (take 6 (field_key f))"
  let ?as = "as @ [kind_code f, of_nat ?k]"
  have key: "take ?k (field_key f) = take 6 (field_key f)" by (simp add: min_def)
  have 1: "copy_to (p + 1) [of_nat ?k] (copy_to p [kind_code f] (as @ replicate 16 0 @ r)) = ?as @ replicate 6 0 @ replicate 8 0 @ r"
    using assms copy_to_zeros [of p as "[kind_code f]" 16 r] copy_to_zeros [of "p + 1" "as @ [kind_code f]" "[of_nat ?k]" 15 r]
      replicate_cut [of 6 14 "0 :: byte"] by simp
  have 2: "copy_to (p + 2) ?key (?as @ replicate 6 0 @ replicate 8 0 @ r) = (?as @ zero_pad 6 ?key) @ replicate 8 0 @ r"
    using assms copy_to_zeros [of "p + 2" ?as ?key 6 "replicate 8 0 @ r"] by (simp add: zero_pad_def)
  have 3: "write_value p f ((?as @ zero_pad 6 ?key) @ replicate 8 0 @ r) = (?as @ zero_pad 6 ?key) @ value_bytes f @ r"
    by (rule write_value_zeros) (simp add: assms)
  show ?thesis
    unfolding write_field_def Let_def MAX_KEY_BYTES_def key 1 2 3 by (simp add: field_bytes_def)
qed

lemma write_fields_zeros:
  assumes "length as = p"
  shows "write_fields p fs (as @ replicate (16 * length fs) 0 @ r) = as @ concat (map field_bytes fs) @ r"
  using assms
proof (induction fs arbitrary: as p)
  case (Cons f fs)
  have "replicate (16 * length (f # fs)) (0 :: byte) = replicate 16 0 @ replicate (16 * length fs) 0"
    by (simp flip: replicate_add)
  then have "write_field p f (as @ replicate (16 * length (f # fs)) 0 @ r) = (as @ field_bytes f) @ replicate (16 * length fs) 0 @ r"
    using write_field_zeros [OF Cons.prems, of f "replicate (16 * length fs) 0 @ r"] by simp
  with Cons.IH [of "as @ field_bytes f" "p + 16"] Cons.prems show ?case by (simp add: FIELD_BYTES_def)
qed simp

lemma frame_fits: "12 + name_room event + 16 * max_fields event \<le> 256" "name_room event \<le> 64" "11 \<le> max_fields event" "max_fields event \<le> 15"
proof -
  show r: "name_room event \<le> 64" by (simp add: name_room_def MAX_NAME_LEN_def)
  then show "12 + name_room event + 16 * max_fields event \<le> 256"
    using times_div_less_eq_dividend [of 16 "244 - name_room event"] by (simp add: max_fields_def FRAME_BYTES_def FIELD_BYTES_def)
  have "(180 :: nat) div 16 \<le> (244 - name_room event) div 16" "(244 - name_room event) div 16 \<le> 244 div (16 :: nat)"
    using r by (intro div_le_mono; simp)+
  then show "11 \<le> max_fields event" "max_fields event \<le> 15" by (simp_all add: max_fields_def FRAME_BYTES_def FIELD_BYTES_def)
qed

lemma frame_layout:
  fixes event :: string and flds :: "trace_field list"
  defines "fs \<equiv> take (max_fields event) flds"
  shows "frame_bytes seq level event flds =
    head_bytes seq level (length fs) (name_room event) @ chars (take 64 event) @ concat (map field_bytes fs)
      @ replicate (244 - name_room event - 16 * length fs) 0"
proof -
  let ?n = "name_room event" and ?c = "length fs"
  have take_min: "take ?c flds = fs" "min (length flds) (max_fields event) = ?c"
    "take ?n event = take 64 event" "length (take 64 event) = ?n"
    by (simp_all add: fs_def name_room_def MAX_NAME_LEN_def min_def)
  have c: "16 * ?c \<le> 244 - ?n" "?n \<le> 244" using frame_fits(1,2) [of event] by (simp_all add: fs_def)
  have h1: "copy_to 8 [level_code level] (copy_to 0 (put_u64_le seq) (replicate 256 0)) = (put_u64_le seq @ [level_code level]) @ replicate 247 0 @ []"
    using copy_to_zeros [of 0 "[]" "put_u64_le seq" 256 "[]"] copy_to_zeros [of 8 "put_u64_le seq" "[level_code level]" 248 "[]"] by simp
  have h2: "copy_to 10 (put_u16 (of_nat ?n)) (copy_to 9 [of_nat ?c] ((put_u64_le seq @ [level_code level]) @ replicate 247 0 @ []))
      = head_bytes seq level ?c ?n @ replicate 244 0 @ []"
    using copy_to_zeros [of 9 "put_u64_le seq @ [level_code level]" "[of_nat ?c]" 247 "[]"]
      copy_to_zeros [of 10 "put_u64_le seq @ [level_code level, of_nat ?c]" "put_u16 (of_nat ?n)" 246 "[]"]
    by (simp add: head_bytes_def)
  have h3: "copy_to 12 (chars (take 64 event)) (head_bytes seq level ?c ?n @ replicate 244 0 @ [])
      = (head_bytes seq level ?c ?n @ chars (take 64 event)) @ replicate (16 * ?c) 0 @ replicate (244 - ?n - 16 * ?c) 0"
    using copy_to_zeros [of 12 "head_bytes seq level ?c ?n" "chars (take 64 event)" 244 "[]"] c take_min(4)
      replicate_cut [OF c(1), of "0 :: byte"] by simp
  have h4: "write_fields (12 + ?n) fs ((head_bytes seq level ?c ?n @ chars (take 64 event)) @ replicate (16 * ?c) 0 @ replicate (244 - ?n - 16 * ?c) 0)
      = (head_bytes seq level ?c ?n @ chars (take 64 event)) @ concat (map field_bytes fs) @ replicate (244 - ?n - 16 * ?c) 0"
    by (rule write_fields_zeros) (simp add: take_min(4) [symmetric] del: length_take)
  show ?thesis
    unfolding frame_bytes_def Let_def FRAME_BYTES_def take_min h1 h2 h3 h4 by simp
qed

lemma length_concat_fields: "length (concat (map field_bytes fs)) = 16 * length fs"
  by (induction fs) simp_all

lemma length_frame_bytes [simp]: "length (frame_bytes seq level event flds) = FRAME_BYTES"
proof -
  have "length (take 64 event) = name_room event" by (simp add: name_room_def MAX_NAME_LEN_def min_def)
  moreover have "16 * length (take (max_fields event) flds) \<le> 244 - name_room event" "name_room event \<le> 244"
    using frame_fits(1,2) [of event] by simp_all
  ultimately show ?thesis
    unfolding frame_layout by (simp add: FRAME_BYTES_def length_concat_fields del: length_take)
qed

section \<open>Decoding a frame\<close>

definition byte_chars :: "byte list \<Rightarrow> string" where
  "byte_chars bs = map (\<lambda>b. char_of (unat b)) bs"

text \<open>A string slot is padded with zeros and has no length, so the decoder cuts the zeros at its end off.\<close>

definition cut_nuls :: "string \<Rightarrow> string" where
  "cut_nuls s = rev (dropWhile (\<lambda>c. c = char_of (0 :: nat)) (rev s))"

definition decode_field :: "byte list \<Rightarrow> trace_field option" where
  "decode_field b =
     (let key = byte_chars (take (unat (b ! 1)) (drop 2 b)); val = drop 8 b in
      if b ! 0 = 0 then Some (FStr key (cut_nuls (byte_chars (take 8 val))))
      else if b ! 0 = 1 then Some (FI64 key (get_u64_le val))
      else if b ! 0 = 2 then Some (FU64 key (get_u64_le val))
      else if b ! 0 = 3 then Some (FF64 key (get_u64_le val))
      else if b ! 0 = 4 then Some (FBool key (val ! 0 \<noteq> 0))
      else None)"

definition decode_level :: "byte \<Rightarrow> trace_level option" where
  "decode_level b = (if b = 1 then Some Warn else if b = 2 then Some Info else if b = 3 then Some Debug else None)"

text \<open>The sequence number and the event of a frame.\<close>

definition decode_frame :: "byte list \<Rightarrow> (u64 \<times> trace_event) option" where
  "decode_frame b =
     (let room = unat (get_u16 (drop 10 b));
          fs = map (\<lambda>i. decode_field (take 16 (drop (12 + room + 16 * i) b))) [0..<unat (b ! 9)]
      in case decode_level (b ! 8) of
           None \<Rightarrow> None
         | Some level \<Rightarrow>
             if None \<in> set fs then None
             else Some (get_u64_le b, TraceEvent level (byte_chars (take room (drop 12 b))) (map the fs)))"

text \<open>What of a field is kept.\<close>

fun shorten :: "trace_field \<Rightarrow> trace_field" where
  "shorten (FStr k v) = FStr (take 6 k) (cut_nuls (take 8 v))"
| "shorten (FI64 k v) = FI64 (take 6 k) v"
| "shorten (FU64 k v) = FU64 (take 6 k) v"
| "shorten (FF64 k v) = FF64 (take 6 k) v"
| "shorten (FBool k v) = FBool (take 6 k) v"

lemma unat_of_char: "unat (of_char c :: byte) = of_char c"
proof -
  have "(of_char c :: byte) = of_nat (of_char c)" by (rule of_nat_of_char [symmetric])
  moreover have "of_char c < (256 :: nat)" by simp
  ultimately show ?thesis by (simp only: unat_of_nat) (simp add: take_bit_eq_mod)
qed

lemma byte_chars_chars [simp]: "byte_chars (chars s) = s"
  by (induction s) (simp_all add: byte_chars_def chars_def unat_of_char)

lemma byte_chars_append: "byte_chars (a @ b) = byte_chars a @ byte_chars b"
  by (simp add: byte_chars_def)

lemma byte_chars_zeros: "byte_chars (replicate k 0) = replicate k (char_of (0 :: nat))"
  by (simp add: byte_chars_def)

lemma dropWhile_replicate: "P c \<Longrightarrow> dropWhile P (replicate k c @ xs) = dropWhile P xs"
  by (induction k arbitrary: xs) simp_all

lemma cut_nuls_padded [simp]: "cut_nuls (s @ replicate k (char_of (0 :: nat))) = cut_nuls s"
  by (simp add: cut_nuls_def dropWhile_replicate)

lemma cut_nuls_none: "char_of (0 :: nat) \<notin> set s \<Longrightarrow> cut_nuls s = s"
  by (cases s rule: rev_cases) (auto simp: cut_nuls_def)

lemma decode_field_bytes: "decode_field (field_bytes f) = Some (shorten f)"
proof -
  let ?k = "chars (take 6 (field_key f))" and ?n = "min (length (field_key f)) 6"
  have parts: "field_bytes f ! 0 = kind_code f" "unat (field_bytes f ! 1) = ?n"
    by (simp_all add: field_bytes_def unat_of_nat take_bit_eq_mod)
  have "drop 2 (field_bytes f) = zero_pad 6 ?k @ value_bytes f" by (simp add: field_bytes_def numeral_2_eq_2)
  moreover have "length ?k = ?n" by simp
  ultimately have key: "byte_chars (take (unat (field_bytes f ! 1)) (drop 2 (field_bytes f))) = take 6 (field_key f)"
    unfolding parts zero_pad_def append_assoc by (metis append_eq_conv_conj byte_chars_chars)
  have "drop 8 (field_bytes f) = drop 6 (zero_pad 6 ?k @ value_bytes f)"
    by (simp add: field_bytes_def numeral_eq_Suc)
  then have val: "drop 8 (field_bytes f) = value_bytes f" by simp
  have u64: "get_u64_le (put_u64_le v) = v" for v using get_put_u64 [of v "[]"] by simp
  show ?thesis
    unfolding decode_field_def Let_def key val parts(1)
    by (cases f) (simp_all add: u64 zero_pad_def byte_chars_append byte_chars_zeros)
qed

lemma concat_fields_slice:
  "i < length fs \<Longrightarrow> take 16 (drop (16 * i) (concat (map field_bytes fs) @ r)) = field_bytes (fs ! i)"
proof (induction fs arbitrary: i)
  case (Cons f fs)
  then show ?case by (cases i) (simp_all add: add.commute [of 16] flip: drop_drop)
qed simp

lemma frame_seq: "get_u64_le (frame_bytes seq level event flds) = seq"
  by (simp add: frame_layout head_bytes_def get_put_u64)

lemma frame_level: "frame_bytes seq level event flds ! 8 = level_code level"
  by (simp add: frame_layout head_bytes_def nth_append)

lemma frame_count: "unat (frame_bytes seq level event flds ! 9) = length (take (max_fields event) flds)"
proof -
  have "length (take (max_fields event) flds) < 256" using frame_fits(4) [of event] by simp
  then show ?thesis by (simp add: frame_layout head_bytes_def nth_append unat_of_nat take_bit_eq_mod del: length_take)
qed

lemma frame_room: "unat (get_u16 (drop 10 (frame_bytes seq level event flds))) = name_room event"
  using frame_fits(2) [of event] by (simp add: frame_layout head_bytes_def unat_of_nat take_bit_eq_mod)

lemma frame_body:
  "drop 12 (frame_bytes seq level event flds) =
     chars (take 64 event) @ concat (map field_bytes (take (max_fields event) flds))
       @ replicate (244 - name_room event - 16 * length (take (max_fields event) flds)) 0"
  by (simp add: frame_layout)

lemma level_decodes: "level \<noteq> Off \<Longrightarrow> decode_level (level_code level) = Some level"
  by (cases level) (simp_all add: decode_level_def)

text \<open>
  Claim C37.  A frame of the binary sink has 256 bytes and decodes: an offline decoder that follows the layout
  recovers the sequence number, the level, the event name up to 64 bytes and, in order, the fields that
  fit, which are always at least the first eleven: their kinds, their keys up to six bytes, their
  numeric and boolean values exactly, and of a string the first eight bytes, without the zero bytes at their end because no
  length is stored: a string with no zero byte in it comes back as its first eight bytes.
\<close>

theorem frame_decodes:
  "level \<noteq> Off \<Longrightarrow>
     length (frame_bytes seq level event flds) = 256
     \<and> decode_frame (frame_bytes seq level event flds)
       = Some (seq, TraceEvent level (take 64 event) (map shorten (take (max_fields event) flds)))
     \<and> 11 \<le> max_fields event
     \<and> (char_of (0 :: nat) \<notin> set v \<longrightarrow> shorten (FStr k v) = FStr (take 6 k) (take 8 v))"
proof (intro conjI)
  assume level: "level \<noteq> Off"
  let ?b = "frame_bytes seq level event flds" and ?fs = "take (max_fields event) flds" and ?n = "name_room event"
  have len: "length (chars (take 64 event)) = ?n" by (simp add: name_room_def MAX_NAME_LEN_def min_def)
  have name: "byte_chars (take ?n (drop 12 ?b)) = take 64 event"
    unfolding frame_body using len by (metis append_eq_conv_conj byte_chars_chars)
  have "decode_field (take 16 (drop (12 + ?n + 16 * i) ?b)) = Some (shorten (?fs ! i))" if "i < length ?fs" for i
  proof -
    have "drop (12 + ?n + 16 * i) ?b = drop (16 * i) (drop ?n (drop 12 ?b))" by (simp add: ac_simps)
    also have "drop ?n (drop 12 ?b) = concat (map field_bytes ?fs) @ replicate (244 - ?n - 16 * length ?fs) 0"
      unfolding frame_body using len by simp
    finally show ?thesis by (simp only: concat_fields_slice [OF that] decode_field_bytes)
  qed
  then have fs: "map (\<lambda>i. decode_field (take 16 (drop (12 + ?n + 16 * i) ?b))) [0..<length ?fs] = map (\<lambda>f. Some (shorten f)) ?fs"
    by (intro nth_equalityI) simp_all
  show "decode_frame ?b = Some (seq, TraceEvent level (take 64 event) (map shorten ?fs))"
    unfolding decode_frame_def Let_def frame_room frame_count frame_level level_decodes [OF level] fs name frame_seq
    by (simp add: comp_def image_iff)
  show "char_of (0 :: nat) \<notin> set v \<longrightarrow> shorten (FStr k v) = FStr (take 6 k) (take 8 v)"
    using cut_nuls_none [of "take 8 v"] by (auto dest: in_set_takeD)
qed (simp_all add: frame_fits(3) FRAME_BYTES_def)

theorem frame_decodes_witness:
  "decode_frame (frame_bytes 3 Info ''tick'' [FU64 ''number_of_robots'' 7, FStr ''id'' ''0123456789'', FStr ''who'' ''ab''])
     = Some (3, TraceEvent Info ''tick'' [FU64 ''number'' 7, FStr ''id'' ''01234567'', FStr ''who'' ''ab''])"
  using frame_decodes [of Info 3 "''tick''" "[FU64 ''number_of_robots'' 7, FStr ''id'' ''0123456789'', FStr ''who'' ''ab'']" "''0123456789''"  "''id''"]
    frame_decodes [of Info 3 "''tick''" "[]" "''ab''" "''who''"]
  by (simp add: max_fields_def name_room_def MAX_NAME_LEN_def FRAME_BYTES_def FIELD_BYTES_def char_of_def)

end
