(* ===== verification/Trace_Ring.thy ===== *)
theory Trace_Ring
  imports Trace_Sinks
begin

text \<open>
  The ring of \<open>BinaryTraceSink\<close> (src/core/binary_trace_sink.cpp) refines the drop-oldest queue of
  \<open>Bounded_Queue\<close>: \<open>bt_queue\<close> maps the flat buffer and its word-sized indices to the ring of that theory,
  \<open>store_frame\<close> to its \<open>push\<close>, and \<open>peek_oldest\<close> with \<open>pop_oldest\<close> to its \<open>pop\<close>.  \<open>bt_inv\<close> is the
  invariant, for a capacity of \<open>2\<^sup>k\<close> frames with \<open>k < 56\<close>, the range in which the size of the buffer does not wrap.
\<close>

section \<open>The ring is a drop-oldest queue\<close>

lemma unat_pow2: "k < 64 \<Longrightarrow> unat (2 ^ k :: u64) = 2 ^ k"
proof -
  assume "k < 64"
  then have "(2 :: nat) ^ k < 2 ^ 64" by (intro power_strict_increasing) simp_all
  moreover have "(2 ^ k :: u64) = of_nat (2 ^ k)" by simp
  ultimately show ?thesis by (simp only: unat_of_nat) (simp add: take_bit_eq_mod)
qed

lemma floor_pow2_loop_spec:
  "unat p = 2 ^ j \<Longrightarrow> j < 64 \<Longrightarrow> p \<le> n \<Longrightarrow>
     \<exists>k < 64. floor_pow2_loop n p = 2 ^ k \<and> 2 ^ k \<le> unat n \<and> unat n < 2 ^ Suc k"
proof (induction n p arbitrary: j rule: floor_pow2_loop.induct)
  case (1 n p)
  have p: "p = 2 ^ j" using 1(2,3) by (simp add: word_unat_eq_iff unat_pow2)
  have n: "unat n < 2 ^ 64" using unsigned_less [of n] by simp
  show ?case
  proof (cases "j = 63")
    case True
    then have "push_bit 1 p = 0" unfolding p by simp
    then have "floor_pow2_loop n p = p" by (simp add: floor_pow2_loop.simps [of n p])
    then show ?thesis using True 1(2,4) n p by (intro exI [of _ 63]) (simp add: word_le_nat_alt)
  next
    case False
    then have j: "Suc j < 64" using 1(3) by simp
    have "push_bit 1 p = 2 ^ Suc j" unfolding p by (simp add: push_bit_eq_mult)
    then have dbl: "unat (push_bit 1 p) = 2 ^ Suc j" using j by (simp only: unat_pow2)
    show ?thesis
    proof (cases "push_bit 1 p \<le> n")
      case True
      have "p < push_bit 1 p" using dbl 1(2) by (simp add: word_less_nat_alt)
      with 1(1) [OF _ dbl j] True show ?thesis by (simp add: floor_pow2_loop.simps [of n p])
    next
      case False
      then have "floor_pow2_loop n p = p" by (simp add: floor_pow2_loop.simps [of n p])
      moreover have "unat n < 2 ^ Suc j" using False dbl by (simp add: word_le_nat_alt)
      ultimately show ?thesis using 1(2-4) p by (intro exI [of _ j]) (simp add: word_le_nat_alt)
    qed
  qed
qed

lemma floor_pow2_spec: "n \<noteq> 0 \<Longrightarrow> \<exists>k < 64. floor_pow2 n = 2 ^ k \<and> 2 ^ k \<le> unat n \<and> unat n < 2 ^ Suc k"
  using floor_pow2_loop_spec [of 1 0 n] unat_gt_0 [of n] by (simp add: floor_pow2_def word_le_nat_alt Suc_le_eq)

definition bt_inv :: "nat \<Rightarrow> binary_sink \<Rightarrow> bool" where
  "bt_inv k s \<longleftrightarrow> k < 56 \<and> bt_capacity s = 2 ^ k \<and> bt_mask s = 2 ^ k - 1 \<and> length (bt_buffer s) = 2 ^ k * FRAME_BYTES
     \<and> unat (bt_head s) < 2 ^ k \<and> unat (bt_size s) \<le> 2 ^ k"

text \<open>The slots of the buffer, and the queue of \<open>Bounded_Queue\<close> they stand for.\<close>

definition slots :: "nat \<Rightarrow> byte list \<Rightarrow> byte list list" where
  "slots N buf = map (\<lambda>i. take FRAME_BYTES (drop (i * FRAME_BYTES) buf)) [0..<N]"

definition bt_queue :: "nat \<Rightarrow> binary_sink \<Rightarrow> byte list bqueue" where
  "bt_queue k s = \<lparr>bq_buffer = slots (2 ^ k) (bt_buffer s),
     bq_head = (unat (bt_head s) + 2 ^ k - unat (bt_size s)) mod 2 ^ k, bq_tail = unat (bt_head s),
     bq_size = unat (bt_size s), bq_dropped_count = ucast (bt_dropped s), bq_overflow_events = ucast (bt_dropped s)\<rparr>"

definition bt_frames :: "nat \<Rightarrow> binary_sink \<Rightarrow> byte list list" where
  "bt_frames k s = bq_list (2 ^ k) (bt_queue k s)"

definition bt_pop :: "binary_sink \<Rightarrow> byte list option \<times> binary_sink" where
  "bt_pop s = (peek_oldest s, snd (pop_oldest s))"

lemma unat_and_mask: "k < 64 \<Longrightarrow> unat ((x :: u64) AND (2 ^ k - 1)) = unat x mod 2 ^ k"
  by (simp only: mask_eq_exp_minus_1 [symmetric] take_bit_eq_mask [symmetric] unsigned_take_bit_eq) (simp add: take_bit_eq_mod)

lemma pow2_frames: "k < 56 \<Longrightarrow> (2 :: nat) ^ k * 256 < 2 ^ 64" "k < 56 \<Longrightarrow> (2 :: nat) ^ k \<le> 2 ^ 55"
proof -
  assume "k < 56"
  then show le: "(2 :: nat) ^ k \<le> 2 ^ 55" by (intro power_increasing) simp_all
  then show "(2 :: nat) ^ k * 256 < 2 ^ 64" by simp
qed

lemma unat_frame_offset: "k < 56 \<Longrightarrow> unat i < 2 ^ k \<Longrightarrow> unat ((i :: u64) * of_nat FRAME_BYTES) = unat i * FRAME_BYTES"
proof -
  assume "k < 56" "unat i < 2 ^ k"
  then have "unat i * 256 < 2 ^ 64" using pow2_frames(1) [of k] by simp
  then show ?thesis by (simp add: FRAME_BYTES_def unat_word_ariths)
qed

lemma slot_copy:
  assumes "length buf = N * FRAME_BYTES" "h < N" "length f = FRAME_BYTES"
  shows "slots N (copy_to (h * FRAME_BYTES) f buf) = (slots N buf)[h := f]" "length (copy_to (h * FRAME_BYTES) f buf) = length buf"
proof -
  have "h * 256 + 256 \<le> N * 256" using assms(2) by (simp flip: add_mult_distrib2 mult_Suc)
  then show "length (copy_to (h * FRAME_BYTES) f buf) = length buf" using assms by (simp add: copy_to_def FRAME_BYTES_def)
  have "take 256 (drop (i * 256) (copy_to (h * 256) f buf)) = (if i = h then f else take 256 (drop (i * 256) buf))" if "i < N" for i
  proof -
    consider "i = h" | "i < h" | "h < i" by linarith
    then show ?thesis
    proof cases
      case 1
      then show ?thesis using assms by (simp add: copy_to_def FRAME_BYTES_def)
    next
      case 2
      then have "256 \<le> h * 256 - i * 256" by simp
      then show ?thesis using 2 assms by (simp add: copy_to_def FRAME_BYTES_def drop_take min_def del: diff_mult_distrib)
    next
      case 3
      then have "h * 256 + 256 \<le> i * 256" by simp
      then show ?thesis using 3 assms by (simp add: copy_to_def FRAME_BYTES_def)
    qed
  qed
  then show "slots N (copy_to (h * FRAME_BYTES) f buf) = (slots N buf)[h := f]"
    using assms by (intro nth_equalityI) (simp_all add: slots_def nth_list_update FRAME_BYTES_def)
qed

lemma bt_queue_inv: "bt_inv k s \<Longrightarrow> bq_inv (2 ^ k) (bt_queue k s)"
proof -
  assume s: "bt_inv k s"
  then have "((unat (bt_head s) + 2 ^ k - unat (bt_size s)) mod 2 ^ k + unat (bt_size s)) mod 2 ^ k = unat (bt_head s)"
    by (simp add: bt_inv_def mod_add_left_eq)
  with s show ?thesis by (simp add: bq_inv_def bt_queue_def slots_def bt_inv_def)
qed

lemma head_step:
  "bt_inv k s \<Longrightarrow> unat ((bt_head s + 1) AND bt_mask s) = (unat (bt_head s) + 1) mod 2 ^ k"
proof -
  assume s: "bt_inv k s"
  then have "unat (bt_head s + 1) = unat (bt_head s) + 1"
    using pow2_frames(2) [of k] by (simp add: bt_inv_def unat_word_ariths)
  with s show ?thesis by (simp add: bt_inv_def unat_and_mask)
qed

lemma mod_shift: "h < N \<Longrightarrow> z < N \<Longrightarrow> ((h + 1) mod N + N - (z + 1)) mod N = (h + N - z) mod (N :: nat)"
  by (cases "h + 1 = N") (auto simp: mod_if)

lemma ucast_Suc: "(ucast (x + 1 :: u64) :: u32) = ucast x + 1"
proof -
  have "(of_nat (unat (x + 1)) :: u32) = of_nat (unat x + 1)"
    by (simp only: unat_word_ariths word_of_nat_eq_iff) (simp add: take_bit_eq_mod mod_mod_cancel)
  then show ?thesis by simp
qed

text \<open>Storing a frame is a push.\<close>

lemma store_frame_push:
  assumes "bt_inv k s" "length f = FRAME_BYTES"
  shows "\<exists>s'. store_frame f s = Inr s' \<and> bt_inv k s' \<and> bt_queue k s' = snd (bq_push (2 ^ k) DropOldest f (bt_queue k s))
    \<and> bt_wall_seq s' = bt_wall_seq s \<and> bt_total_emits s' = bt_total_emits s
    \<and> bt_dropped s' = bt_dropped s + (if unat (bt_size s) = 2 ^ k then 1 else 0)"
proof -
  let ?N = "2 ^ k :: nat" and ?h = "unat (bt_head s)" and ?z = "unat (bt_size s)"
  from assms(1) have k: "k < 56" and inv: "bt_capacity s = 2 ^ k" "bt_mask s = 2 ^ k - 1" "length (bt_buffer s) = ?N * FRAME_BYTES"
    "?h < ?N" "?z \<le> ?N" by (simp_all add: bt_inv_def)
  have full: "bt_size s = bt_capacity s \<longleftrightarrow> ?z = ?N" using k inv(1) by (simp add: word_unat_eq_iff unat_pow2)
  have "bt_head s AND bt_mask s = bt_head s" using k inv(4) unfolding inv(2) by (simp add: word_unat_eq_iff unat_and_mask)
  then have off: "unat ((bt_head s AND bt_mask s) * of_nat FRAME_BYTES) = ?h * FRAME_BYTES"
    using unat_frame_offset [OF k inv(4)] by simp
  have room: "?h * FRAME_BYTES + FRAME_BYTES \<le> length (bt_buffer s)"
    using inv(3,4) mult_le_mono1 [of "Suc ?h" ?N FRAME_BYTES] by simp
  note slot = slot_copy [OF inv(3,4) assms(2)]
  note head = head_step [OF assms(1)]
  have zs: "?z < ?N \<Longrightarrow> unat (bt_size s + 1) = ?z + 1" using pow2_frames(2) [OF k] by (simp add: unat_word_ariths)
  have N: "0 < ?N" by simp
  show ?thesis
  proof (cases "?z = ?N")
    case True
    let ?s = "s\<lparr>bt_dropped := bt_dropped s + 1, bt_head := (bt_head s + 1) AND bt_mask s, bt_buffer := copy_to (?h * FRAME_BYTES) f (bt_buffer s)\<rparr>"
    have "store_frame f s = Inr ?s" using True room full off by (simp add: store_frame_def)
    moreover have "bt_inv k ?s" using k inv slot(2) head N by (simp add: bt_inv_def)
    moreover have "bt_queue k ?s = snd (bq_push ?N DropOldest f (bt_queue k s))"
      using True inv(4) slot(1) head by (simp add: bt_queue_def bq_push_def next_index_def ucast_Suc)
    ultimately show ?thesis using True by simp
  next
    case False
    then have z: "?z < ?N" using inv(5) by simp
    let ?s = "s\<lparr>bt_size := bt_size s + 1, bt_head := (bt_head s + 1) AND bt_mask s, bt_buffer := copy_to (?h * FRAME_BYTES) f (bt_buffer s)\<rparr>"
    have "store_frame f s = Inr ?s" using False room full off by (simp add: store_frame_def)
    moreover have "bt_inv k ?s" using k inv slot(2) head zs [OF z] z N by (simp add: bt_inv_def)
    moreover have "bt_queue k ?s = snd (bq_push ?N DropOldest f (bt_queue k s))"
      using False slot(1) head zs [OF z] mod_shift [OF inv(4) z] by (simp add: bt_queue_def bq_push_def next_index_def)
    ultimately show ?thesis using False by simp
  qed
qed

lemma peek_pop:
  assumes "bt_inv k s"
  shows "fst (bt_pop s) = fst (bq_pop (2 ^ k) (bt_queue k s))" "bt_queue k (snd (bt_pop s)) = snd (bq_pop (2 ^ k) (bt_queue k s))"
    "bt_inv k (snd (bt_pop s))"
proof -
  let ?N = "2 ^ k :: nat" and ?h = "unat (bt_head s)" and ?z = "unat (bt_size s)"
  from assms(1) have k: "k < 56" and inv: "bt_capacity s = 2 ^ k" "bt_mask s = 2 ^ k - 1" "?h < ?N" "?z \<le> ?N" by (simp_all add: bt_inv_def)
  have zero: "bt_size s = 0 \<longleftrightarrow> ?z = 0" by (simp add: unat_eq_0)
  have sum: "unat (bt_head s + bt_capacity s) = ?h + ?N"
    using k inv pow2_frames(2) [OF k] by (simp add: unat_word_ariths unat_pow2)
  then have "bt_size s \<le> bt_head s + bt_capacity s" using inv(4) by (simp add: word_le_nat_alt)
  from unat_sub [OF this] have "unat (bt_head s + bt_capacity s - bt_size s) = ?h + ?N - ?z" by (simp only: sum)
  then have old: "unat ((bt_head s + bt_capacity s - bt_size s) AND bt_mask s) = (?h + ?N - ?z) mod ?N"
    using k unfolding inv(2) by (simp add: unat_and_mask)
  let ?o = "(?h + ?N - ?z) mod ?N"
  have "frame_at s ((bt_head s + bt_capacity s - bt_size s) AND bt_mask s) = slots ?N (bt_buffer s) ! ?o"
    using unat_frame_offset [OF k, of "(bt_head s + bt_capacity s - bt_size s) AND bt_mask s"] old
    by (simp add: frame_at_def slots_def)
  then show "fst (bt_pop s) = fst (bq_pop ?N (bt_queue k s))"
    by (simp add: bt_pop_def peek_oldest_def bq_pop_def bt_queue_def zero)
  have dec: "?z \<noteq> 0 \<Longrightarrow> unat (bt_size s - 1) = ?z - 1" by (simp add: unat_sub word_le_nat_alt)
  have o: "?z \<noteq> 0 \<Longrightarrow> (?h + ?N - (?z - 1)) mod ?N = (?o + 1) mod ?N" using inv(4) by (simp add: mod_Suc_eq Suc_diff_le)
  show "bt_queue k (snd (bt_pop s)) = snd (bq_pop ?N (bt_queue k s))"
    using dec o by (cases "?z = 0") (simp_all add: bt_pop_def pop_oldest_def bq_pop_def bt_queue_def zero next_index_def)
  show "bt_inv k (snd (bt_pop s))"
    using assms dec by (cases "?z = 0") (auto simp: bt_pop_def pop_oldest_def bt_inv_def zero)
qed

text \<open>Reading the ring is reading a first-in first-out queue of frames.\<close>

lemma bt_fifo: "fifo (bt_frames k) (bt_inv k) bt_pop"
proof
  fix s x xs
  assume s: "bt_inv k s"
  note q = bt_queue_inv [OF s] and pp = peek_pop [OF s]
  have sz: "bt_frames k s = [] \<longleftrightarrow> bt_size s = 0" by (simp add: bt_frames_def) (simp add: bt_queue_def unat_eq_0)
  show "bt_frames k s = [] \<Longrightarrow> bt_pop s = (None, s)"
    unfolding sz by (simp add: bt_pop_def peek_oldest_def pop_oldest_def)
  assume "bt_frames k s = x # xs"
  then obtain q' where "bq_pop (2 ^ k) (bt_queue k s) = (Some x, q')" "bq_list (2 ^ k) q' = xs"
    using bq_pop_Some [OF q] by (auto simp: bt_frames_def)
  with pp show "\<exists>s'. bt_pop s = (Some x, s') \<and> bt_frames k s' = xs \<and> bt_inv k s'"
    by (intro exI [of _ "snd (bt_pop s)"]) (auto simp: bt_frames_def prod_eq_iff)
qed

interpretation trace_ring: fifo "bt_frames 8" "bt_inv 8" bt_pop
  by (rule bt_fifo)

subsection \<open>A run of events\<close>

text \<open>The frames of a list of events, numbered from \<open>seq\<close> on.\<close>

fun numbered_frames :: "u64 \<Rightarrow> trace_event list \<Rightarrow> byte list list" where
  "numbered_frames seq [] = []"
| "numbered_frames seq (TraceEvent level event flds # evs) =
     (if level = Off then numbered_frames seq evs else frame_bytes seq level event flds # numbered_frames (seq + 1) evs)"

lemma length_numbered_frames: "length (numbered_frames seq evs) = length (filter (\<lambda>ev. \<not> is_off ev) evs)"
  by (induction seq evs rule: numbered_frames.induct) (simp_all add: is_off_def)

lemma bt_queue_counters [simp]:
  "bt_queue k (s\<lparr>bt_total_emits := a\<rparr>) = bt_queue k s" "bt_queue k (s\<lparr>bt_wall_seq := b\<rparr>) = bt_queue k s"
  "bt_inv k (s\<lparr>bt_total_emits := a\<rparr>) = bt_inv k s" "bt_inv k (s\<lparr>bt_wall_seq := b\<rparr>) = bt_inv k s"
  by (simp_all add: bt_queue_def bt_inv_def)

lemma emit_push:
  fixes event :: string and flds :: "trace_field list"
  assumes "bt_inv k s" "level \<noteq> Off"
  defines "f \<equiv> frame_bytes (bt_wall_seq s) level event flds"
  shows "\<exists>s'. binary_sink_emit (TraceEvent level event flds) s = Inr s' \<and> bt_inv k s'
    \<and> bt_queue k s' = snd (bq_push (2 ^ k) DropOldest f (bt_queue k s))
    \<and> bt_wall_seq s' = bt_wall_seq s + 1 \<and> bt_total_emits s' = bt_total_emits s + 1
    \<and> bt_dropped s' = bt_dropped s + (if unat (bt_size s) = 2 ^ k then 1 else 0)"
proof -
  let ?s = "s\<lparr>bt_total_emits := bt_total_emits s + 1\<rparr>"
  from store_frame_push [of k ?s f] assms(1) obtain s' where "store_frame f ?s = Inr s'" "bt_inv k s'"
    "bt_queue k s' = snd (bq_push (2 ^ k) DropOldest f (bt_queue k s))"
    "bt_wall_seq s' = bt_wall_seq s" "bt_total_emits s' = bt_total_emits s + 1"
    "bt_dropped s' = bt_dropped s + (if unat (bt_size s) = 2 ^ k then 1 else 0)"
    by (auto simp: f_def)
  with assms(2) show ?thesis by (intro exI [of _ "s'\<lparr>bt_wall_seq := bt_wall_seq s + 1\<rparr>"])
      (simp add: binary_sink_emit_def f_def)
qed

lemma emits_push:
  assumes "bt_inv k s"
  defines "n \<equiv> \<lambda>evs. length (filter (\<lambda>ev. \<not> is_off ev) evs)"
  shows "\<exists>s'. rfold binary_sink_emit evs s = Inr s' \<and> bt_inv k s'
    \<and> bt_queue k s' = push_all (bq_push (2 ^ k) DropOldest) (numbered_frames (bt_wall_seq s) evs) (bt_queue k s)
    \<and> bt_total_emits s' = bt_total_emits s + of_nat (n evs)
    \<and> bt_dropped s' = bt_dropped s + of_nat (unat (bt_size s) + n evs - 2 ^ k)"
  using assms(1)
proof (induction evs arbitrary: s)
  case Nil
  then show ?case by (simp add: push_all_def n_def bt_inv_def)
next
  case (Cons ev evs)
  obtain level event flds where ev: "ev = TraceEvent level event flds" by (cases ev)
  show ?case
  proof (cases "level = Off")
    case True
    then show ?thesis using Cons ev by (simp add: binary_sink_emit_def n_def is_off_def)
  next
    case False
    let ?N = "2 ^ k :: nat" and ?z = "unat (bt_size s)"
    from emit_push [OF Cons.prems False, of event flds] obtain s1 where s1: "binary_sink_emit ev s = Inr s1" "bt_inv k s1"
      "bt_queue k s1 = snd (bq_push ?N DropOldest (frame_bytes (bt_wall_seq s) level event flds) (bt_queue k s))"
      "bt_wall_seq s1 = bt_wall_seq s + 1" "bt_total_emits s1 = bt_total_emits s + 1"
      "bt_dropped s1 = bt_dropped s + (if ?z = ?N then 1 else 0)" by (auto simp: ev)
    from Cons.IH [OF s1(2)] obtain s2 where s2: "rfold binary_sink_emit evs s1 = Inr s2" "bt_inv k s2"
      "bt_queue k s2 = push_all (bq_push ?N DropOldest) (numbered_frames (bt_wall_seq s1) evs) (bt_queue k s1)"
      "bt_total_emits s2 = bt_total_emits s1 + of_nat (n evs)" "bt_dropped s2 = bt_dropped s1 + of_nat (unat (bt_size s1) + n evs - ?N)"
      by blast
    have z: "?z \<le> ?N" using Cons.prems by (simp add: bt_inv_def)
    have "bq_size (bt_queue k s1) = min ?N (Suc ?z)" unfolding s1(3) using z by (subst bq_push_size_count) (simp_all add: bt_queue_def)
    then have z1: "unat (bt_size s1) = min ?N (Suc ?z)" by (simp add: bt_queue_def)
    have nev: "n (ev # evs) = Suc (n evs)" using False by (simp add: n_def ev is_off_def)
    define m m' where "m = unat (bt_size s1) + n evs - ?N" and "m' = ?z + n (ev # evs) - ?N"
    have "m' = (if ?z = ?N then 1 else 0) + m"
      unfolding m_def m'_def using z z1 by (cases "?z = ?N") (auto simp: nev min_def)
    then have "(of_nat m' :: u64) = (if ?z = ?N then 1 else 0) + of_nat m" by simp
    then have drops: "bt_dropped s2 = bt_dropped s + of_nat m'" using s1(6) s2(5) by (simp add: m_def [symmetric] add.assoc)
    show ?thesis
      using s1(1,3-5) s2(1-4) False nev drops unfolding m'_def by (intro exI [of _ s2]) (simp add: ev push_all_def add.assoc)
  qed
qed

lemma bt_new_inv:
  assumes "unat capacity < 2 ^ 56" "capacity \<noteq> 0"
  obtains k where "bt_inv k (binary_sink_new capacity)" "bt_frames k (binary_sink_new capacity) = []"
    "2 ^ k \<le> unat capacity" "unat capacity < 2 ^ Suc k"
proof -
  obtain k where k: "floor_pow2 capacity = 2 ^ k" "2 ^ k \<le> unat capacity" "unat capacity < 2 ^ Suc k"
    using floor_pow2_spec [OF assms(2)] by blast
  have "(2 :: nat) ^ k < 2 ^ 56" using k(2) assms(1) by linarith
  then have "k < 56" using power_less_imp_less_exp [of "2 :: nat" k 56] by simp
  moreover have "unat (2 ^ k * of_nat FRAME_BYTES :: u64) = 2 ^ k * FRAME_BYTES"
    using pow2_frames(1) [OF \<open>k < 56\<close>] \<open>k < 56\<close> by (simp add: FRAME_BYTES_def unat_word_ariths unat_pow2)
  ultimately have "bt_inv k (binary_sink_new capacity)" using assms(2) k(1) by (simp add: bt_inv_def binary_sink_new_def Let_def)
  moreover have "bt_frames k (binary_sink_new capacity) = []" by (simp add: bt_frames_def) (simp add: bt_queue_def binary_sink_new_def Let_def)
  ultimately show thesis using that k(2,3) by blast
qed

text \<open>
  Claim C15.  The binary sink of any capacity below \<open>2\<^sup>5\<^sup>6\<close> is a queue of the newest events: it rounds the
  capacity down to a power of two, and whatever events are emitted it never writes outside of its
  buffer, holds the newest frames up to that capacity, and reading with \<open>peek_oldest\<close> and
  \<open>pop_oldest\<close> until it is empty returns them, oldest first, numbered in the order of their emission
  without a gap.  The counters are exact modulo \<open>2\<^sup>6\<^sup>4\<close>: every event that is not \<open>Off\<close> was counted, and
  what is neither held nor read was counted as dropped.
\<close>

theorem binary_trace_keeps_newest:
  assumes "capacity \<noteq> 0" "unat capacity < 2 ^ 56"
  shows "\<exists>k s. 2 ^ k \<le> unat capacity \<and> unat capacity < 2 ^ Suc k
    \<and> rfold binary_sink_emit evs (binary_sink_new capacity) = Inr s
    \<and> (let frames = numbered_frames 0 evs; n = length frames in
        unat (bt_held s) = min n (2 ^ k) \<and> bt_total_emits s = of_nat n \<and> bt_dropped s = of_nat (n - 2 ^ k)
      \<and> (\<exists>s'. drain_loop bt_pop (Suc (2 ^ k)) s = Some (drop (n - 2 ^ k) frames, s') \<and> bt_held s' = 0))"
proof -
  let ?new = "binary_sink_new capacity"
  obtain k where k: "bt_inv k ?new" "bt_frames k ?new = []" "2 ^ k \<le> unat capacity" "unat capacity < 2 ^ Suc k"
    using bt_new_inv [OF assms(2,1)] by blast
  have new: "bt_wall_seq ?new = 0" "bt_size ?new = 0" "bt_total_emits ?new = 0" "bt_dropped ?new = 0"
    by (simp_all add: binary_sink_new_def Let_def)
  define fs where "fs = numbered_frames 0 evs"
  obtain s where s: "rfold binary_sink_emit evs ?new = Inr s" "bt_inv k s"
    "bt_queue k s = push_all (bq_push (2 ^ k) DropOldest) fs (bt_queue k ?new)"
    "bt_total_emits s = of_nat (length fs)" "bt_dropped s = of_nat (length fs - 2 ^ k)"
    using emits_push [OF k(1), of evs] new by (auto simp: fs_def length_numbered_frames)
  have frames: "bt_frames k s = drop (length fs - 2 ^ k) fs"
    using drop_oldest_fifo.push_all_keeps_newest [OF bq_drop_oldest_fifo bt_queue_inv [OF k(1)], of fs] k(2)
    by (simp add: bt_frames_def s(3))
  moreover have size: "length (bt_frames k s) = unat (bt_size s)" by (simp add: bt_frames_def) (simp add: bt_queue_def)
  ultimately have held: "unat (bt_held s) = min (length fs) (2 ^ k)" by (auto simp: bt_held_def min_def)
  then have "length (bt_frames k s) < Suc (2 ^ k)" using size by (simp add: bt_held_def)
  from fifo.drain_loop_all [OF bt_fifo s(2) this] obtain s' where
    s': "drain_loop bt_pop (Suc (2 ^ k)) s = Some (bt_frames k s, s')" "bt_frames k s' = []" by blast
  have "bt_held s' = 0" using s'(2) by (simp add: bt_frames_def bt_held_def) (simp add: bt_queue_def unat_eq_0)
  with k(3,4) s(1,4,5) held s'(1) show ?thesis unfolding frames Let_def fs_def [symmetric] by blast
qed

theorem binary_trace_keeps_newest_witness:
  "\<exists>k s. 2 ^ k \<le> unat (3 :: u64) \<and> unat (3 :: u64) < 2 ^ Suc k
    \<and> rfold binary_sink_emit [TraceEvent Info ''a'' [], TraceEvent Off ''b'' [], TraceEvent Warn ''c'' [], TraceEvent Info ''d'' []]
        (binary_sink_new 3) = Inr s \<and> bt_total_emits s = 3"
  using binary_trace_keeps_newest [of 3 "[TraceEvent Info ''a'' [], TraceEvent Off ''b'' [], TraceEvent Warn ''c'' [], TraceEvent Info ''d'' []]"]
  by (simp add: Let_def) blast

text \<open>
  The constructor does not guard the product of the capacity and the frame size: with \<open>2\<^sup>5\<^sup>6\<close> frames the
  number of bytes wraps to zero, the allocation succeeds, and the first event is written outside of
  the empty buffer.
\<close>

theorem huge_capacity_overruns:
  "level \<noteq> Off \<Longrightarrow> binary_sink_emit (TraceEvent level event flds) (binary_sink_new (2 ^ 56))
     = Inl (Undefined ''write outside of the trace buffer'')"
proof -
  obtain k where k: "floor_pow2 (2 ^ 56) = 2 ^ k" "(2 :: nat) ^ k \<le> 2 ^ 56" "(2 :: nat) ^ 56 < 2 ^ Suc k"
    using floor_pow2_spec [of "2 ^ 56"] unat_pow2 [of 56] by auto
  have "k \<le> 56" "56 < Suc k"
    using power_le_imp_le_exp [OF _ k(2)] power_less_imp_less_exp [OF _ k(3)] by simp_all
  then have "k = 56" by simp
  then have "bt_buffer (binary_sink_new (2 ^ 56)) = []"
    using k(1) by (simp add: binary_sink_new_def Let_def FRAME_BYTES_def)
  moreover assume "level \<noteq> Off"
  ultimately show ?thesis by (simp add: binary_sink_emit_def store_frame_def Let_def FRAME_BYTES_def)
qed

end
