(* ===== verification/Observability.thy ===== *)
theory Observability
  imports World_Lifecycle Trace_Ring
begin

text \<open>
  What can be observed of a running node: the snapshot of the self entity (src/core/registry.cpp), the
  trace of a world with a sink attached (\<open>World::set_trace_sink\<close>, \<open>emit_registered_event_\<close>,
  \<open>emit_tick_event_\<close>), the timings of the scheduler and \<open>World::dump_state\<close> (src/core/world.cpp).

  The registry and the world of the model keep their logs apart; in the code they share one sink.
\<close>

section \<open>The snapshot\<close>

definition snapshot_default :: entity_snapshot where
  "snapshot_default = \<lparr>snap_id = INVALID_ENTITY, snap_hid = hid_default, snap_position = position_default,
     snap_velocity = velocity_default, snap_orientation = orientation_default, snap_health = health_default,
     snap_role = 0, snap_state = 0\<rparr>"

text \<open>The assignment of a component to its field.\<close>

fun snapshot_set :: "component \<Rightarrow> entity_snapshot \<Rightarrow> entity_snapshot" where
  "snapshot_set (CIdentity v) p = p\<lparr>snap_hid := v\<rparr>"
| "snapshot_set (CPosition v) p = p\<lparr>snap_position := v\<rparr>"
| "snapshot_set (CVelocity v) p = p\<lparr>snap_velocity := v\<rparr>"
| "snapshot_set (COrientation v) p = p\<lparr>snap_orientation := v\<rparr>"
| "snapshot_set (CHealth v) p = p\<lparr>snap_health := v\<rparr>"
| "snapshot_set (CRole v) p = p\<lparr>snap_role := v\<rparr>"
| "snapshot_set (CBehaviour v) p = p\<lparr>snap_state := v\<rparr>"
| "snapshot_set _ p = p"

definition snapshot_types :: "ctype list" where
  "snapshot_types = [IdentityT, PositionT, VelocityT, OrientationT, HealthT, RoleT, BehaviourT]"

definition registry_snapshot :: "u32 \<Rightarrow> component registry \<Rightarrow> entity_snapshot res" where
  "registry_snapshot i r =
     (if i \<noteq> SELF_ENTITY then Inl (Abort ''snapshot: id != SELF_ENTITY (v0.1 N=1)'')
      else rfold (\<lambda>t p. if reg_has t i r then rmap (\<lambda>v. snapshot_set v p) (reg_get t i r) else Inr p)
             snapshot_types (snapshot_default\<lparr>snap_id := i\<rparr>))"

section \<open>Sinks\<close>

definition registry_set_trace_sink :: "trace_event list option \<Rightarrow> 'v registry \<Rightarrow> 'v registry" where
  "registry_set_trace_sink sink r = r\<lparr>reg_sink := sink\<rparr>"

definition world_set_trace_sink :: "trace_event list option \<Rightarrow> node \<Rightarrow> node" where
  "world_set_trace_sink sink nd =
     nd\<lparr>nd_robot := set_world (\<lambda>w. w\<lparr>w_sink := sink\<rparr>) (nd_robot nd),
        nd_registry := registry_set_trace_sink sink (nd_registry nd)\<rparr>"

section \<open>The tick with its timings\<close>

text \<open>\<open>World::tick\<close> as \<open>world_tick\<close>, with the readings of the clock that the scheduler records.\<close>

definition world_tick_timed ::
  "u32 \<Rightarrow> (nat \<Rightarrow> u64 \<times> u64) \<Rightarrow> auth_build \<Rightarrow> (nat \<Rightarrow> u32) \<Rightarrow> keypair \<Rightarrow> node \<Rightarrow> node res" where
  "world_tick_timed tid us auth rd kp nd =
     rbind (tick_begin (nd_robot nd)) (\<lambda>rb.
     rbind (scheduler_tick tid us (nd_scheduler nd) (Inr rb)) (\<lambda>(sc, ticked).
     rbind ticked (\<lambda>rb.
     let rb = set_world (emit_tick_event (length (sc_systems sc))) rb in
     rmap (\<lambda>rb. nd\<lparr>nd_robot := rb, nd_scheduler := sc\<rparr>) (tick_end auth rd kp rb))))"

text \<open>In a parallel tick the thread that has run system \<open>i\<close> writes its slot before the system counts as
  completed; \<open>tids i\<close> is the hash of that thread.\<close>

definition record_parallel_timings :: "(nat \<Rightarrow> u32) \<Rightarrow> (nat \<Rightarrow> u64 \<times> u64) \<Rightarrow> 's pconf \<Rightarrow> 's scheduler \<Rightarrow> 's scheduler" where
  "record_parallel_timings tids us c s = s\<lparr>sc_timings := fold (\<lambda>i. record_timing (tids i) us i) (p_finished c) (sc_timings s)\<rparr>"

section \<open>\<open>dump_state\<close>\<close>

definition write_xyz :: "string \<Rightarrow> string \<Rightarrow> string \<Rightarrow> f32 \<Rightarrow> f32 \<Rightarrow> f32 \<Rightarrow> json_writer \<Rightarrow> json_writer" where
  "write_xyz kx ky kz x y z w =
     (let w = begin_object w;
          w = write_f64 (f64_of_f32 x) (json_key kx w);
          w = write_f64 (f64_of_f32 y) (json_key ky w);
          w = write_f64 (f64_of_f32 z) (json_key kz w)
      in end_object w)"

definition dump_self :: "self_state \<Rightarrow> json_writer \<Rightarrow> json_writer" where
  "dump_self s w =
     (let w = begin_object w;
          w = write_string (hid_to_string (self_identity s)) (json_key ''id'' w);
          pos = self_position s;
          w = write_xyz ''x'' ''y'' ''z'' (pos_x pos) (pos_y pos) (pos_z pos) (json_key ''position'' w);
          vel = self_velocity s;
          w = write_xyz ''vx'' ''vy'' ''vz'' (vel_x vel) (vel_y vel) (vel_z vel) (json_key ''velocity'' w);
          w = write_u64 (ucast (self_health s)) (json_key ''health'' w);
          w = write_u64 (ucast (self_role s)) (json_key ''role'' w);
          w = write_u64 (ucast (self_behaviour s)) (json_key ''state'' w);
          aq = self_actions s;
          w = write_u64 (of_nat (bq_size (aq_queue aq))) (json_key ''action_queue_size'' w);
          w = write_u64 (ucast (bq_dropped_count (aq_queue aq))) (json_key ''action_queue_dropped'' w);
          w = write_u64 (ucast (aq_permission_rejections_total aq)) (json_key ''permission_rejections'' w);
          cb = self_comm s;
          w = write_u64 (of_nat (bq_size cb)) (json_key ''comm_buffer_size'' w);
          w = write_u64 (ucast (bq_dropped_count cb)) (json_key ''comm_buffer_dropped'' w)
      in end_object w)"

definition dump_neighbour :: "nt_entry \<Rightarrow> json_writer \<Rightarrow> json_writer" where
  "dump_neighbour n w =
     (let w = begin_object w;
          w = write_string (hid_to_string (ne_hid n)) (json_key ''id'' w);
          w = write_f64 (f64_of_f32 (ne_last_seen_s n)) (json_key ''last_seen_s'' w);
          pos = ne_position n;
          w = write_xyz ''x'' ''y'' ''z'' (pos_x pos) (pos_y pos) (pos_z pos) (json_key ''position'' w)
      in end_object w)"

definition dump_timing :: "system_timing \<Rightarrow> json_writer \<Rightarrow> json_writer" where
  "dump_timing t w =
     (let w = begin_object w;
          w = write_string (ti_name t) (json_key ''name'' w);
          w = write_f64 (ti_start_us t) (json_key ''start_us'' w);
          w = write_f64 (ti_duration_us t) (json_key ''duration_us'' w);
          w = write_u64 (ucast (ti_thread_id t)) (json_key ''thread_id'' w)
      in end_object w)"

text \<open>Before \<open>init\<close> the self entity is left out.\<close>

definition dump_state :: "node \<Rightarrow> string" where
  "dump_state nd =
     (let wd = rb_world (nd_robot nd); ctx = w_context wd; nt = w_neighbours wd; sc = nd_scheduler nd;
          w = begin_object json_writer_new;
          w = write_u64 (ucast (cfg_swarm_id (w_config wd))) (json_key ''swarm_id'' w);
          w = write_u64 (ctx_tick_count ctx) (json_key ''tick'' w);
          w = write_f64 (f64_of_f32 (ctx_elapsed_time_s ctx)) (json_key ''elapsed_time_s'' w);
          w = write_bool (w_initialized wd) (json_key ''initialized'' w);
          w = (if w_initialized wd then dump_self (w_self wd) (json_key ''self'' w) else w);
          w = write_u64 (of_nat (nt_count nt)) (json_key ''neighbour_count'' w);
          w = write_u64 (nt_total_observations nt) (json_key ''neighbour_observations'' w);
          w = write_u64 (nt_total_evictions nt) (json_key ''neighbour_evictions'' w);
          w = end_array (fold dump_neighbour (nt_entries nt) (begin_array (json_key ''neighbours'' w)));
          w = begin_object (json_key ''scheduler'' w);
          w = write_u64 (of_nat (length (sc_systems sc))) (json_key ''system_count'' w);
          w = end_array (fold dump_timing (sc_timings sc) (begin_array (json_key ''last_tick_timings'' w)));
          w = end_object w;
          w = end_object w
      in fst (json_take w))"

section \<open>The snapshot of an initialised node\<close>

lemma snapshot_step:
  assumes "self_in r s" "(t, v) \<in> set (components_of s)"
  shows "reg_has t SELF_ENTITY r" "reg_get t SELF_ENTITY r = Inr v"
proof -
  have b: "bound t r" "reg_value t r = Some v" using assms by (auto simp: self_in_def list_all_iff)
  then show get: "reg_get t SELF_ENTITY r = Inr v" by (simp add: get_bound_res)
  obtain st where "map_of (reg_stores r) (component_id t) = Some st" "st_type_tag st = ct_tag t" using b(1) by (auto simp: bound_def)
  with b(2) get_bound [of r t st] show "reg_has t SELF_ENTITY r" by (simp add: reg_has_def)
qed

text \<open>
  A snapshot of a registry that holds a self state is that state: it succeeds and every one of
  its fields is the component's current value.  For an empty registry every field has its default, and
  for any other entity the call aborts.
\<close>

theorem snapshot_is_self:
  assumes "self_in r s"
  shows "registry_snapshot SELF_ENTITY r = Inr \<lparr>snap_id = SELF_ENTITY, snap_hid = self_identity s,
      snap_position = self_position s, snap_velocity = self_velocity s, snap_orientation = self_orientation s,
      snap_health = self_health s, snap_role = self_role s, snap_state = self_behaviour s\<rparr>
    \<and> registry_snapshot SELF_ENTITY (registry_new policy) = Inr (snapshot_default\<lparr>snap_id := SELF_ENTITY\<rparr>)
    \<and> (i \<noteq> SELF_ENTITY \<longrightarrow> isl (registry_snapshot i r))"
proof (intro conjI)
  have st: "list_all (\<lambda>(t, v). reg_has t SELF_ENTITY r \<and> reg_get t SELF_ENTITY r = Inr v) (components_of s)"
    using snapshot_step [OF assms] by (auto simp: list_all_iff)
  show "registry_snapshot SELF_ENTITY r = Inr \<lparr>snap_id = SELF_ENTITY, snap_hid = self_identity s,
      snap_position = self_position s, snap_velocity = self_velocity s, snap_orientation = self_orientation s,
      snap_health = self_health s, snap_role = self_role s, snap_state = self_behaviour s\<rparr>"
    unfolding registry_snapshot_def snapshot_types_def
    using st by (simp add: components_of_def snapshot_default_def)
  show "registry_snapshot SELF_ENTITY (registry_new policy) = Inr (snapshot_default\<lparr>snap_id := SELF_ENTITY\<rparr>)"
    by (simp add: registry_snapshot_def snapshot_types_def reg_has_def registry_new_def)
qed (simp add: registry_snapshot_def)

theorem snapshot_is_self_witness:
  "\<exists>r. registry_init hid_default (registry_new Open) = Inr r
     \<and> registry_snapshot SELF_ENTITY r = Inr (snapshot_default\<lparr>snap_id := SELF_ENTITY\<rparr>)"
proof -
  obtain r where r: "registry_init hid_default (registry_new Open) = Inr r" "self_in r (self_default hid_default)"
    using registry_init_facts [of "registry_new Open" hid_default] no_collision_new by (auto simp: registry_new_def)
  with snapshot_is_self [OF r(2)] show ?thesis by (simp add: self_default_def snapshot_default_def)
qed

section \<open>The dumped state is a document\<close>

definition f32_json :: "f32 \<Rightarrow> json" where
  "f32_json x = f64_json (f64_of_f32 x)"

definition u64_json :: "u64 \<Rightarrow> json" where
  "u64_json v = JNum (u64_numeral v)"

definition xyz_json :: "string \<Rightarrow> string \<Rightarrow> string \<Rightarrow> f32 \<Rightarrow> f32 \<Rightarrow> f32 \<Rightarrow> json" where
  "xyz_json kx ky kz x y z = JObj [(kx, f32_json x), (ky, f32_json y), (kz, f32_json z)]"

definition position_json :: "position \<Rightarrow> json" where
  "position_json p = xyz_json ''x'' ''y'' ''z'' (pos_x p) (pos_y p) (pos_z p)"

definition velocity_json :: "velocity \<Rightarrow> json" where
  "velocity_json v = xyz_json ''vx'' ''vy'' ''vz'' (vel_x v) (vel_y v) (vel_z v)"

definition self_json :: "self_state \<Rightarrow> json" where
  "self_json s =
     JObj [(''id'', JStr (hid_to_string (self_identity s))), (''position'', position_json (self_position s)),
       (''velocity'', velocity_json (self_velocity s)), (''health'', u64_json (ucast (self_health s))),
       (''role'', u64_json (ucast (self_role s))), (''state'', u64_json (ucast (self_behaviour s))),
       (''action_queue_size'', u64_json (of_nat (bq_size (aq_queue (self_actions s))))),
       (''action_queue_dropped'', u64_json (ucast (bq_dropped_count (aq_queue (self_actions s))))),
       (''permission_rejections'', u64_json (ucast (aq_permission_rejections_total (self_actions s)))),
       (''comm_buffer_size'', u64_json (of_nat (bq_size (self_comm s)))),
       (''comm_buffer_dropped'', u64_json (ucast (bq_dropped_count (self_comm s))))]"

definition neighbour_json :: "nt_entry \<Rightarrow> json" where
  "neighbour_json n =
     JObj [(''id'', JStr (hid_to_string (ne_hid n))), (''last_seen_s'', f32_json (ne_last_seen_s n)),
       (''position'', position_json (ne_position n))]"

definition timing_json :: "system_timing \<Rightarrow> json" where
  "timing_json t =
     JObj [(''name'', JStr (ti_name t)), (''start_us'', f64_json (ti_start_us t)), (''duration_us'', f64_json (ti_duration_us t)),
       (''thread_id'', u64_json (ucast (ti_thread_id t)))]"

definition node_json :: "node \<Rightarrow> json" where
  "node_json nd =
     (let wd = rb_world (nd_robot nd); ctx = w_context wd; nt = w_neighbours wd; sc = nd_scheduler nd in
      JObj ([(''swarm_id'', u64_json (ucast (cfg_swarm_id (w_config wd)))), (''tick'', u64_json (ctx_tick_count ctx)),
          (''elapsed_time_s'', f32_json (ctx_elapsed_time_s ctx)), (''initialized'', JBool (w_initialized wd))]
        @ (if w_initialized wd then [(''self'', self_json (w_self wd))] else [])
        @ [(''neighbour_count'', u64_json (of_nat (nt_count nt))), (''neighbour_observations'', u64_json (nt_total_observations nt)),
          (''neighbour_evictions'', u64_json (nt_total_evictions nt)), (''neighbours'', JArr (map neighbour_json (nt_entries nt))),
          (''scheduler'', JObj [(''system_count'', u64_json (of_nat (length (sc_systems sc)))),
             (''last_tick_timings'', JArr (map timing_json (sc_timings sc)))])]))"

lemma write_u64_json: "write_u64 v w = write_json (u64_json v) w"
  by (simp add: u64_json_def write_number_json)

lemmas write_document_simps = write_u64_json write_number_json(3) f32_json_def Let_def

lemma write_xyz_json: "write_xyz kx ky kz x y z w = write_json (xyz_json kx ky kz x y z) w"
  by (simp add: write_xyz_def xyz_json_def write_document_simps)

lemma dump_self_json: "dump_self s w = write_json (self_json s) w"
  by (simp add: dump_self_def self_json_def position_json_def velocity_json_def write_document_simps write_xyz_json)

lemma dump_neighbour_json: "dump_neighbour = (\<lambda>n. write_json (neighbour_json n))"
  by (intro ext) (simp add: dump_neighbour_def neighbour_json_def position_json_def write_document_simps write_xyz_json)

lemma dump_timing_json: "dump_timing = (\<lambda>t. write_json (timing_json t))"
  by (intro ext) (simp add: dump_timing_def timing_json_def write_document_simps)

lemma dump_state_json: "dump_state nd = fst (json_take (write_json (node_json nd) json_writer_new))"
  by (simp add: dump_state_def node_json_def write_document_simps dump_self_json dump_neighbour_json dump_timing_json fold_map comp_def)

lemma scalar_ok [simp]: "json_ok (u64_json v)" "json_ok (f64_json y)" "json_ok (f32_json x)"
  by (simp_all add: u64_json_def u64_numeral_ok f32_json_def f64_json_def g17_ok)

lemma node_json_ok: "json_ok (node_json nd)"
  by (simp add: node_json_def Let_def self_json_def neighbour_json_def timing_json_def position_json_def velocity_json_def
      xyz_json_def list_all_iff)


section \<open>The trace of a node\<close>

definition registered_event :: "ctype \<Rightarrow> trace_event" where
  "registered_event t =
     TraceEvent Info ''component_registered''
       [FStr ''origin'' ''built_in'', FStr ''type_name'' (type_name t), FStr ''type_id'' (hex16 (component_id t)), FU64 ''tick'' 0]"

lemma register_builtins_trace:
  assumes "\<not> (reg_locked r \<and> reg_policy r = LockAfterInit)" "distinct (map component_id ts)"
    and "\<forall>t \<in> set ts. map_of (reg_stores r) (component_id t) = None" "reg_sink r = Some lg"
  shows "reg_sink (fold (\<lambda>t r. snd (register_builtin_component t r)) ts r) = Some (lg @ map registered_event ts)"
  using assms
proof (induction ts arbitrary: r lg)
  case (Cons t ts)
  let ?r = "snd (register_builtin_component t r)"
  have r: "?r = emit_registered_event Built_In (type_name t) (component_id t)
      (r\<lparr>reg_stores := om_emplace (component_id t) \<lparr>st_type_tag = ct_tag t, st_origin = Built_In, st_value = None\<rparr> (reg_stores r)\<rparr>)"
    using Cons.prems(1,3) by (auto simp: register_builtin_component_def register_impl_def Let_def)
  have "reg_sink ?r = Some (lg @ [registered_event t])"
    unfolding r using Cons.prems(4) by (simp add: emit_registered_event_def registered_event_def)
  moreover have "\<forall>t' \<in> set ts. component_id t' \<noteq> component_id t" using Cons.prems(2) by (metis distinct.simps(2) image_eqI list.set_map list.simps(9))
  then have "\<forall>t' \<in> set ts. map_of (reg_stores ?r) (component_id t') = None" "\<not> (reg_locked ?r \<and> reg_policy ?r = LockAfterInit)"
    unfolding r using Cons.prems by (auto simp: map_of_om_emplace)
  ultimately show ?case using Cons.IH [of ?r "lg @ [registered_event t]"] Cons.prems(2) by simp
qed simp

lemma emplace_keeps_sink: "reg_emplace t i v r = Inr r' \<Longrightarrow> reg_sink r' = reg_sink r"
  by (auto simp: reg_emplace_def rmap_eq_Inr_iff split: if_splits option.splits)

lemma registry_init_trace:
  assumes "registry_init h (registry_set_trace_sink (Some []) (registry_new policy)) = Inr r"
  shows "reg_sink r = Some (map registered_event builtin_types)"
proof -
  let ?r0 = "registry_set_trace_sink (Some []) (registry_new policy) :: component registry"
  let ?r1 = "fold (\<lambda>t r. snd (register_builtin_component t r)) builtin_types ?r0"
  obtain r2 where r2: "rfold (\<lambda>(t, v). reg_emplace t SELF_ENTITY v) (default_components h) ?r1 = Inr r2" "r = registry_lock r2"
    using assms by (auto simp: registry_init_def Let_def rmap_eq_Inr_iff)
  have "reg_sink ?r1 = Some ([] @ map registered_event builtin_types)"
    by (rule register_builtins_trace) (simp_all add: registry_set_trace_sink_def registry_new_def builtin_ids_distinct)
  moreover have "reg_sink r2 = reg_sink ?r1"
    using r2(1) by (rule rfold_invariant) (auto dest: emplace_keeps_sink)
  ultimately show ?thesis using r2(2) by (simp add: registry_lock_def)
qed

lemma build_graph_systems: "build_graph hc s = (Ok, s') \<Longrightarrow> sc_systems s' = sc_systems s \<and> sc_built s'"
  by (auto simp: build_graph_def Let_def split: if_splits)

definition tick_event :: "world \<Rightarrow> nat \<Rightarrow> trace_event" where
  "tick_event w n =
     (let c = w_context w in
      TraceEvent Info ''tick_completed''
        [FU64 ''tick'' (ctx_tick_count c), FF64 ''delta_time_s'' (f64_of_f32 (ctx_delta_time_s c)), FU64 ''system_count'' (of_nat n),
         FU64 ''swarm_id'' (ucast (ctx_swarm_id c))])"

lemma tick_end_sink: "tick_end auth rd kp rb = Inr rb' \<Longrightarrow> w_sink (rb_world rb') = w_sink (rb_world rb)"
  by (auto simp: tick_end_def rotate_identity_def rmap_eq_Inr_iff Let_def set_self_def split: if_splits option.splits)

lemma tick_begin_frame:
  assumes "tick_begin rb = Inr rb'"
  shows "w_self (rb_world rb') = w_self (rb_world rb)" "w_sink (rb_world rb') = w_sink (rb_world rb)"
    "w_context (rb_world rb') = w_context (advance_context (rb_world rb))"
  using assms by (auto simp: tick_begin_def set_world_def advance_context_def decay_merge_window_def Let_def split: if_splits)



section \<open>Timings\<close>

lemma record_timings_length: "length (fold (\<lambda>i. record_timing (tids i) us i) is ts) = length ts"
  by (induction "is" arbitrary: ts) (simp_all add: record_timing_def)

lemma record_timings_nth:
  assumes "distinct is" "set is = {..<length ts}" "i < length ts"
  shows "fold (\<lambda>i. record_timing (tids i) us i) is ts ! i =
    (ts ! i)\<lparr>ti_start_us := fst (us i), ti_duration_us := snd (us i), ti_thread_id := tids i\<rparr>"
proof -
  have "fold (\<lambda>i. record_timing (tids i) us i) js us' ! i = (if i \<in> set js
      then (us' ! i)\<lparr>ti_start_us := fst (us i), ti_duration_us := snd (us i), ti_thread_id := tids i\<rparr> else us' ! i)"
    if "distinct js" "set js \<subseteq> {..<length us'}" "length us' = length ts" for js us'
    using that
  proof (induction js arbitrary: us')
    case (Cons j js)
    then show ?case using Cons.IH [of "record_timing (tids j) us j us'"] assms(3)
      by (auto simp: record_timing_def nth_list_update)
  qed simp
  from this [of "is" ts] assms show ?thesis by auto
qed

text \<open>A scheduler that has been built: one timing per system under its name, and an order that visits every
  system once.\<close>

definition timings_ready :: "'s system list \<Rightarrow> 's scheduler \<Rightarrow> bool" where
  "timings_ready ss s = (sc_systems s = ss \<and> map ti_name (sc_timings s) = map (\<lambda>y. sd_name (sys_describe y)) ss
     \<and> distinct (sc_order s) \<and> set (sc_order s) = {..<length ss})"

lemma build_timings: "build_graph hc s = (Ok, s') \<Longrightarrow> timings_ready (sc_systems s) s'"
  by (auto simp: build_graph_def Let_def timings_ready_def resize_timings_def system_name_def
      intro!: nth_equalityI split: if_splits)

definition timings_of :: "(nat \<Rightarrow> u32) \<Rightarrow> (nat \<Rightarrow> u64 \<times> u64) \<Rightarrow> 's system list \<Rightarrow> system_timing list" where
  "timings_of tids us ss = map (\<lambda>i. \<lparr>ti_name = sd_name (sys_describe (ss ! i)), ti_start_us = fst (us i),
     ti_duration_us = snd (us i), ti_thread_id = tids i\<rparr>) [0..<length ss]"

lemma all_recorded:
  assumes "timings_ready ss s" "distinct is" "set is = {..<length ss}"
  shows "fold (\<lambda>i. record_timing (tids i) us i) is (sc_timings s) = timings_of tids us ss"
proof -
  have names: "map ti_name (sc_timings s) = map (\<lambda>y. sd_name (sys_describe y)) ss" using assms(1) by (simp add: timings_ready_def)
  then have len: "length (sc_timings s) = length ss" by (rule map_eq_imp_length_eq)
  have name: "ti_name (sc_timings s ! i) = sd_name (sys_describe (ss ! i))" if "i < length ss" for i
    using arg_cong [OF names, of "\<lambda>xs. xs ! i"] that len by simp
  show ?thesis
  proof (rule nth_equalityI)
    fix i assume "i < length (fold (\<lambda>i. record_timing (tids i) us i) is (sc_timings s))"
    then have i: "i < length (sc_timings s)" by (simp add: record_timings_length)
    then show "fold (\<lambda>i. record_timing (tids i) us i) is (sc_timings s) ! i = timings_of tids us ss ! i"
      using record_timings_nth [OF assms(2) _ i] assms(3) len name [of i] by (simp add: timings_of_def)
  qed (simp add: record_timings_length timings_of_def len)
qed

lemma record_timings_ready:
  assumes "timings_ready ss s"
  shows "sc_timings (record_timings tid us s) = timings_of (\<lambda>_. tid) us ss" "timings_ready ss (record_timings tid us s)"
proof -
  show t: "sc_timings (record_timings tid us s) = timings_of (\<lambda>_. tid) us ss"
    using all_recorded [OF assms, of "sc_order s" "\<lambda>_. tid" us] assms by (simp add: record_timings_def timings_ready_def)
  have "map ti_name (timings_of (\<lambda>_. tid) us ss) = map (\<lambda>y. sd_name (sys_describe y)) ss"
    by (intro nth_equalityI) (simp_all add: timings_of_def)
  with assms t show "timings_ready ss (record_timings tid us s)" by (simp add: timings_ready_def record_timings_def)
qed

text \<open>In the parallel mode every worker writes the slot of the system it has run, so the timings are complete
  for whatever order the systems finished in, as long as no system was dispatched twice.\<close>

theorem parallel_timings_complete:
  assumes "build_graph hc s = (Ok, s')" "sc_mode s = Parallel" "(pstep s')\<^sup>*\<^sup>* (pstart s' w) c" "tick_over s' c" "distinct (started c)"
  shows "sc_timings (record_parallel_timings tids us c s') = timings_of tids us (sc_systems s)"
proof -
  note b = build_graph_ok [OF assms(1,2)]
  from tick_over_finished [OF b(1) assms(3-5)] b(3) show ?thesis
    by (simp add: record_parallel_timings_def all_recorded [OF build_timings [OF assms(1)]])
qed

lemma world_tick_timed_eq:
  "world_tick_timed tid us auth rd kp nd =
     rmap (\<lambda>nd'. nd'\<lparr>nd_scheduler := record_timings tid us (nd_scheduler nd)\<rparr>) (world_tick auth rd kp nd)"
  by (auto simp: world_tick_timed_def world_tick_def scheduler_tick_def record_timings_def rbind_def rmap_def Let_def split: sum.splits)

lemma world_tick_scheduler: "world_tick auth rd kp nd = Inr nd' \<Longrightarrow> nd_scheduler nd' = nd_scheduler nd"
  by (auto simp: world_tick_def rbind_eq_Inr_iff rmap_eq_Inr_iff Let_def)

lemma world_tick_timed_ready:
  assumes "world_tick_timed tid us auth rd kp nd = Inr nd'" "timings_ready ss (nd_scheduler nd)"
  shows "timings_ready ss (nd_scheduler nd')" "sc_timings (nd_scheduler nd') = timings_of (\<lambda>_. tid) us ss"
  using assms record_timings_ready [OF assms(2)] by (auto simp: world_tick_timed_eq rmap_eq_Inr_iff)

text \<open>
  Timings never influence the run and are never stale.  After a build and any number of ticks, a
  further tick leaves the state that the tick without timings leaves, and the recorded timings are those of
  that tick: one entry per registered system, at the index of the system and under its name, with
  the clock readings taken around it and the thread that ran it, whatever earlier builds and ticks left.
\<close>

theorem timings_of_last_tick:
  assumes "build_graph hc s = (Ok, nd_scheduler nd0)"
    and "rfold (\<lambda>(tid, us, rd, kp). world_tick_timed tid us auth rd kp) earlier nd0 = Inr nd"
    and "world_tick_timed tid us auth rd kp nd = Inr nd'"
  shows "world_tick auth rd kp nd = Inr (nd'\<lparr>nd_scheduler := nd_scheduler nd\<rparr>)
    \<and> sc_timings (nd_scheduler nd') = map (\<lambda>i. \<lparr>ti_name = sd_name (sys_describe (sc_systems s ! i)), ti_start_us = fst (us i),
        ti_duration_us = snd (us i), ti_thread_id = tid\<rparr>) [0..<length (sc_systems s)]"
proof
  have "timings_ready (sc_systems s) (nd_scheduler nd)"
    by (rule rfold_invariant [OF assms(2)]) (use build_timings [OF assms(1)] in \<open>auto dest: world_tick_timed_ready\<close>)
  then show "sc_timings (nd_scheduler nd') = map (\<lambda>i. \<lparr>ti_name = sd_name (sys_describe (sc_systems s ! i)), ti_start_us = fst (us i),
        ti_duration_us = snd (us i), ti_thread_id = tid\<rparr>) [0..<length (sc_systems s)]"
    using world_tick_timed_ready [OF assms(3)] by (simp add: timings_of_def)
  show "world_tick auth rd kp nd = Inr (nd'\<lparr>nd_scheduler := nd_scheduler nd\<rparr>)"
    using assms(3) by (auto simp: world_tick_timed_eq rmap_eq_Inr_iff world_tick_scheduler [symmetric])
qed

theorem timings_of_last_tick_witness:
  "\<exists>nd'. world_tick_timed 9 (\<lambda>i. (of_nat i, 5)) None (\<lambda>_. 0) \<lparr>kp_public_key = [], kp_private_key = []\<rparr> example_node = Inr nd'
     \<and> map ti_thread_id (sc_timings (nd_scheduler nd')) = replicate 12 9"
proof -
  let ?kp = "\<lparr>kp_public_key = [], kp_private_key = []\<rparr> :: keypair"
  note nd = example_node_facts
  obtain nd' where t: "world_tick_timed 9 (\<lambda>i. (of_nat i, 5)) None (\<lambda>_. 0) ?kp example_node = Inr nd'"
    using world_tick_alone [OF nd(2,1,3,4), of "\<lambda>_. 0" ?kp] nd(5) by (auto simp: world_tick_timed_eq world_config_default_def)
  have "length (sc_systems example_stack) = 12" using arg_cong [OF nd(2), of size] by (simp add: builtin_systems_def builtin_steps_def)
  then have "map ti_thread_id (sc_timings (nd_scheduler nd')) = replicate 12 9"
    using timings_of_last_tick [OF nd(1), of None "[]", OF _ t] by (simp add: map_replicate_const comp_def)
  with t show ?thesis by blast
qed

end
