(* ===== verification/Transport_Open.thy ===== *)
theory Transport_Open
  imports Transports
begin

unbundle bit_operations_syntax

text \<open>
  How the two transports acquire and release their descriptor: \<open>UDPMulticastTransport::open\<close>
  (src/comms/udp_multicast_transport.cpp), \<open>SerialTransport::open\<close> and \<open>for_fd\<close> (src/comms/serial_transport.cpp), and
  the destructors of their \<open>Impl\<close>.

  The operating system is the parameter \<open>posix\<close>.  It answers every call as it likes, from the calls made
  before; the list of calls with their answers is the state.  Port numbers and addresses are values, without their
  network byte order.
\<close>

section \<open>The operating system\<close>

text \<open>\<open>B0\<close> is the value 0 of \<open>speed_t\<close>.\<close>

datatype speed = B0 | B9600 | B19200 | B38400 | B57600 | B115200 | B230400

record termios =
  c_iflag :: u32
  c_oflag :: u32
  c_cflag :: u32
  c_lflag :: u32
  c_vmin :: byte
  c_vtime :: byte
  c_ispeed :: speed
  c_ospeed :: speed

datatype sockopt =
  SO_REUSEADDR int | SO_REUSEPORT int | IP_ADD_MEMBERSHIP u32 | IP_DROP_MEMBERSHIP u32 | IP_MULTICAST_TTL byte | IP_MULTICAST_LOOP byte

datatype syscall =
  Sys_socket | Sys_open string | Sys_setsockopt int sockopt | Sys_bind int u32 u16 | Sys_getfl int | Sys_setfl int int
| Sys_tcgetattr int | Sys_tcsetattr int termios | Sys_close int

type_synonym calls = "(syscall \<times> int) list"

record posix =
  px_answer :: "calls \<Rightarrow> syscall \<Rightarrow> int"
  px_termios :: "calls \<Rightarrow> int \<Rightarrow> termios"
  px_cfmakeraw :: "termios \<Rightarrow> termios"
  px_inet_pton :: "string \<Rightarrow> u32 option"
  px_O_NONBLOCK :: int
  px_CLOCAL :: u32
  px_CREAD :: u32
  px_CRTSCTS :: u32

definition sys :: "posix \<Rightarrow> syscall \<Rightarrow> calls \<Rightarrow> int \<times> calls" where
  "sys os c calls = (let r = px_answer os calls c in (r, calls @ [(c, r)]))"

definition set_nonblocking :: "posix \<Rightarrow> int \<Rightarrow> calls \<Rightarrow> bool \<times> calls" where
  "set_nonblocking os fd calls =
     (let (flags, calls) = sys os (Sys_getfl fd) calls in
      if flags < 0 then (False, calls)
      else let (r, calls) = sys os (Sys_setfl fd (flags OR px_O_NONBLOCK os)) calls in (r = 0, calls))"

section \<open>UDPMulticastTransport\<close>

record udp_config =
  uc_group_address :: string
  uc_port :: u16
  uc_interface_address :: string
  uc_multicast_ttl :: byte
  uc_recv_buffer_bytes :: nat
  uc_self_id :: hid

definition udp_config_default :: udp_config where
  "udp_config_default = \<lparr>uc_group_address = ''239.10.20.30'', uc_port = 47474, uc_interface_address = ''0.0.0.0'', uc_multicast_ttl = 1,
     uc_recv_buffer_bytes = 64 * 1024, uc_self_id = hid_default\<rparr>"

record udp_transport =
  ut_config :: udp_config
  ut_fd :: int
  ut_group :: u32
  ut_io :: udp_impl

text \<open>The destructor of \<open>Impl\<close>.\<close>

definition udp_destroy :: "posix \<Rightarrow> udp_transport \<Rightarrow> calls \<Rightarrow> calls" where
  "udp_destroy os impl calls =
     (if 0 \<le> ut_fd impl
      then let (_, calls) = sys os (Sys_setsockopt (ut_fd impl) (IP_DROP_MEMBERSHIP (ut_group impl))) calls;
               (_, calls) = sys os (Sys_close (ut_fd impl)) calls
           in calls
      else calls)"

text \<open>An early return destroys the \<open>unique_ptr<Impl>\<close>.\<close>

definition udp_fail :: "posix \<Rightarrow> udp_transport \<Rightarrow> calls \<Rightarrow> udp_transport option \<times> calls" where
  "udp_fail os impl calls = (None, udp_destroy os impl calls)"

text \<open>From the bind on.\<close>

definition udp_join :: "posix \<Rightarrow> udp_transport \<Rightarrow> calls \<Rightarrow> udp_transport option \<times> calls" where
  "udp_join os impl calls =
     (let fd = ut_fd impl; cfg = ut_config impl in
      case px_inet_pton os (uc_group_address cfg) of
        None \<Rightarrow> udp_fail os impl calls
      | Some grp \<Rightarrow>
          let impl = impl\<lparr>ut_group := grp\<rparr>;
              (r, calls) = sys os (Sys_setsockopt fd (IP_ADD_MEMBERSHIP grp)) calls
          in if r < 0 then udp_fail os impl calls
          else
            let (_, calls) = sys os (Sys_setsockopt fd (IP_MULTICAST_TTL (uc_multicast_ttl cfg))) calls;
                (_, calls) = sys os (Sys_setsockopt fd (IP_MULTICAST_LOOP 1)) calls;
                (ok, calls) = set_nonblocking os fd calls
            in if \<not> ok then udp_fail os impl calls
            else (Some (impl\<lparr>ut_io := (ut_io impl)\<lparr>tr_healthy := True\<rparr>\<rparr>), calls))"

definition udp_open :: "posix \<Rightarrow> udp_config \<Rightarrow> calls \<Rightarrow> udp_transport option \<times> calls" where
  "udp_open os cfg calls =
     (let (fd, calls) = sys os Sys_socket calls;
          impl = \<lparr>ut_config = cfg, ut_fd = fd, ut_group = 0, ut_io = (udp_impl_new (uc_self_id cfg))\<lparr>tr_healthy := False\<rparr>\<rparr>
      in if fd < 0 then udp_fail os impl calls
      else let (r, calls) = sys os (Sys_setsockopt fd (SO_REUSEADDR 1)) calls in
      if r < 0 then udp_fail os impl calls
      else let (r, calls) = sys os (Sys_setsockopt fd (SO_REUSEPORT 1)) calls in
      if r < 0 then udp_fail os impl calls
      else case px_inet_pton os (uc_interface_address cfg) of
        None \<Rightarrow> udp_fail os impl calls
      | Some addr \<Rightarrow>
          let (r, calls) = sys os (Sys_bind fd addr (uc_port cfg)) calls in
          if r < 0 then udp_fail os impl calls
          else udp_join os impl calls)"

section \<open>SerialTransport\<close>

definition baud_to_speed :: "u32 \<Rightarrow> speed" where
  "baud_to_speed baud =
     (if baud = 9600 then B9600 else if baud = 19200 then B19200 else if baud = 38400 then B38400
      else if baud = 57600 then B57600 else if baud = 115200 then B115200 else if baud = 230400 then B230400 else B0)"

definition raw_termios :: "posix \<Rightarrow> speed \<Rightarrow> termios \<Rightarrow> termios" where
  "raw_termios os speed tio =
     (let tio = px_cfmakeraw os tio;
          tio = tio\<lparr>c_ispeed := speed\<rparr>;
          tio = tio\<lparr>c_ospeed := speed\<rparr>;
          tio = tio\<lparr>c_cflag := c_cflag tio OR (px_CLOCAL os OR px_CREAD os)\<rparr>;
          tio = tio\<lparr>c_cflag := c_cflag tio AND NOT (px_CRTSCTS os)\<rparr>;
          tio = tio\<lparr>c_vmin := 0\<rparr>
      in tio\<lparr>c_vtime := 0\<rparr>)"

definition configure_termios :: "posix \<Rightarrow> int \<Rightarrow> u32 \<Rightarrow> calls \<Rightarrow> bool \<times> calls" where
  "configure_termios os fd baud_rate calls =
     (let speed = baud_to_speed baud_rate in
      if speed = B0 then (False, calls)
      else let (r, calls') = sys os (Sys_tcgetattr fd) calls in
      if r < 0 then (False, calls')
      else let (r, calls'') = sys os (Sys_tcsetattr fd (raw_termios os speed (px_termios os calls fd))) calls' in (r = 0, calls''))"

record serial_transport =
  sr_fd :: int
  sr_own_fd :: bool
  sr_io :: serial_impl

definition serial_destroy :: "posix \<Rightarrow> serial_transport \<Rightarrow> calls \<Rightarrow> calls" where
  "serial_destroy os impl calls = (if sr_own_fd impl \<and> 0 \<le> sr_fd impl then snd (sys os (Sys_close (sr_fd impl)) calls) else calls)"

definition serial_open :: "posix \<Rightarrow> string \<Rightarrow> u32 \<Rightarrow> calls \<Rightarrow> serial_transport option \<times> calls" where
  "serial_open os device baud_rate calls =
     (let (fd, calls) = sys os (Sys_open device) calls in
      if fd < 0 then (None, calls)
      else let (ok, calls) = configure_termios os fd baud_rate calls in
      if \<not> ok then (None, snd (sys os (Sys_close fd) calls))
      else let (ok, calls) = set_nonblocking os fd calls in
      if \<not> ok then (None, snd (sys os (Sys_close fd) calls))
      else (Some \<lparr>sr_fd = fd, sr_own_fd = True, sr_io = serial_impl_new\<rparr>, calls))"

definition serial_for_fd :: "posix \<Rightarrow> int \<Rightarrow> bool \<Rightarrow> calls \<Rightarrow> serial_transport option \<times> calls" where
  "serial_for_fd os fd own_fd calls =
     (if fd < 0 then (None, calls)
      else let (ok, calls) = set_nonblocking os fd calls in
      if \<not> ok then (None, calls)
      else (Some \<lparr>sr_fd = fd, sr_own_fd = own_fd, sr_io = serial_impl_new\<rparr>, calls))"

section \<open>Descriptors\<close>

text \<open>The descriptors a list of calls leaves open.\<close>

fun track :: "syscall \<times> int \<Rightarrow> int set \<Rightarrow> int set" where
  "track (Sys_socket, r) A = (if r < 0 then A else insert r A)"
| "track (Sys_open _, r) A = (if r < 0 then A else insert r A)"
| "track (Sys_close fd, _) A = A - {fd}"
| "track _ A = A"

definition held :: "calls \<Rightarrow> int set" where
  "held calls = fold track calls {}"

lemma held_snoc [simp]: "held (calls @ [x]) = track x (held calls)"
  by (simp add: held_def)

text \<open>POSIX: \<open>socket\<close> and \<open>open\<close> return a descriptor that is not open.\<close>

definition descriptors_fresh :: "posix \<Rightarrow> bool" where
  "descriptors_fresh os \<longleftrightarrow> (\<forall>calls d. px_answer os calls Sys_socket \<notin> held calls \<and> px_answer os calls (Sys_open d) \<notin> held calls)"

lemma sys_held: "sys os c calls = (r, calls') \<Longrightarrow> held calls' = track (c, r) (held calls) \<and> r = px_answer os calls c"
  by (auto simp: sys_def Let_def)

lemma set_nonblocking_held: "set_nonblocking os fd calls = (ok, calls') \<Longrightarrow> held calls' = held calls"
  by (auto simp: set_nonblocking_def Let_def dest!: sys_held split: prod.splits if_splits)

lemma configure_termios_held: "configure_termios os fd baud calls = (ok, calls') \<Longrightarrow> held calls' = held calls"
  by (auto simp: configure_termios_def Let_def dest!: sys_held split: prod.splits if_splits)

lemma udp_destroy_held: "held (udp_destroy os impl calls) = (if 0 \<le> ut_fd impl then held calls - {ut_fd impl} else held calls)"
  by (auto simp: udp_destroy_def dest!: sys_held split: prod.splits)

lemma udp_join_held:
  assumes "udp_join os impl calls = (t, calls')" "0 \<le> ut_fd impl"
  shows "case t of None \<Rightarrow> held calls' = held calls - {ut_fd impl} | Some t \<Rightarrow> ut_fd t = ut_fd impl \<and> held calls' = held calls"
  using assms
  by (auto simp: udp_join_def Let_def udp_fail_def udp_destroy_held dest!: sys_held set_nonblocking_held
      split: prod.splits option.splits if_splits)


section \<open>What an open transport has done\<close>

text \<open>The answers that make an open function give up; the time-to-live and loopback options and the calls
  of the destructors are not among them.\<close>

fun failed :: "syscall \<times> int \<Rightarrow> bool" where
  "failed (Sys_setsockopt _ (IP_MULTICAST_TTL _), _) = False"
| "failed (Sys_setsockopt _ (IP_MULTICAST_LOOP _), _) = False"
| "failed (Sys_setsockopt _ (IP_DROP_MEMBERSHIP _), _) = False"
| "failed (Sys_close _, _) = False"
| "failed (Sys_setfl _ _, r) = (r \<noteq> 0)"
| "failed (Sys_tcsetattr _ _, r) = (r \<noteq> 0)"
| "failed (_, r) = (r < 0)"

definition made :: "calls \<Rightarrow> calls \<Rightarrow> calls" where
  "made calls calls' = drop (length calls) calls'"

text \<open>A UDP transport is returned exactly when both addresses parse and no required call fails.  It has
  then made these calls on its descriptor, in this order; the last makes it non-blocking.\<close>

theorem udp_open_configures:
  "case udp_open os cfg calls of
     (None, calls') \<Rightarrow> (\<exists>x \<in> set (made calls calls'). failed x) \<or> px_inet_pton os (uc_interface_address cfg) = None
        \<or> px_inet_pton os (uc_group_address cfg) = None
   | (Some t, calls') \<Rightarrow> (\<exists>addr grp flags. px_inet_pton os (uc_interface_address cfg) = Some addr
        \<and> px_inet_pton os (uc_group_address cfg) = Some grp \<and> 0 \<le> flags \<and> (Sys_getfl (ut_fd t), flags) \<in> set (made calls calls')
        \<and> (\<forall>x \<in> set (made calls calls'). \<not> failed x)
        \<and> map fst (made calls calls') =
            [Sys_socket, Sys_setsockopt (ut_fd t) (SO_REUSEADDR 1), Sys_setsockopt (ut_fd t) (SO_REUSEPORT 1),
             Sys_bind (ut_fd t) addr (uc_port cfg), Sys_setsockopt (ut_fd t) (IP_ADD_MEMBERSHIP grp),
             Sys_setsockopt (ut_fd t) (IP_MULTICAST_TTL (uc_multicast_ttl cfg)), Sys_setsockopt (ut_fd t) (IP_MULTICAST_LOOP 1),
             Sys_getfl (ut_fd t), Sys_setfl (ut_fd t) (flags OR px_O_NONBLOCK os)]
        \<and> t = \<lparr>ut_config = cfg, ut_fd = ut_fd t, ut_group = grp, ut_io = udp_impl_new (uc_self_id cfg)\<rparr>)"
  by (auto simp: udp_open_def udp_join_def set_nonblocking_def udp_fail_def udp_destroy_def sys_def made_def Let_def udp_impl_new_def
      split: prod.splits option.splits if_splits)

theorem serial_open_configures:
  "case serial_open os device baud calls of
     (None, calls') \<Rightarrow> (\<exists>x \<in> set (made calls calls'). failed x) \<or> baud_to_speed baud = B0
   | (Some t, calls') \<Rightarrow> (\<exists>tio flags. baud_to_speed baud \<noteq> B0 \<and> 0 \<le> flags \<and> (Sys_getfl (sr_fd t), flags) \<in> set (made calls calls')
        \<and> (\<forall>x \<in> set (made calls calls'). \<not> failed x)
        \<and> map fst (made calls calls') =
            [Sys_open device, Sys_tcgetattr (sr_fd t), Sys_tcsetattr (sr_fd t) (raw_termios os (baud_to_speed baud) tio),
             Sys_getfl (sr_fd t), Sys_setfl (sr_fd t) (flags OR px_O_NONBLOCK os)]
        \<and> t = \<lparr>sr_fd = sr_fd t, sr_own_fd = True, sr_io = serial_impl_new\<rparr>)"
  by (auto simp: serial_open_def configure_termios_def set_nonblocking_def sys_def made_def Let_def
      split: prod.splits option.splits if_splits)

text \<open>What made \<open>for_fd\<close> give up.\<close>

lemma serial_for_fd_null:
  "serial_for_fd os fd own_fd calls = (t, calls') \<Longrightarrow> t = None \<longleftrightarrow> fd < 0 \<or> (\<exists>x \<in> set (made calls calls'). failed x)"
  by (auto simp: serial_for_fd_def set_nonblocking_def sys_def made_def Let_def split: if_splits)

section \<open>No descriptor is leaked\<close>

lemma udp_open_null:
  assumes "udp_open os cfg calls = (t, calls')"
  shows "t = None \<longleftrightarrow> (\<exists>x \<in> set (made calls calls'). failed x) \<or> px_inet_pton os (uc_interface_address cfg) = None
        \<or> px_inet_pton os (uc_group_address cfg) = None"
  using udp_open_configures [where os = os and cfg = cfg and calls = calls] assms by (auto split: option.splits)

lemma serial_open_null:
  assumes "serial_open os device baud calls = (t, calls')"
  shows "t = None \<longleftrightarrow> (\<exists>x \<in> set (made calls calls'). failed x) \<or> baud_to_speed baud = B0"
  using serial_open_configures [where os = os and device = device and baud = baud and calls = calls] assms by (auto split: option.splits)

lemma udp_open_held:
  assumes "px_answer os calls Sys_socket \<notin> held calls" "udp_open os cfg calls = (t, calls')"
  shows "case t of None \<Rightarrow> held calls' = held calls
    | Some t \<Rightarrow> ut_fd t \<notin> held calls \<and> held calls' = insert (ut_fd t) (held calls) \<and> held (udp_destroy os t calls') = held calls"
  using assms
  by (auto simp: udp_open_def Let_def udp_fail_def udp_destroy_held dest!: sys_held udp_join_held
      split: prod.splits option.splits if_splits)

lemma serial_open_held:
  assumes "px_answer os calls (Sys_open device) \<notin> held calls" "serial_open os device baud calls = (t, calls')"
  shows "case t of None \<Rightarrow> held calls' = held calls
    | Some t \<Rightarrow> sr_fd t \<notin> held calls \<and> held calls' = insert (sr_fd t) (held calls) \<and> held (serial_destroy os t calls') = held calls"
  using assms
  by (auto simp: serial_open_def serial_destroy_def Let_def sys_def dest!: configure_termios_held set_nonblocking_held
      split: prod.splits option.splits if_splits)

lemma serial_for_fd_held:
  assumes "serial_for_fd os fd own_fd calls = (t, calls')"
  shows "held calls' = held calls \<and> (case t of None \<Rightarrow> True | Some t \<Rightarrow> sr_fd t = fd
    \<and> held (serial_destroy os t calls') = (if own_fd then held calls - {fd} else held calls))"
  using assms
  by (auto simp: serial_for_fd_def serial_destroy_def sys_def Let_def dest!: set_nonblocking_held split: prod.splits option.splits if_splits)


section \<open>An operating system\<close>

text \<open>One that hands out new descriptors, never fails, and parses every address.\<close>

definition next_fd :: "calls \<Rightarrow> int" where
  "next_fd calls = 1 + sum_list (map (\<lambda>(c, r). \<bar>r\<bar>) calls)"

definition example_os :: posix where
  "example_os = \<lparr>px_answer = (\<lambda>calls c. case c of Sys_socket \<Rightarrow> next_fd calls | Sys_open _ \<Rightarrow> next_fd calls | _ \<Rightarrow> 0),
     px_termios = (\<lambda>_ _. \<lparr>c_iflag = 0, c_oflag = 0, c_cflag = 0, c_lflag = 0, c_vmin = 1, c_vtime = 0, c_ispeed = B0, c_ospeed = B0\<rparr>),
     px_cfmakeraw = (\<lambda>tio. tio), px_inet_pton = (\<lambda>_. Some 0), px_O_NONBLOCK = 2048, px_CLOCAL = 2048, px_CREAD = 128,
     px_CRTSCTS = 2147483648\<rparr>"

lemma held_below: "fd \<in> held calls \<Longrightarrow> fd < next_fd calls"
proof (induction calls rule: rev_induct)
  case (snoc x calls)
  obtain c r where x: "x = (c, r)" by (cases x)
  then have "fd = r \<or> fd \<in> held calls" using snoc.prems by (cases c) (auto split: if_splits)
  moreover have "0 < next_fd calls" by (induction calls) (auto simp: next_fd_def)
  ultimately show ?case using snoc.IH by (auto simp: next_fd_def x)
qed (simp add: held_def)

lemma example_os_fresh: "descriptors_fresh example_os"
  using held_below by (fastforce simp: descriptors_fresh_def example_os_def)

text \<open>The same, but every \<open>bind\<close> fails.\<close>

definition busy_os :: posix where
  "busy_os = example_os\<lparr>px_answer := (\<lambda>calls c. case c of Sys_bind _ _ _ \<Rightarrow> - 1 | _ \<Rightarrow> px_answer example_os calls c)\<rparr>"

lemma busy_os_fresh: "descriptors_fresh busy_os"
  using example_os_fresh by (simp add: descriptors_fresh_def busy_os_def)


end
