(* ===== verification/Thread_Pool.thy ===== *)
theory Thread_Pool
  imports Prelude "HOL-Library.Multiset"
begin

text \<open>
  The thread pool of the scheduler (\<open>detail::ThreadPool\<close>, src/core/scheduler.cpp): a queue of tasks under a mutex,
  workers that wait on a condition variable, and a destructor that stops and joins them.

  A step is what one thread does between two points where another may run: a critical section, a
  notification, or the end of a task.  A worker that waits leaves the wait by a notification or
  spuriously; it then evaluates the predicate again under the lock, which is the phase \<open>Checking\<close>.  The destructor
  runs when no task is submitted any more.
\<close>

datatype 't worker = Checking | Waiting | Running 't | Exited

text \<open>\<open>po_notify\<close> counts the calls of \<open>submit\<close> that have pushed their task and not yet notified,
  \<open>po_broadcast\<close> tells that the destructor has set \<open>stop_\<close> and not yet called \<open>notify_all\<close>.
  \<open>po_submitted\<close> and \<open>po_done\<close> record the tasks in the order of submission and of completion.\<close>

record 't pool =
  po_tasks :: "'t list"
  po_stop :: bool
  po_workers :: "'t worker list"
  po_notify :: nat
  po_broadcast :: bool
  po_submitted :: "'t list"
  po_done :: "'t list"

definition pool_new :: "nat \<Rightarrow> 't pool" where
  "pool_new num_workers =
     (let n = (if num_workers = 0 then 1 else num_workers)
      in \<lparr>po_tasks = [], po_stop = False, po_workers = replicate n Checking, po_notify = 0, po_broadcast = False,
          po_submitted = [], po_done = []\<rparr>)"

fun wake :: "'t worker \<Rightarrow> 't worker" where
  "wake Waiting = Checking"
| "wake w = w"

inductive pool_step :: "'t pool \<Rightarrow> 't pool \<Rightarrow> bool" where
  Submit: "\<not> po_stop p \<Longrightarrow>
    pool_step p (p\<lparr>po_tasks := po_tasks p @ [t], po_notify := po_notify p + 1, po_submitted := po_submitted p @ [t]\<rparr>)"
| Notify_Nobody: "po_notify p = Suc n \<Longrightarrow> Waiting \<notin> set (po_workers p) \<Longrightarrow> pool_step p (p\<lparr>po_notify := n\<rparr>)"
| Notify_One: "po_notify p = Suc n \<Longrightarrow> po_workers p = ws1 @ Waiting # ws2 \<Longrightarrow>
    pool_step p (p\<lparr>po_notify := n, po_workers := ws1 @ Checking # ws2\<rparr>)"
| Wait: "po_workers p = ws1 @ Checking # ws2 \<Longrightarrow> \<not> (po_stop p \<or> po_tasks p \<noteq> []) \<Longrightarrow>
    pool_step p (p\<lparr>po_workers := ws1 @ Waiting # ws2\<rparr>)"
| Return: "po_workers p = ws1 @ Checking # ws2 \<Longrightarrow> po_stop p \<Longrightarrow> po_tasks p = [] \<Longrightarrow>
    pool_step p (p\<lparr>po_workers := ws1 @ Exited # ws2\<rparr>)"
| Pop: "po_workers p = ws1 @ Checking # ws2 \<Longrightarrow> po_tasks p = t # ts \<Longrightarrow>
    pool_step p (p\<lparr>po_tasks := ts, po_workers := ws1 @ Running t # ws2\<rparr>)"
| Finish: "po_workers p = ws1 @ Running t # ws2 \<Longrightarrow>
    pool_step p (p\<lparr>po_workers := ws1 @ Checking # ws2, po_done := po_done p @ [t]\<rparr>)"
| Stop: "\<not> po_stop p \<Longrightarrow> pool_step p (p\<lparr>po_stop := True, po_broadcast := True\<rparr>)"
| Notify_All: "po_broadcast p \<Longrightarrow>
    pool_step p (p\<lparr>po_broadcast := False, po_workers := map wake (po_workers p)\<rparr>)"

text \<open>A wait may also end without a notification.\<close>

inductive pool_run :: "'t pool \<Rightarrow> 't pool \<Rightarrow> bool" where
  Step: "pool_step p p' \<Longrightarrow> pool_run p p'"
| Spurious: "po_workers p = ws1 @ Waiting # ws2 \<Longrightarrow> pool_run p (p\<lparr>po_workers := ws1 @ Checking # ws2\<rparr>)"

text \<open>The destructor returns when every worker has been joined.\<close>

definition pool_joined :: "'t pool \<Rightarrow> bool" where
  "pool_joined p \<longleftrightarrow> po_stop p \<and> list_all (\<lambda>w. w = Exited) (po_workers p)"

section \<open>Invariant\<close>

definition running :: "'t worker list \<Rightarrow> 't list" where
  "running ws = concat (map (\<lambda>w. case w of Running t \<Rightarrow> [t] | _ \<Rightarrow> []) ws)"

definition idle :: "'t worker list \<Rightarrow> nat" where
  "idle ws = length (filter (\<lambda>w. w = Checking) ws)"

text \<open>Every task is in one place; a task in the queue has a worker coming for it or every worker is awake; and nobody
  is left waiting after the broadcast.\<close>

definition pool_inv :: "'t pool \<Rightarrow> bool" where
  "pool_inv p \<longleftrightarrow>
     mset (po_submitted p) = mset (po_done p) + mset (running (po_workers p)) + mset (po_tasks p)
   \<and> (Waiting \<in> set (po_workers p) \<longrightarrow> length (po_tasks p) \<le> po_notify p + idle (po_workers p) \<or> po_broadcast p)
   \<and> (po_broadcast p \<longrightarrow> po_stop p)
   \<and> (po_stop p \<and> \<not> po_broadcast p \<longrightarrow> Waiting \<notin> set (po_workers p))
   \<and> (\<not> po_stop p \<longrightarrow> Exited \<notin> set (po_workers p))
   \<and> (Exited \<in> set (po_workers p) \<longrightarrow> po_tasks p = [])
   \<and> po_workers p \<noteq> []"

lemma worker_simps [simp]:
  "running [] = []" "running (w # ws) = (case w of Running t \<Rightarrow> [t] | _ \<Rightarrow> []) @ running ws" "running (ws @ ws') = running ws @ running ws'"
  "idle [] = 0" "idle (w # ws) = (if w = Checking then 1 else 0) + idle ws" "idle (ws @ ws') = idle ws + idle ws'"
  by (simp_all add: running_def idle_def)

lemma wake_neq [simp]: "wake w \<noteq> Waiting" "wake w = Exited \<longleftrightarrow> w = Exited" "Exited = wake w \<longleftrightarrow> w = Exited"
  by (cases w; simp)+

lemma running_wake [simp]: "running (map wake ws) = running ws"
proof (induction ws)
  case (Cons w ws)
  then show ?case by (cases w) simp_all
qed simp

lemma wake_set [simp]: "Waiting \<notin> wake ` A" "Exited \<in> wake ` A \<longleftrightarrow> Exited \<in> A"
  by (auto simp: image_iff dest: sym)

lemma pool_new_inv: "pool_inv (pool_new n)"
  by (simp add: pool_inv_def pool_new_def Let_def running_def)

lemma pool_step_inv: "pool_step p p' \<Longrightarrow> pool_inv p \<Longrightarrow> pool_inv p'"
  by (induction rule: pool_step.induct) (auto simp: pool_inv_def)

lemma pool_run_inv: "pool_run p p' \<Longrightarrow> pool_inv p \<Longrightarrow> pool_inv p'"
proof (induction rule: pool_run.induct)
  case (Step p p')
  then show ?case by (rule pool_step_inv)
next
  case (Spurious p ws1 ws2)
  then show ?case by (auto simp: pool_inv_def)
qed

lemma pool_runs_inv: "pool_run\<^sup>*\<^sup>* p p' \<Longrightarrow> pool_inv p \<Longrightarrow> pool_inv p'"
  by (induction rule: rtranclp_induct) (auto intro: pool_run_inv)

section \<open>The pool as a queue with servers\<close>

text \<open>What the parallel tick of the scheduler assumes of its pool: tasks are taken in the order of the queue,
  by at most \<open>n\<close> threads at a time.\<close>

inductive serve_step :: "nat \<Rightarrow> 't list \<times> 't multiset \<Rightarrow> 't list \<times> 't multiset \<Rightarrow> bool" for n where
  Enqueue: "serve_step n (q, r) (q @ [t], r)"
| Start: "size r < n \<Longrightarrow> serve_step n (t # q, r) (q, add_mset t r)"
| End: "serve_step n (q, add_mset t r) (q, r)"

definition view :: "'t pool \<Rightarrow> 't list \<times> 't multiset" where
  "view p = (po_tasks p, mset (running (po_workers p)))"

lemma running_length: "length (running ws) \<le> length ws"
proof (induction ws)
  case (Cons w ws)
  then show ?case by (cases w) simp_all
qed simp

theorem pool_refines_server:
  assumes "pool_run p p'"
  shows "length (po_workers p') = length (po_workers p) \<and> (view p' = view p \<or> serve_step (length (po_workers p)) (view p) (view p'))"
  using assms
proof (induction rule: pool_run.induct)
  case (Step p p')
  then show ?case
  proof (induction rule: pool_step.induct)
    case (Pop p ws1 ws2 t ts)
    have "size (mset (running (ws1 @ ws2))) < length (po_workers p)"
      using running_length [of "ws1 @ ws2"] Pop(1) by simp
    from Start [OF this, of t ts] Pop show ?case by (simp add: view_def)
  qed (auto simp: view_def intro: serve_step.intros)
qed (simp add: view_def)

section \<open>Progress\<close>

text \<open>Some thread other than a submitter or the destructor can go on.\<close>

definition can_step :: "'t pool \<Rightarrow> bool" where
  "can_step p \<longleftrightarrow> (\<exists>p'. pool_step p p' \<and> po_submitted p' = po_submitted p \<and> po_stop p' = po_stop p)"

lemma can_stepI: "pool_step p p' \<Longrightarrow> po_submitted p' = po_submitted p \<Longrightarrow> po_stop p' = po_stop p \<Longrightarrow> can_step p"
  by (auto simp: can_step_def)

lemma idle_pos: "0 < idle ws \<Longrightarrow> Checking \<in> set ws"
  by (auto simp: idle_def filter_empty_conv)

lemma running_worker: "running ws \<noteq> [] \<Longrightarrow> \<exists>t. Running t \<in> set ws"
  by (induction ws) (auto split: worker.splits)

lemma checking_step:
  assumes "Checking \<in> set (po_workers p)" "po_tasks p \<noteq> [] \<or> po_stop p"
  shows "can_step p"
proof -
  obtain ws1 ws2 where ws: "po_workers p = ws1 @ Checking # ws2" using assms(1) by (meson split_list)
  show ?thesis
  proof (cases "po_tasks p")
    case Nil
    with assms(2) show ?thesis by (intro can_stepI [OF Return [OF ws]]) simp_all
  next
    case (Cons t ts)
    show ?thesis by (rule can_stepI [OF Pop [OF ws Cons]]) simp_all
  qed
qed

lemma running_step:
  assumes "Running t \<in> set (po_workers p)"
  shows "can_step p"
proof -
  obtain ws1 ws2 where ws: "po_workers p = ws1 @ Running t # ws2" using assms by (meson split_list)
  show ?thesis by (rule can_stepI [OF Finish [OF ws]]) simp_all
qed

lemma notify_step:
  assumes "0 < po_notify p \<or> po_broadcast p"
  shows "can_step p"
proof (cases "po_broadcast p")
  case True
  show ?thesis by (rule can_stepI [OF Notify_All [OF True]]) simp_all
next
  case False
  then obtain n where n: "po_notify p = Suc n" using assms gr0_conv_Suc by blast
  show ?thesis
  proof (cases "Waiting \<in> set (po_workers p)")
    case True
    then obtain ws1 ws2 where ws: "po_workers p = ws1 @ Waiting # ws2" by (meson split_list)
    show ?thesis by (rule can_stepI [OF Notify_One [OF n ws]]) simp_all
  next
    case False
    show ?thesis by (rule can_stepI [OF Notify_Nobody [OF n False]]) simp_all
  qed
qed

lemma some_worker:
  assumes "ws \<noteq> []" "\<And>t. Running t \<notin> set ws" "Checking \<notin> set ws" "Exited \<notin> set ws"
  shows "Waiting \<in> set ws"
proof -
  have "hd ws \<in> set ws" using assms(1) by simp
  with assms(2-4) show ?thesis by (cases "hd ws") auto
qed

lemma busy_progress:
  assumes "pool_inv p" "po_tasks p \<noteq> [] \<or> running (po_workers p) \<noteq> []"
  shows "can_step p"
proof (cases "(\<exists>t. Running t \<in> set (po_workers p)) \<or> 0 < po_notify p \<or> po_broadcast p")
  case True
  then show ?thesis using running_step [of _ p] notify_step [of p] by metis
next
  case False
  then have tasks: "po_tasks p \<noteq> []" using assms(2) running_worker by blast
  have "Checking \<in> set (po_workers p)"
  proof (rule ccontr)
    assume c: "Checking \<notin> set (po_workers p)"
    then have "Waiting \<in> set (po_workers p)" using some_worker [of "po_workers p"] False tasks assms(1) by (auto simp: pool_inv_def)
    then have "length (po_tasks p) \<le> idle (po_workers p)" using assms(1) False by (auto simp: pool_inv_def)
    with c tasks idle_pos [of "po_workers p"] show False by (cases "idle (po_workers p)") auto
  qed
  with checking_step tasks show ?thesis by blast
qed

section \<open>Wake-ups\<close>

text \<open>
  Claim C23.  No wake-up is lost and no worker sleeps beside work.  Whatever the interleaving of submissions,
  notifications, spurious wake-ups and workers: when the pending notifications have been delivered and some worker
  still waits, every task in the queue has an awake worker about to take it; and as long as a task is
  queued or running, some thread can take a step other than a new submission.
\<close>

theorem pool_loses_no_wakeup:
  assumes "pool_run\<^sup>*\<^sup>* (pool_new n) p"
  shows "(po_notify p = 0 \<and> \<not> po_stop p \<and> Waiting \<in> set (po_workers p) \<longrightarrow> length (po_tasks p) \<le> idle (po_workers p))
    \<and> (po_tasks p \<noteq> [] \<or> running (po_workers p) \<noteq> [] \<longrightarrow> (\<exists>p'. pool_step p p' \<and> po_submitted p' = po_submitted p \<and> po_stop p' = po_stop p))"
proof
  note inv = pool_runs_inv [OF assms pool_new_inv]
  then show "po_notify p = 0 \<and> \<not> po_stop p \<and> Waiting \<in> set (po_workers p) \<longrightarrow> length (po_tasks p) \<le> idle (po_workers p)"
    by (auto simp: pool_inv_def)
  show "po_tasks p \<noteq> [] \<or> running (po_workers p) \<noteq> [] \<longrightarrow> (\<exists>p'. pool_step p p' \<and> po_submitted p' = po_submitted p \<and> po_stop p' = po_stop p)"
    using busy_progress [OF inv] unfolding can_step_def by blast
qed

text \<open>A pool of one worker that has gone to sleep, with a task submitted and notified.\<close>

definition example_pool :: "nat pool" where
  "example_pool = (pool_new 1)\<lparr>po_tasks := [7], po_submitted := [7]\<rparr>"

lemma example_pool_reachable: "pool_run\<^sup>*\<^sup>* (pool_new 1) example_pool"
proof -
  let ?p0 = "pool_new 1 :: nat pool"
  let ?p1 = "?p0\<lparr>po_workers := [] @ Waiting # []\<rparr>"
  let ?p2 = "?p1\<lparr>po_tasks := po_tasks ?p1 @ [7], po_notify := po_notify ?p1 + 1, po_submitted := po_submitted ?p1 @ [7]\<rparr>"
  let ?p3 = "?p2\<lparr>po_notify := 0, po_workers := [] @ Checking # []\<rparr>"
  have "pool_step ?p0 ?p1" by (rule Wait) (simp_all add: pool_new_def)
  moreover have "pool_step ?p1 ?p2" by (rule Submit) (simp add: pool_new_def)
  moreover have "pool_step ?p2 ?p3" by (rule Notify_One) (simp_all add: pool_new_def)
  ultimately have "pool_run\<^sup>*\<^sup>* ?p0 ?p3" by (meson Step converse_rtranclp_into_rtranclp rtranclp.rtrancl_refl)
  then show ?thesis by (simp add: example_pool_def pool_new_def)
qed

theorem pool_loses_no_wakeup_witness:
  "\<exists>p'. pool_step example_pool p' \<and> po_submitted p' = [7]"
  using pool_loses_no_wakeup [OF example_pool_reachable] by (auto simp: example_pool_def)

section \<open>Shutdown\<close>

fun worker_weight :: "'t worker \<Rightarrow> nat" where
  "worker_weight Exited = 0"
| "worker_weight Checking = 1"
| "worker_weight _ = 2"

text \<open>What a stopped pool can still do.\<close>

definition effort :: "'t pool \<Rightarrow> nat" where
  "effort p = 2 * length (po_tasks p) + sum_list (map worker_weight (po_workers p)) + po_notify p + (if po_broadcast p then 1 else 0)"

lemma worker_weight_wake: "sum_list (map (worker_weight \<circ> wake) ws) \<le> sum_list (map worker_weight ws)"
proof (rule sum_list_mono)
  fix w show "(worker_weight \<circ> wake) w \<le> worker_weight w" by (cases w) simp_all
qed

lemma stopped_run:
  assumes "pool_run p p'" "po_stop p"
  shows "po_stop p' \<and> po_submitted p' = po_submitted p \<and> effort p' < effort p"
  using assms
proof (induction rule: pool_run.induct)
  case (Step p p')
  then show ?case
  proof (induction rule: pool_step.induct)
    case (Notify_All p)
    then show ?case using worker_weight_wake [of "po_workers p"] by (simp add: effort_def)
  qed (auto simp: effort_def)
qed (simp add: effort_def)

lemma stopped_runs:
  "(pool_run ^^ k) p q \<Longrightarrow> po_stop p \<Longrightarrow> po_stop q \<and> po_submitted q = po_submitted p \<and> k + effort q \<le> effort p"
proof (induction k arbitrary: q)
  case (Suc k)
  then obtain r where r: "(pool_run ^^ k) p r" "pool_run r q" by auto
  with Suc.IH [OF r(1) Suc.prems(2)] stopped_run [OF r(2)] show ?case by auto
qed simp

lemma stopped_progress:
  assumes "pool_inv p" "po_stop p" "\<not> pool_joined p"
  shows "can_step p"
proof (rule ccontr)
  assume n: "\<not> can_step p"
  obtain w where w: "w \<in> set (po_workers p)" "w \<noteq> Exited" using assms(2,3) by (auto simp: pool_joined_def list_all_iff)
  have "\<not> po_broadcast p" using n notify_step by blast
  then have "w \<noteq> Waiting" using assms(1,2) w(1) by (auto simp: pool_inv_def)
  moreover have "w \<noteq> Checking" using n w(1) checking_step assms(2) by blast
  moreover have "w \<noteq> Running t" for t using n w(1) running_step by metis
  ultimately show False using w(2) by (cases w) auto
qed

text \<open>
  Claim C22.  The destructor ends and loses no work: from the moment \<open>stop_\<close> is set, whatever was in the queue and
  whoever slept, every run of the pool is finite, with a bound that depends on the tasks and workers only; until all
  workers have returned some thread can go on without a spurious wake-up; and when they have, every task
  ever submitted has been executed exactly once.
\<close>

theorem pool_shutdown:
  assumes "pool_run\<^sup>*\<^sup>* (pool_new n) p" "po_stop p" "(pool_run ^^ k) p q"
  shows "k \<le> 2 * length (po_tasks p) + 2 * length (po_workers p) + po_notify p + 1
    \<and> (if pool_joined q then mset (po_done q) = mset (po_submitted p) else \<exists>q'. pool_step q q')"
proof
  have len: "sum_list (map worker_weight ws) \<le> 2 * length ws" for ws :: "'a worker list"
  proof (induction ws)
    case (Cons w ws)
    then show ?case by (cases w) simp_all
  qed simp
  note s = stopped_runs [OF assms(3,2)]
  have inv: "pool_inv q"
    using pool_runs_inv [OF _ pool_runs_inv [OF assms(1) pool_new_inv]] assms(3) by (meson rtranclp_power)
  show "k \<le> 2 * length (po_tasks p) + 2 * length (po_workers p) + po_notify p + 1"
    using s len [of "po_workers p"] by (auto simp: effort_def split: if_splits)
  show "if pool_joined q then mset (po_done q) = mset (po_submitted p) else \<exists>q'. pool_step q q'"
  proof (cases "pool_joined q")
    case True
    then have all: "\<forall>w \<in> set (po_workers q). w = Exited" by (simp add: pool_joined_def list_all_iff)
    then have "running (po_workers q) = []" using running_worker by fastforce
    moreover have "po_tasks q = []" using inv all by (cases "po_workers q") (auto simp: pool_inv_def)
    ultimately show ?thesis using inv s True by (simp add: pool_inv_def)
  next
    case False
    then show ?thesis using stopped_progress [OF inv] s by (auto simp: can_step_def)
  qed
qed

theorem pool_shutdown_witness:
  "\<exists>q. pool_run\<^sup>*\<^sup>* (pool_new 1) q \<and> po_stop q \<and> po_tasks q = [7 :: nat] \<and> (\<exists>q'. pool_step q q')"
proof -
  let ?q = "example_pool\<lparr>po_stop := True, po_broadcast := True\<rparr>"
  have "pool_step example_pool ?q" by (rule Stop) (simp add: example_pool_def pool_new_def)
  then have r: "pool_run\<^sup>*\<^sup>* (pool_new 1) ?q" using example_pool_reachable by (meson Step rtranclp.rtrancl_into_rtrancl)
  have "\<not> pool_joined ?q" by (simp add: pool_joined_def example_pool_def pool_new_def)
  with pool_shutdown [OF r, of 0 ?q] r show ?thesis by (auto simp: example_pool_def)
qed

end
