(* ===== verification/Spec2Isabelle.thy ===== *)
theory Spec2Isabelle
  imports Chacha20 Sim_Swarm Observability Transport_Open Thread_Pool
begin

text \<open>
  A verification development of mith-atomas, a C++17 runtime for swarms of robots.

  The program.  Each robot is a \<open>World\<close>.  It owns a registry with the components of its one self
  entity, a scheduler with the systems that run once per tick, a table of the neighbours it has heard,
  the keys it has pinned for other robots, and transports.  Robots see each other only through beacons
  (a state vector, broadcast) and messages, over UDP multicast, a serial line or the simulated bus.
  Systems read and write the components and the table; the descriptors they return tell the scheduler
  which accesses must not overlap.

  Theories, in the order of imports.

  \<^item> \<open>Prelude\<close>: fallible code (\<open>res\<close>, with \<open>Abort\<close> for a failed assertion of the code and \<open>Undefined\<close> for
    undefined behaviour of C++), folds over it, bytes of words, lists.
  \<^item> \<open>Float32\<close>, \<open>Float64\<close>: IEEE single precision with rounding to nearest, on 32-bit patterns, and the
    double-precision patterns into which values are widened for output.
  \<^item> \<open>Bounded_Queue\<close> (core/bounded_queue.h): the ring buffer; locales \<open>fifo\<close>, \<open>bounded_fifo\<close> and one per
    overflow policy, interpreted at the two capacities in use.
  \<^item> \<open>Byte_Order\<close>, \<open>Identity_Ids\<close>, \<open>Identity_Auth\<close>, \<open>Chacha20\<close> (identity/, comms/peer_key_registry.cpp):
    little-endian encodings, UUIDs and hierarchical identifiers, signatures, the two trust-on-first-use
    stores under the locale \<open>key_store\<close>, the generator.
  \<^item> \<open>Ordered_Map\<close>: a sorted association list for \<open>std::map\<close>.
  \<^item> \<open>Components\<close> (core/builtin_components.h, comms/message.h, comms/state_vector.h, behaviour/action.h): data.
  \<^item> \<open>Wire\<close>, \<open>Serial_Framing\<close>, \<open>Transports\<close>, \<open>Transport_Open\<close> (comms/): the codecs, the serial parser, the
    transports with the results of the system calls as inputs, and how they acquire and release their descriptor.
  \<^item> \<open>Neighbour_Table\<close> (comms/neighbour_table.cpp): entries, hash grid, range query; locale \<open>observation_store\<close>.
  \<^item> \<open>Scheduler\<close>, \<open>Thread_Pool\<close> (core/scheduler.cpp): the hazard graph, the sequential tick, the parallel tick as a step
    relation of main thread, queue, workers and counters; the pool with its condition variable.
  \<^item> \<open>Registry\<close> (core/registry.h): registration and typed access; locale \<open>typed_store\<close>.
  \<^item> \<open>Decimal\<close>, \<open>Json_Writer\<close> (core/json_writer.cpp): the numbers that \<open>snprintf\<close> prints for \<open>%llu\<close>, \<open>%lld\<close> and
    \<open>%.17g\<close>, and the writer, against a reader of the JSON grammar.
  \<^item> \<open>Trace_Sinks\<close>, \<open>Trace_Ring\<close> (core/trace_sink.cpp, core/binary_trace_sink.cpp): the JSON and the binary
    sink; the ring of frames interprets \<open>fifo\<close> of \<open>Bounded_Queue\<close>.
  \<^item> \<open>World_State\<close> (core/world.h): the record of a world and its simple members.
  \<^item> \<open>Actions\<close>, \<open>Fault_Monitor\<close>, \<open>Clock_Sync\<close>, \<open>Task_Alloc\<close>, \<open>Flocking\<close>, \<open>Discovery\<close>, \<open>Beacon_System\<close>
    (behaviour/, systems/, comms/beacon_system.cpp): the tick of every built-in system.
  \<^item> \<open>Builtin_Systems\<close>: their descriptors and the composition of a tick.
  \<^item> \<open>World_Lifecycle\<close> (core/world.cpp): construction, \<open>init\<close>, \<open>tick\<close>, \<open>run\<close>, identity rotation.
  \<^item> \<open>Observability\<close> (core/world.cpp, core/registry.cpp): \<open>set_trace_sink\<close>, \<open>dump_state\<close>, the snapshot of an entity, the
    trace and the timings of a tick.
  \<^item> \<open>Sim_Bus\<close>, \<open>Sim_Swarm\<close> (sim/): the simulated clock and bus; robots on it, from a beacon sent to a neighbour known.

  What the results show.  Codecs: decoding inverts encoding and accepts nothing else; a serial stream
  is recovered after noise; frames and datagrams are delivered exactly once and in order; the signed prefix
  determines the beacon.  Trust: a pinned key stays; a pinned peer's entry changes only by a verified
  beacon or one without a key; rotations leave a chain of certificates that a peer can follow.  Data
  structures: the queue refines a list under each policy, the table keeps one entry per identity and an
  exact index, the range query is exact on the scanned cells, the registry is type safe and \<open>w_self\<close> refines it.
  Scheduling: a seeded parallel tick ends, and ends in the state of the sequential tick; the pool loses neither
  wake-ups nor tasks; the built-in
  systems run in one fixed order.  Systems: only permitted actions take effect, a degraded robot is
  restrained, the clock moves by bounded steps, the neediest role is taken, the bootstrap ends, a merge
  window closes.  World and bus: the life cycle, the clock of a run, lock step and delivery in a simulation, and
  the whole way from a beacon to an entry in another robot's table.
  Output: every document written is read back, a printed double identifies the double, the binary sink
  keeps the newest frames and they decode, a dumped state is a document, the trace of a tick is exact.
  Theorems that are not among these record defects and divergences from the documentation.

  Conventions.  Machine integers are words of their width; \<open>int\<close> arithmetic that can overflow is checked and
  yields \<open>Undefined\<close>.  \<open>float\<close> is the type \<open>f32\<close> of bit patterns, with one rounding per operation, that
  is without contraction of multiplication and addition.  Code that can abort or is undefined returns a \<open>res\<close>.
  \<open>MITH_AUTH_ENABLED\<close> is the argument \<open>auth_build\<close>: \<open>None\<close> for a build without it, otherwise the two
  TweetNaCl functions, which are vendored and therefore parameters; what is assumed of them is \<open>nacl_correct\<close>.  Entropy, the
  results of system calls and the packets that arrive are arguments.  Loops are structural recursions or have a termination
  proof; the write loop of the serial transport, which may not end, takes the list of the replies of the device, and
  \<open>drain_loop\<close> of the queue takes a number of rounds, for which one more than the capacity is shown to be
  enough.

  \<open>World::tick\<close> runs the scheduler in its sequential mode, which is the default; the parallel mode is
  treated in \<open>Scheduler\<close> on its own.  \<open>world_tick\<close> leaves the timings alone and \<open>world_tick_timed\<close> records them;
  the readings of the clock are arguments.  The registry and the world of the model keep separate logs
  of the one sink they share.

  Not modelled.  Sleeping; allocation failures and the lifetimes of objects other than the thread pool and the
  descriptors of the transports; the headers of the action provider and executor, which declare nothing; TweetNaCl, the
  examples, the tests and the visualiser.

\<close>

end
